(* ===== verification/Prelude.thy ===== *)
theory Prelude
  imports Main "HOL-Library.Word"
begin

unbundle bit_operations_syntax

text \<open>
  Shared vocabulary of the development: the machine types of the Go source, the
  fixed-width little-endian codec of \<^verbatim>\<open>encoding/binary\<close>, results with errors, and the
  list and option lemmas that the component theories use.

  Go's \<^verbatim>\<open>uint8 .. uint64\<close> are words of that width. \<^verbatim>\<open>int\<close> and \<^verbatim>\<open>int64\<close> values that
  the source uses as lengths, offsets and byte counts are \<^typ>\<open>nat\<close> or \<^typ>\<open>int\<close>;
  where a conversion truncates, the truncation is written out.
\<close>

section \<open>Machine types\<close>

type_synonym u8 = "8 word"
type_synonym u16 = "16 word"
type_synonym u32 = "32 word"
type_synonym u64 = "64 word"
type_synonym bytes = "u8 list"

named_theorems result_iff \<open>inversion of successful results\<close>
named_theorems codec \<open>round-trip equations of the byte codecs\<close>
named_theorems codec_len \<open>lengths of encoded values\<close>

section \<open>Results with errors\<close>

definition bind_result :: "'e + 'a \<Rightarrow> ('a \<Rightarrow> 'e + 'b) \<Rightarrow> 'e + 'b" where
  "bind_result m f = (case m of Inl e \<Rightarrow> Inl e | Inr x \<Rightarrow> f x)"

lemma bind_result_simps [simp]:
  "bind_result (Inl e) f = Inl e"
  "bind_result (Inr x) f = f x"
  by (simp_all add: bind_result_def)

lemma bind_result_Inr_iff [result_iff]:
  "bind_result m f = Inr y \<longleftrightarrow> (\<exists>x. m = Inr x \<and> f x = Inr y)"
  by (cases m) simp_all

section \<open>Little-endian words\<close>

text \<open>
  \<open>le_bytes n w\<close> is what \<^verbatim>\<open>binary.LittleEndian.PutUint\<close> writes for an \<open>n\<close>-byte
  field; \<open>le_word\<close> is what the matching \<^verbatim>\<open>Uint\<close> reads back.
\<close>

primrec le_bytes :: "nat \<Rightarrow> 'a::len word \<Rightarrow> bytes" where
  "le_bytes 0 w = []"
| "le_bytes (Suc n) w = ucast w # le_bytes n (drop_bit 8 w)"

primrec le_word :: "bytes \<Rightarrow> 'a::len word" where
  "le_word [] = 0"
| "le_word (b # bs) = ucast b OR push_bit 8 (le_word bs)"

lemma length_le_bytes [simp, codec_len]: "length (le_bytes n w) = n"
  by (induction n arbitrary: w) simp_all

lemma le_word_le_bytes: "le_word (le_bytes n w) = take_bit (8 * n) (w :: 'a::len word)"
proof (induction n arbitrary: w)
  case 0
  then show ?case by simp
next
  case (Suc n)
  have "ucast (ucast w :: u8) OR push_bit 8 (take_bit (8 * n) (drop_bit 8 w)) = take_bit (8 * Suc n) w"
    by (rule bit_word_eqI) (auto simp add: bit_simps)
  with Suc show ?case by simp
qed

lemma bit_le_word: "bit (le_word bs :: 'a::len word) i \<longleftrightarrow>
    i < LENGTH('a) \<and> i div 8 < length bs \<and> bit (bs ! (i div 8)) (i mod 8)"
proof (induction bs arbitrary: i)
  case Nil
  then show ?case by simp
next
  case (Cons b bs)
  show ?case
  proof (cases "i < 8")
    case True
    then show ?thesis by (auto simp add: bit_simps dest: bit_imp_le_length)
  next
    case False
    then have i: "i div 8 = Suc ((i - 8) div 8)" "(i - 8) mod 8 = i mod 8"
      by (simp_all add: le_div_geq le_mod_geq)
    have "\<not> bit b i"
      using False bit_imp_le_length by fastforce
    with False i Cons.IH [of "i - 8"] show ?thesis
      by (auto simp add: bit_simps)
  qed
qed

lemma le_bytes_le_word:
  assumes "8 * length bs \<le> LENGTH('a::len)"
  shows "le_bytes (length bs) (le_word bs :: 'a word) = bs"
  using assms
proof (induction bs)
  case Nil
  then show ?case by simp
next
  case (Cons b bs)
  have hd: "ucast (ucast b OR push_bit 8 (le_word bs :: 'a word)) = b"
    using Cons.prems by (intro bit_word_eqI) (auto simp add: bit_simps)
  have "drop_bit 8 (ucast b OR push_bit 8 (le_word bs :: 'a word)) = le_word bs"
  proof (rule bit_word_eqI)
    fix i
    assume "i < LENGTH('a)"
    have small: "\<not> bit b (8 + i)"
      using bit_imp_le_length by fastforce
    have "bit (le_word bs :: 'a word) i \<Longrightarrow> 8 + i < LENGTH('a)"
      using Cons.prems by (auto simp add: bit_le_word)
    with small show "bit (drop_bit 8 (ucast b OR push_bit 8 (le_word bs :: 'a word))) i = bit (le_word bs :: 'a word) i"
      by (auto simp add: bit_simps)
  qed
  with hd Cons show ?case by simp
qed

abbreviation PutUint16 :: "u16 \<Rightarrow> bytes" where "PutUint16 \<equiv> le_bytes 2"
abbreviation PutUint32 :: "u32 \<Rightarrow> bytes" where "PutUint32 \<equiv> le_bytes 4"
abbreviation PutUint64 :: "u64 \<Rightarrow> bytes" where "PutUint64 \<equiv> le_bytes 8"

abbreviation Uint16 :: "bytes \<Rightarrow> u16" where "Uint16 bs \<equiv> le_word (take 2 bs)"
abbreviation Uint32 :: "bytes \<Rightarrow> u32" where "Uint32 bs \<equiv> le_word (take 4 bs)"
abbreviation Uint64 :: "bytes \<Rightarrow> u64" where "Uint64 bs \<equiv> le_word (take 8 bs)"

lemma le_word_PutUint [simp, codec]:
  "le_word (PutUint16 a) = a" "le_word (PutUint32 b) = b" "le_word (PutUint64 c) = c"
  by (simp_all add: le_word_le_bytes take_bit_word_eq_self)

lemma PutUint_le_word:
  "length bs = 2 \<Longrightarrow> PutUint16 (le_word bs) = bs"
  "length bs = 4 \<Longrightarrow> PutUint32 (le_word bs) = bs"
  "length bs = 8 \<Longrightarrow> PutUint64 (le_word bs) = bs"
  using le_bytes_le_word [where 'a = 16, of bs] le_bytes_le_word [where 'a = 32, of bs]
    le_bytes_le_word [where 'a = 64, of bs] by simp_all

section \<open>Lists\<close>

text \<open>\<open>subslice a b xs\<close> is Go's \<^verbatim>\<open>xs[a:b]\<close> for \<open>a \<le> b \<le> length xs\<close>.\<close>

definition subslice :: "nat \<Rightarrow> nat \<Rightarrow> 'a list \<Rightarrow> 'a list" where
  "subslice a b xs = take (b - a) (drop a xs)"

lemma length_subslice [simp]: "length (subslice a b xs) = min (b - a) (length xs - a)"
  by (simp add: subslice_def)

lemma subslice_append_left [codec]: "b \<le> length xs \<Longrightarrow> subslice a b (xs @ ys) = subslice a b xs"
  by (simp add: subslice_def)

lemma subslice_append_right [codec]:
  "length xs \<le> a \<Longrightarrow> subslice a b (xs @ ys) = subslice (a - length xs) (b - length xs) ys"
  by (simp add: subslice_def)

lemma subslice_full [codec]: "b = length xs \<Longrightarrow> subslice 0 b xs = xs"
  by (simp add: subslice_def)

lemma take_append_exact [simp]: "n = length xs \<Longrightarrow> take n (xs @ ys) = xs"
  by simp

lemma drop_append_exact [simp]: "n = length xs \<Longrightarrow> drop n (xs @ ys) = ys"
  by simp

text \<open>The wrap-around of \<^verbatim>\<open>uint16(len(x))\<close> and \<^verbatim>\<open>uint32(len(x))\<close> is the word conversion.\<close>

lemma unat_len16 [simp]: "n < 2 ^ 16 \<Longrightarrow> unat (word_of_nat n :: u16) = n"
  by (simp add: unat_of_nat)

lemma unat_len32 [simp]: "n < 2 ^ 32 \<Longrightarrow> unat (word_of_nat n :: u32) = n"
  by (simp add: unat_of_nat)

end
