(* ===== verification/Wire_Frame.thy ===== *)
theory Wire_Frame
  imports Prelude
begin

text \<open>
  The frame layer of the wire protocol: \<^verbatim>\<open>internal/protocol/limits.go\<close>, \<^verbatim>\<open>opcode.go\<close>,
  \<^verbatim>\<open>status.go\<close> and \<^verbatim>\<open>frame.go\<close>. A reader is the list of chunks that successive
  \<^verbatim>\<open>Read\<close> calls can return before end of file, so the short reads of a TCP socket
  are part of the model; a writer is a function that answers each \<^verbatim>\<open>Write\<close> call.
\<close>

section \<open>Limits, opcodes and statuses\<close>

abbreviation MaxKeyLen :: nat where "MaxKeyLen \<equiv> 65535"
abbreviation MaxValueLen :: nat where "MaxValueLen \<equiv> 16777216"
abbreviation MaxFrameLen :: nat where "MaxFrameLen \<equiv> MaxValueLen + MaxKeyLen + 64"
abbreviation HeaderLen :: nat where "HeaderLen \<equiv> 16"
abbreviation Magic :: u16 where "Magic \<equiv> 0x564B"
abbreviation ProtoVersion :: u8 where "ProtoVersion \<equiv> 0x01"
abbreviation FlagNoReply :: u16 where "FlagNoReply \<equiv> 1"
abbreviation AllFlags :: u16 where "AllFlags \<equiv> FlagNoReply"

abbreviation OpPing :: u8 where "OpPing \<equiv> 0x01"
abbreviation OpGet :: u8 where "OpGet \<equiv> 0x02"
abbreviation OpSet :: u8 where "OpSet \<equiv> 0x03"
abbreviation OpDelete :: u8 where "OpDelete \<equiv> 0x04"
abbreviation OpExists :: u8 where "OpExists \<equiv> 0x05"
abbreviation OpExpire :: u8 where "OpExpire \<equiv> 0x06"
abbreviation OpStats :: u8 where "OpStats \<equiv> 0x07"
abbreviation OpTTL :: u8 where "OpTTL \<equiv> 0x08"
abbreviation OpFlush :: u8 where "OpFlush \<equiv> 0x09"
abbreviation OpSnapshot :: u8 where "OpSnapshot \<equiv> 0x0A"
abbreviation OpKeys :: u8 where "OpKeys \<equiv> 0x0B"
abbreviation OpReplConf :: u8 where "OpReplConf \<equiv> 0x10"
abbreviation OpSync :: u8 where "OpSync \<equiv> 0x11"
abbreviation OpReplAck :: u8 where "OpReplAck \<equiv> 0x12"
abbreviation OpPromote :: u8 where "OpPromote \<equiv> 0x13"

definition opcodeNames :: "(u8 \<times> string) list" where
  "opcodeNames =
    [(OpPing, ''PING''), (OpGet, ''GET''), (OpSet, ''SET''), (OpDelete, ''DELETE''),
     (OpExists, ''EXISTS''), (OpExpire, ''EXPIRE''), (OpStats, ''STATS''), (OpTTL, ''TTL''),
     (OpFlush, ''FLUSH''), (OpSnapshot, ''SNAPSHOT''), (OpKeys, ''KEYS''),
     (OpReplConf, ''REPLCONF''), (OpSync, ''SYNC''), (OpReplAck, ''REPLACK''),
     (OpPromote, ''PROMOTE'')]"

definition opcode_String :: "u8 \<Rightarrow> string" where
  "opcode_String op = (case map_of opcodeNames op of Some n \<Rightarrow> n | None \<Rightarrow> ''UNKNOWN'')"

definition opcode_Valid :: "u8 \<Rightarrow> bool" where
  "opcode_Valid op = (map_of opcodeNames op \<noteq> None)"

definition opcode_IsMutation :: "u8 \<Rightarrow> bool" where
  "opcode_IsMutation op = (op \<in> {OpSet, OpDelete, OpExpire, OpFlush})"

text \<open>\<^verbatim>\<open>equalFold\<close> compares bytes after mapping \<^verbatim>\<open>a..z\<close> to \<^verbatim>\<open>A..Z\<close>.\<close>

definition fold_byte :: "char \<Rightarrow> nat" where
  "fold_byte c = (let n = of_char c in if 97 \<le> n \<and> n \<le> (122 :: nat) then n - 32 else n)"

fun equalFold :: "string \<Rightarrow> string \<Rightarrow> bool" where
  "equalFold [] [] = True"
| "equalFold (a # as) (b # bs) = (fold_byte a = fold_byte b \<and> equalFold as bs)"
| "equalFold _ _ = False"

text \<open>
  The source ranges over a Go map, in no fixed order; the names differ even up to case,
  so at most one entry matches and the order is not observable.
\<close>

definition OpcodeByName :: "string \<Rightarrow> u8 option" where
  "OpcodeByName name = map_option fst (find (\<lambda>(op, n). equalFold n name) opcodeNames)"

abbreviation StatusOK :: u8 where "StatusOK \<equiv> 0x00"
abbreviation StatusNotFound :: u8 where "StatusNotFound \<equiv> 0x01"
abbreviation StatusBadRequest :: u8 where "StatusBadRequest \<equiv> 0x02"
abbreviation StatusTooLarge :: u8 where "StatusTooLarge \<equiv> 0x03"
abbreviation StatusOOM :: u8 where "StatusOOM \<equiv> 0x04"
abbreviation StatusInternal :: u8 where "StatusInternal \<equiv> 0x05"
abbreviation StatusReadOnly :: u8 where "StatusReadOnly \<equiv> 0x06"
abbreviation StatusNotLeader :: u8 where "StatusNotLeader \<equiv> 0x07"
abbreviation StatusProtocolError :: u8 where "StatusProtocolError \<equiv> 0x80"

definition statusNames :: "(u8 \<times> string) list" where
  "statusNames =
    [(StatusOK, ''OK''), (StatusNotFound, ''NOT_FOUND''), (StatusBadRequest, ''BAD_REQUEST''),
     (StatusTooLarge, ''TOO_LARGE''), (StatusOOM, ''OOM''), (StatusInternal, ''INTERNAL''),
     (StatusReadOnly, ''READ_ONLY''), (StatusNotLeader, ''NOT_LEADER''),
     (StatusProtocolError, ''PROTOCOL_ERROR'')]"

definition status_String :: "u8 \<Rightarrow> string" where
  "status_String st = (case map_of statusNames st of Some n \<Rightarrow> n | None \<Rightarrow> ''UNKNOWN_STATUS'')"

definition status_Fatal :: "u8 \<Rightarrow> bool" where
  "status_Fatal st = (st = StatusProtocolError)"

section \<open>Readers and writers\<close>

datatype io_error = EOF | ErrUnexpectedEOF | ErrShortWrite

text \<open>
  \<^verbatim>\<open>io.ReadFull\<close>: read until \<open>need\<close> more bytes have arrived. \<open>acc\<close> holds what has been
  read so far; end of file before the first byte is \<open>EOF\<close>, later it is
  \<open>ErrUnexpectedEOF\<close>.
\<close>

fun ReadFull_loop :: "nat \<Rightarrow> bytes \<Rightarrow> bytes list \<Rightarrow> (io_error + bytes) \<times> bytes list" where
  "ReadFull_loop need acc [] =
     (if need = 0 then (Inr acc, [])
      else if acc = [] then (Inl EOF, []) else (Inl ErrUnexpectedEOF, []))"
| "ReadFull_loop need acc (c # cs) =
     (if need = 0 then (Inr acc, c # cs)
      else if length c \<le> need then ReadFull_loop (need - length c) (acc @ c) cs
      else (Inr (acc @ take need c), drop need c # cs))"

definition ReadFull :: "nat \<Rightarrow> bytes list \<Rightarrow> (io_error + bytes) \<times> bytes list" where
  "ReadFull n r = ReadFull_loop n [] r"

text \<open>
  \<^verbatim>\<open>WriteFull\<close> loops over short writes. \<open>wr w p\<close> is one \<^verbatim>\<open>w.Write(p)\<close>: the count,
  the error if any, and the writer afterwards. The loop stops because every round that
  continues has written at least one byte.
\<close>

function WriteFull :: "('w \<Rightarrow> bytes \<Rightarrow> nat \<times> 'e option \<times> 'w) \<Rightarrow> 'w \<Rightarrow> bytes \<Rightarrow>
    ('e + io_error) option \<times> 'w" where
  "WriteFull wr w p =
     (if p = [] then (None, w)
      else case wr w p of (n, err, w') \<Rightarrow>
        (case err of
           Some e \<Rightarrow> (Some (Inl e), w')
         | None \<Rightarrow> if n = 0 then (Some (Inr ErrShortWrite), w')
                   else WriteFull wr w' (drop n p)))"
  by pat_completeness auto
termination
  by (relation "measure (\<lambda>(_, _, p). length p)") auto

declare WriteFull.simps [simp del]

section \<open>Frames\<close>

datatype proto_error =
    ErrBadMagic | ErrBadVersion | ErrReservedSet | ErrUnknownFlags | ErrFrameTooLarge
  | ErrShortBody | ErrTrailingBytes | ErrTruncated | ErrKeyTooLong | ErrValueTooLong
  | ErrUnknownOpcode

text \<open>\<^verbatim>\<open>errors.Is(err, ErrProtocol)\<close>: every codec error but \<open>ErrUnknownOpcode\<close> wraps it.\<close>

definition is_ErrProtocol :: "proto_error \<Rightarrow> bool" where
  "is_ErrProtocol e = (e \<noteq> ErrUnknownOpcode)"

record Header =
  hVersion :: u8
  hCode :: u8
  hFlags :: u16
  hReserved :: u16
  hRequestID :: u32
  hBodyLen :: u32

definition zeroHeader :: Header where
  "zeroHeader = \<lparr>hVersion = 0, hCode = 0, hFlags = 0, hReserved = 0, hRequestID = 0, hBodyLen = 0\<rparr>"

definition EncodeHeader :: "Header \<Rightarrow> bytes" where
  "EncodeHeader h =
     PutUint16 Magic @ [hVersion h, hCode h] @ PutUint16 (hFlags h) @ PutUint16 (hReserved h) @
     PutUint32 (hRequestID h) @ PutUint32 (hBodyLen h)"

definition DecodeHeader :: "bytes \<Rightarrow> proto_error + Header" where
  "DecodeHeader src =
     (if length src < HeaderLen then Inl ErrTruncated
      else if Uint16 (subslice 0 2 src) \<noteq> Magic then Inl ErrBadMagic
      else if src ! 2 \<noteq> ProtoVersion then Inl ErrBadVersion
      else let flags = Uint16 (subslice 4 6 src) in
        if flags AND NOT AllFlags \<noteq> 0 then Inl ErrUnknownFlags
        else let reserved = Uint16 (subslice 6 8 src) in
          if reserved \<noteq> 0 then Inl ErrReservedSet
          else let bodyLen = Uint32 (subslice 12 16 src) in
            if unat bodyLen > MaxFrameLen then Inl ErrFrameTooLarge
            else Inr \<lparr>hVersion = src ! 2, hCode = src ! 3, hFlags = flags, hReserved = reserved,
                      hRequestID = Uint32 (subslice 8 12 src), hBodyLen = bodyLen\<rparr>)"

record Frame =
  fHeader :: Header
  fBody :: bytes

definition NoReply :: "Frame \<Rightarrow> bool" where
  "NoReply f = (hFlags (fHeader f) AND FlagNoReply \<noteq> 0)"

datatype read_error = IOErr io_error | ProtoErr proto_error

text \<open>
  \<^verbatim>\<open>ReadFrame\<close> returns the frame, the error and the rest of the input. The scratch
  buffer only decides where the body bytes live, so it is not part of the model.
\<close>

definition effMaxBody :: "u32 \<Rightarrow> nat" where
  "effMaxBody maxBody =
     (if maxBody = 0 \<or> unat maxBody > MaxFrameLen then MaxFrameLen else unat maxBody)"

definition ReadFrame :: "bytes list \<Rightarrow> u32 \<Rightarrow> Frame \<times> read_error option \<times> bytes list" where
  "ReadFrame r maxBody0 =
     (case ReadFull HeaderLen r of
        (Inl e, r1) \<Rightarrow> (\<lparr>fHeader = zeroHeader, fBody = []\<rparr>, Some (IOErr e), r1)
      | (Inr hdrBuf, r1) \<Rightarrow>
        (case DecodeHeader hdrBuf of
           Inl e \<Rightarrow> (\<lparr>fHeader = zeroHeader, fBody = []\<rparr>, Some (ProtoErr e), r1)
         | Inr h \<Rightarrow>
           (let maxBody = effMaxBody maxBody0
            in if unat (hBodyLen h) > maxBody
               then (\<lparr>fHeader = h, fBody = []\<rparr>, Some (ProtoErr ErrFrameTooLarge), r1)
               else if hBodyLen h = 0 then (\<lparr>fHeader = h, fBody = []\<rparr>, None, r1)
               else (case ReadFull (unat (hBodyLen h)) r1 of
                       (Inl e, r2) \<Rightarrow> (\<lparr>fHeader = h, fBody = []\<rparr>,
                          Some (IOErr (if e = EOF then ErrUnexpectedEOF else e)), r2)
                     | (Inr body, r2) \<Rightarrow> (\<lparr>fHeader = h, fBody = body\<rparr>, None, r2)))))"

definition WriteFrame :: "bytes \<Rightarrow> Header \<Rightarrow> bytes \<Rightarrow> bytes" where
  "WriteFrame dst h body =
     dst @ EncodeHeader (h\<lparr>hBodyLen := word_of_nat (length body)\<rparr>) @ body"

section \<open>Reading is independent of how the stream is split\<close>

lemma ReadFull_loop_concat:
  "ReadFull_loop need acc r = (res, r') \<Longrightarrow>
     (need \<le> length (concat r) \<longrightarrow>
        res = Inr (acc @ take need (concat r)) \<and> concat r' = drop need (concat r)) \<and>
     (length (concat r) < need \<longrightarrow>
        res = Inl (if acc @ concat r = [] then EOF else ErrUnexpectedEOF) \<and> concat r' = [])"
proof (induction need acc r arbitrary: res r' rule: ReadFull_loop.induct)
  case (1 need acc)
  then show ?case by (auto split: if_splits)
next
  case (2 need acc c cs)
  show ?case
  proof (cases "need \<noteq> 0 \<and> length c \<le> need")
    case True
    with 2 have "ReadFull_loop (need - length c) (acc @ c) cs = (res, r')" by simp
    from "2.IH" [OF _ _ this] True show ?thesis by auto
  next
    case False
    with "2.prems" show ?thesis by (auto split: if_splits)
  qed
qed

lemma ReadFull_enough:
  assumes "n \<le> length (concat r)"
  obtains r' where "ReadFull n r = (Inr (take n (concat r)), r')" "concat r' = drop n (concat r)"
proof -
  obtain res r' where "ReadFull_loop n [] r = (res, r')" by (cases "ReadFull_loop n [] r")
  with ReadFull_loop_concat [OF this] assms that show ?thesis by (simp add: ReadFull_def)
qed

lemma ReadFull_short:
  assumes "length (concat r) < n"
  obtains r' where "ReadFull n r = (Inl (if concat r = [] then EOF else ErrUnexpectedEOF), r')"
    "concat r' = []"
proof -
  obtain res r' where "ReadFull_loop n [] r = (res, r')" by (cases "ReadFull_loop n [] r")
  with ReadFull_loop_concat [OF this] assms that show ?thesis by (simp add: ReadFull_def)
qed

lemma ReadFull_Inr:
  assumes "ReadFull n r = (Inr b, r')"
  shows "n \<le> length (concat r) \<and> b = take n (concat r) \<and> concat r' = drop n (concat r)"
proof (cases "n \<le> length (concat r)")
  case True
  show ?thesis by (rule ReadFull_enough [OF True]) (use assms True in simp)
next
  case False
  then have "length (concat r) < n" by simp
  then show ?thesis using assms by (elim ReadFull_short) simp
qed

section \<open>Headers\<close>

lemma length_EncodeHeader [simp, codec_len]: "length (EncodeHeader h) = HeaderLen"
  by (simp add: EncodeHeader_def)

lemma EncodeHeader_fields:
  "subslice 0 2 (EncodeHeader h) = PutUint16 Magic"
  "EncodeHeader h ! 2 = hVersion h" "EncodeHeader h ! 3 = hCode h"
  "subslice 4 6 (EncodeHeader h) = PutUint16 (hFlags h)"
  "subslice 6 8 (EncodeHeader h) = PutUint16 (hReserved h)"
  "subslice 8 12 (EncodeHeader h) = PutUint32 (hRequestID h)"
  "subslice 12 16 (EncodeHeader h) = PutUint32 (hBodyLen h)"
  by (simp_all add: EncodeHeader_def subslice_def nth_append)

definition wf_Header :: "Header \<Rightarrow> bool" where
  "wf_Header h \<longleftrightarrow> hVersion h = ProtoVersion \<and> hFlags h AND NOT AllFlags = 0 \<and>
     hReserved h = 0 \<and> unat (hBodyLen h) \<le> MaxFrameLen"

lemma DecodeHeader_EncodeHeader: "wf_Header h \<Longrightarrow> DecodeHeader (EncodeHeader h) = Inr h"
  by (simp add: DecodeHeader_def EncodeHeader_fields wf_Header_def Let_def)

lemma DecodeHeader_Inr:
  assumes "DecodeHeader src = Inr h" "length src = HeaderLen"
  shows "wf_Header h \<and> EncodeHeader h = src"
proof -
  have src: "src = subslice 0 2 src @ [src ! 2, src ! 3] @ subslice 4 6 src @ subslice 6 8 src @
      subslice 8 12 src @ subslice 12 16 src"
    using assms(2) by (auto simp add: subslice_def list_eq_iff_nth_eq nth_append nth_Cons' less_Suc_eq numeral_eq_Suc)
  have h: "h = \<lparr>hVersion = src ! 2, hCode = src ! 3, hFlags = Uint16 (subslice 4 6 src),
      hReserved = Uint16 (subslice 6 8 src), hRequestID = Uint32 (subslice 8 12 src),
      hBodyLen = Uint32 (subslice 12 16 src)\<rparr>"
    and ok: "Uint16 (subslice 0 2 src) = Magic" "src ! 2 = ProtoVersion"
      "Uint16 (subslice 4 6 src) AND NOT AllFlags = 0" "Uint16 (subslice 6 8 src) = 0"
      "unat (Uint32 (subslice 12 16 src)) \<le> MaxFrameLen"
    using assms(1) by (auto simp add: DecodeHeader_def Let_def split: if_splits)
  have "PutUint16 Magic = subslice 0 2 src"
    using ok(1) assms(2) PutUint_le_word(1) [of "subslice 0 2 src"] by simp
  then have "EncodeHeader h = subslice 0 2 src @ [src ! 2, src ! 3] @ subslice 4 6 src @
      subslice 6 8 src @ subslice 8 12 src @ subslice 12 16 src"
    by (simp add: h EncodeHeader_def PutUint_le_word assms(2))
  with src have "EncodeHeader h = src" by simp
  with h ok show ?thesis by (simp add: wf_Header_def)
qed

section \<open>Frames: round trip, exact consumption, bounds\<close>

text \<open>
  A frame written by \<open>WriteFrame\<close> is read back by \<open>ReadFrame\<close> unchanged, however
  the transport splits the byte stream into reads, and the bytes that follow it are left
  for the next call.
\<close>

theorem ReadFrame_WriteFrame:
  assumes "hVersion h = ProtoVersion" "hFlags h AND NOT AllFlags = 0" "hReserved h = 0"
    and "length body \<le> effMaxBody maxBody"
    and "concat r = WriteFrame [] h body @ rest"
  shows "\<exists>r'. ReadFrame r maxBody =
      (\<lparr>fHeader = h\<lparr>hBodyLen := word_of_nat (length body)\<rparr>, fBody = body\<rparr>, None, r') \<and>
    concat r' = rest"
proof -
  let ?h = "h\<lparr>hBodyLen := word_of_nat (length body)\<rparr>"
  have lim: "length body \<le> MaxFrameLen"
    using assms(4) by (simp add: effMaxBody_def split: if_splits)
  then have len: "unat (word_of_nat (length body) :: u32) = length body"
    by simp
  have wf: "wf_Header ?h"
    using assms(1,2,3) lim by (simp add: wf_Header_def len)
  have r: "concat r = EncodeHeader ?h @ body @ rest"
    using assms(5) by (simp add: WriteFrame_def)
  obtain r1 where r1: "ReadFull HeaderLen r = (Inr (EncodeHeader ?h), r1)" "concat r1 = body @ rest"
    by (rule ReadFull_enough [of HeaderLen r]) (simp_all add: r)
  obtain r2 where r2: "ReadFull (length body) r1 = (Inr body, r2)" "concat r2 = rest"
    by (rule ReadFull_enough [of "length body" r1]) (simp_all add: r1)
  show ?thesis
  proof (cases "body = []")
    case True
    with r1 wf show ?thesis
      by (simp add: ReadFrame_def DecodeHeader_EncodeHeader)
  next
    case False
    then have nz: "(word_of_nat (length body) :: u32) \<noteq> 0"
      using len by (metis length_0_conv unat_0)
    with r1 r2 wf assms(4) show ?thesis
      by (simp add: ReadFrame_def DecodeHeader_EncodeHeader len)
  qed
qed

theorem ReadFrame_WriteFrame_witness:
  "\<exists>r'. ReadFrame (map (\<lambda>b. [b]) (WriteFrame [] (zeroHeader\<lparr>hVersion := ProtoVersion, hCode := OpGet, hRequestID := 7\<rparr>) [1, 2, 3] @ [9])) 16 =
      (\<lparr>fHeader = zeroHeader\<lparr>hVersion := ProtoVersion, hCode := OpGet, hRequestID := 7, hBodyLen := 3\<rparr>, fBody = [1, 2, 3]\<rparr>, None, r')
     \<and> concat r' = [9]"
  using ReadFrame_WriteFrame [of "zeroHeader\<lparr>hVersion := ProtoVersion, hCode := OpGet, hRequestID := 7\<rparr>" "[1, 2, 3]" 16
      "map (\<lambda>b. [b]) (WriteFrame [] (zeroHeader\<lparr>hVersion := ProtoVersion, hCode := OpGet, hRequestID := 7\<rparr>) [1, 2, 3] @ [9])" "[9]"]
  by (simp add: zeroHeader_def effMaxBody_def del: map_append)

text \<open>
  A successful \<open>ReadFrame\<close> has consumed exactly the canonical encoding of the frame it
  returns, and the body is within the effective limit, so a forged length field never makes
  it read or hold more than that.
\<close>

theorem ReadFrame_exact:
  assumes "ReadFrame r maxBody = (f, None, r')"
  shows "concat r = EncodeHeader (fHeader f) @ fBody f @ concat r' \<and>
    length (fBody f) = unat (hBodyLen (fHeader f)) \<and> length (fBody f) \<le> effMaxBody maxBody"
proof -
  obtain hb r1 where r1: "ReadFull HeaderLen r = (Inr hb, r1)"
    and rest: "(case DecodeHeader hb of
           Inl e \<Rightarrow> (\<lparr>fHeader = zeroHeader, fBody = []\<rparr>, Some (ProtoErr e), r1)
         | Inr h \<Rightarrow> if unat (hBodyLen h) > effMaxBody maxBody
               then (\<lparr>fHeader = h, fBody = []\<rparr>, Some (ProtoErr ErrFrameTooLarge), r1)
               else if hBodyLen h = 0 then (\<lparr>fHeader = h, fBody = []\<rparr>, None, r1)
               else (case ReadFull (unat (hBodyLen h)) r1 of
                       (Inl e, r2) \<Rightarrow> (\<lparr>fHeader = h, fBody = []\<rparr>,
                          Some (IOErr (if e = EOF then ErrUnexpectedEOF else e)), r2)
                     | (Inr body, r2) \<Rightarrow> (\<lparr>fHeader = h, fBody = body\<rparr>, None, r2)))
        = (f, None, r')"
    using assms by (auto simp add: ReadFrame_def Let_def split: prod.splits sum.splits)
  obtain h where h: "DecodeHeader hb = Inr h"
    using rest by (cases "DecodeHeader hb") auto
  from ReadFull_Inr [OF r1] have hb: "length hb = HeaderLen" "concat r = hb @ concat r1"
    by auto
  from DecodeHeader_Inr [OF h hb(1)] have enc: "EncodeHeader h = hb" by simp
  show ?thesis
  proof (cases "hBodyLen h = 0")
    case True
    with rest h enc hb show ?thesis by (auto split: if_splits)
  next
    case False
    with rest h obtain body r2 where r2: "ReadFull (unat (hBodyLen h)) r1 = (Inr body, r2)"
      and f: "f = \<lparr>fHeader = h, fBody = body\<rparr>" "r' = r2" "unat (hBodyLen h) \<le> effMaxBody maxBody"
      by (auto split: if_splits prod.splits sum.splits)
    from ReadFull_Inr [OF r2] f enc hb show ?thesis by auto
  qed
qed

theorem ReadFrame_exact_witness:
  "ReadFrame [EncodeHeader (zeroHeader\<lparr>hVersion := ProtoVersion, hBodyLen := 1\<rparr>), [5]] 16
      = (\<lparr>fHeader = zeroHeader\<lparr>hVersion := ProtoVersion, hBodyLen := 1\<rparr>, fBody = [5]\<rparr>, None, []) \<and>
   length [5 :: u8] \<le> effMaxBody 16"
proof -
  have r: "ReadFrame [EncodeHeader (zeroHeader\<lparr>hVersion := ProtoVersion, hBodyLen := 1\<rparr>), [5]] 16
      = (\<lparr>fHeader = zeroHeader\<lparr>hVersion := ProtoVersion, hBodyLen := 1\<rparr>, fBody = [5]\<rparr>, None, [])"
    by (simp add: ReadFrame_def ReadFull_def DecodeHeader_EncodeHeader wf_Header_def zeroHeader_def effMaxBody_def)
  then show ?thesis using ReadFrame_exact [OF r] by simp
qed

text \<open>
  \<open>WriteFull\<close> with a writer that keeps the contract of \<^verbatim>\<open>io.Writer\<close> (it never reports
  more bytes than it was given, and what it reports has been appended to the output)
  reports success only when the whole buffer has been written, in order.
\<close>

theorem WriteFull_complete:
  assumes "\<And>w p n e w'. wr w p = (n, e, w') \<Longrightarrow> n \<le> length p \<and> out w' = out w @ take n p"
    and "WriteFull wr w p = (None, w')"
  shows "out w' = out w @ p"
  using assms
proof (induction wr w p arbitrary: w' rule: WriteFull.induct)
  case (1 wr w p)
  show ?case
  proof (cases "p = []")
    case True
    with "1.prems"(2) show ?thesis by (simp add: WriteFull.simps)
  next
    case False
    obtain n e w1 where w1: "wr w p = (n, e, w1)" by (cases "wr w p")
    with "1.prems"(2) False have ok: "e = None" "n \<noteq> 0"
      and rec: "WriteFull wr w1 (drop n p) = (None, w')"
      by (auto simp add: WriteFull.simps [of wr w p] split: option.splits if_splits)
    have "out w' = out w1 @ drop n p"
      by (rule "1.IH" [OF False w1 [symmetric] refl ok]) (use "1.prems"(1) rec in auto)
    with "1.prems"(1) [OF w1] show ?thesis by simp
  qed
qed

theorem WriteFull_complete_witness:
  "WriteFull (\<lambda>w p. (min 2 (length p), None, w @ take (min 2 (length p)) p)) [1] [2, 3, 4 :: u8] = (None, [1, 2, 3, 4])"
proof -
  have r: "WriteFull (\<lambda>w p. (min 2 (length p), None, w @ take (min 2 (length p)) p)) [1] [2, 3, 4 :: u8] = (None, [1, 2, 3, 4])"
    by (simp add: WriteFull.simps)
  have "(\<lambda>w. w) [1, 2, 3, 4] = (\<lambda>w. w) [1] @ [2, 3, 4 :: u8]"
    by (rule WriteFull_complete [OF _ r]) auto
  with r show ?thesis by blast
qed

end
