(* ===== verification/Crc.thy ===== *)
theory Crc
  imports Prelude
begin

text \<open>
  CRC-32C, the checksum of log records and snapshots (\<^verbatim>\<open>crc32.Checksum\<close> with the Castagnoli
  table): the reflected polynomial \<open>0x82F63B78\<close>, processed bit by bit, starting from and
  finishing with a complement. The state update is a bijection for every input byte, so two inputs of
  equal length that differ in one byte never have the same checksum.
\<close>

definition crc_bit :: "u32 \<Rightarrow> u32" where
  "crc_bit c = (if bit c 0 then drop_bit 1 c XOR 0x82F63B78 else drop_bit 1 c)"

definition crc_byte :: "u8 \<Rightarrow> u32 \<Rightarrow> u32" where
  "crc_byte b c = (crc_bit ^^ 8) (c XOR ucast b)"

definition crc_update :: "bytes \<Rightarrow> u32 \<Rightarrow> u32" where
  "crc_update bs c = NOT (fold crc_byte bs (NOT c))"

definition crc_Checksum :: "bytes \<Rightarrow> u32" where
  "crc_Checksum bs = crc_update bs 0"

lemma crc_update_append: "crc_update (xs @ ys) c = crc_update ys (crc_update xs c)"
  by (simp add: crc_update_def)

lemma crc_update_Nil [simp]: "crc_update [] c = c"
  by (simp add: crc_update_def)

text \<open>The bit that is shifted out can be read off the top bit of the result.\<close>

lemma crc_bit_top: "bit (crc_bit c) 31 \<longleftrightarrow> bit c 0"
  by (auto simp add: crc_bit_def bit_simps bit_drop_bit_eq dest: bit_imp_le_length)

lemma crc_bit_inj: "inj crc_bit"
proof (rule injI)
  fix c d :: u32
  assume eq: "crc_bit c = crc_bit d"
  then have b0: "bit c 0 \<longleftrightarrow> bit d 0" using crc_bit_top by metis
  have "drop_bit 1 c = drop_bit 1 d"
  proof (cases "bit c 0")
    case True
    then have "drop_bit 1 c XOR 0x82F63B78 = drop_bit 1 d XOR (0x82F63B78 :: u32)" using eq b0 by (simp add: crc_bit_def)
    then have "(drop_bit 1 c XOR 0x82F63B78) XOR 0x82F63B78 = (drop_bit 1 d XOR 0x82F63B78) XOR (0x82F63B78 :: u32)" by simp
    then show ?thesis by (simp only: xor.assoc xor_self_eq xor.right_neutral)
  next
    case False
    then show ?thesis using eq b0 by (simp add: crc_bit_def)
  qed
  then have "bit c (Suc i) = bit d (Suc i)" for i
    using bit_drop_bit_eq [of 1 c] bit_drop_bit_eq [of 1 d] by (metis comp_apply plus_1_eq_Suc)
  then have "bit c n = bit d n" for n using b0 by (cases n) auto
  then show "c = d" by (rule bit_word_eqI)
qed

lemma crc_byte_state_inj: "crc_byte b c = crc_byte b d \<Longrightarrow> c = d"
proof -
  assume "crc_byte b c = crc_byte b d"
  then have "c XOR ucast b = d XOR ucast b"
    unfolding crc_byte_def using inj_fn [OF crc_bit_inj, of 8] by (auto dest: injD)
  then have "(c XOR ucast b) XOR ucast b = (d XOR ucast b) XOR ucast b" by simp
  then show "c = d" by (simp only: xor.assoc xor_self_eq xor.right_neutral)
qed

lemma crc_byte_input_inj: "crc_byte a c = crc_byte b c \<Longrightarrow> a = b"
proof -
  assume "crc_byte a c = crc_byte b c"
  then have "c XOR ucast a = c XOR ucast b"
    unfolding crc_byte_def using inj_fn [OF crc_bit_inj, of 8] by (auto dest: injD)
  then have "c XOR (c XOR ucast a) = c XOR (c XOR ucast b)" by simp
  then have "(ucast a :: u32) = ucast b" by (simp only: xor.assoc [symmetric] xor_self_eq xor.left_neutral)
  then have e: "bit (ucast a :: u32) i = bit (ucast b :: u32) i" for i by simp
  show "a = b"
  proof (rule bit_word_eqI)
    fix i assume "i < LENGTH(8)"
    then show "bit a i = bit b i" using e [of i] by (simp add: bit_simps)
  qed
qed

lemma fold_crc_inj: "fold crc_byte bs c = fold crc_byte bs d \<Longrightarrow> c = d"
  by (induction bs arbitrary: c d) (auto dest: crc_byte_state_inj)

text \<open>Changing one byte changes the checksum.\<close>

lemma crc_Checksum_flip:
  assumes "a \<noteq> b"
  shows "crc_Checksum (xs @ a # ys) \<noteq> crc_Checksum (xs @ b # ys)"
  using assms fold_crc_inj crc_byte_input_inj
  by (fastforce simp: crc_Checksum_def crc_update_def)

lemma crc_Checksum_update_flip:
  assumes "i < length bs" "bs ! i \<noteq> b"
  shows "crc_Checksum (bs[i := b]) \<noteq> crc_Checksum bs"
  using crc_Checksum_flip [OF assms(2) [symmetric], of "take i bs" "drop (Suc i) bs"]
    id_take_nth_drop [OF assms(1)] upd_conv_take_nth_drop [OF assms(1), of b] by simp

end
