(* ===== verification/Wal_Record.thy ===== *)
theory Wal_Record
  imports Crc
begin

text \<open>
  \<^verbatim>\<open>internal/wal/record.go\<close>: the on-disk format of log records. Decoding inverts encoding, accepts
  only encodings, and refuses a record with a damaged payload byte.
\<close>

section \<open>Records\<close>

abbreviation recHeaderLen :: nat where "recHeaderLen \<equiv> 8"
abbreviation payloadHeaderLen :: nat where "payloadHeaderLen \<equiv> 32"
abbreviation MaxRecordLen :: nat where "MaxRecordLen \<equiv> 32 + 65536 + 16777216 + 64"
abbreviation maxKeyLen :: nat where "maxKeyLen \<equiv> 65535"
abbreviation maxValLen :: nat where "maxValLen \<equiv> 16777216"

abbreviation RecSet :: u8 where "RecSet \<equiv> 1"
abbreviation RecDelete :: u8 where "RecDelete \<equiv> 2"
abbreviation RecExpire :: u8 where "RecExpire \<equiv> 3"
abbreviation RecSegmentHdr :: u8 where "RecSegmentHdr \<equiv> 4"

definition rectype_Valid :: "u8 \<Rightarrow> bool" where
  "rectype_Valid t \<longleftrightarrow> RecSet \<le> t \<and> t \<le> RecSegmentHdr"

record Record =
  rLSN :: u64
  rCreatedAtMs :: u64
  rType :: u8
  rFlags :: u8
  rKey :: bytes
  rValue :: bytes
  rExpireAtMs :: u64

definition EncodedLen :: "Record \<Rightarrow> nat" where
  "EncodedLen r = recHeaderLen + payloadHeaderLen + length (rKey r) + length (rValue r)"

datatype wal_error =
    ErrShortRecord
  | ErrLengthTooBig nat
  | ErrTornTail
  | ErrBadCRC
  | ErrBadPayload
  | ErrBadRecordType u8
  | ErrNotSegmentHdr u8
  | ErrBadMagic bytes
  | ErrHeaderValueLen nat
  | ErrFormatVersion u32
  | ErrNoSegmentHdr

definition payload_of :: "Record \<Rightarrow> bytes" where
  "payload_of r = PutUint64 (rLSN r) @ PutUint64 (rCreatedAtMs r) @ [rType r, rFlags r]
     @ PutUint16 (word_of_nat (length (rKey r))) @ PutUint32 (word_of_nat (length (rValue r)))
     @ PutUint64 (rExpireAtMs r) @ rKey r @ rValue r"

definition AppendRecord :: "bytes \<Rightarrow> Record \<Rightarrow> bytes" where
  "AppendRecord dst r =
     (let payloadLen = payloadHeaderLen + length (rKey r) + length (rValue r);
          payload = payload_of r;
          crc = crc_Checksum (take payloadLen payload)
      in dst @ PutUint32 crc @ PutUint32 (word_of_nat payloadLen) @ payload)"

definition DecodeRecord :: "bytes \<Rightarrow> int \<Rightarrow> wal_error + (Record \<times> nat)" where
  "DecodeRecord buf fileRemaining =
     (if length buf < recHeaderLen then Inl ErrShortRecord
      else let crc = Uint32 (subslice 0 4 buf);
               len = unat (Uint32 (subslice 4 8 buf))
           in if len > MaxRecordLen then Inl (ErrLengthTooBig len)
      else let tot = recHeaderLen + len
           in if int tot > fileRemaining then Inl ErrTornTail
      else if length buf < tot then Inl ErrTornTail
      else let payload = subslice recHeaderLen tot buf
           in if crc_Checksum payload \<noteq> crc then Inl ErrBadCRC
      else if length payload < payloadHeaderLen then Inl ErrBadPayload
      else let lsn = Uint64 (subslice 0 8 payload);
               created = Uint64 (subslice 8 16 payload);
               typ = payload ! 16;
               flags = payload ! 17;
               keyLen = unat (Uint16 (subslice 18 20 payload));
               valLen = unat (Uint32 (subslice 20 24 payload));
               expireAt = Uint64 (subslice 24 32 payload)
           in if valLen > maxValLen \<or> keyLen > maxKeyLen then Inl ErrBadPayload
      else if payloadHeaderLen + keyLen + valLen \<noteq> length payload then Inl ErrBadPayload
      else if \<not> rectype_Valid typ then Inl (ErrBadRecordType typ)
      else Inr (\<lparr>rLSN = lsn, rCreatedAtMs = created, rType = typ, rFlags = flags,
                 rKey = subslice payloadHeaderLen (payloadHeaderLen + keyLen) payload,
                 rValue = subslice (payloadHeaderLen + keyLen) (payloadHeaderLen + keyLen + valLen) payload,
                 rExpireAtMs = expireAt\<rparr>, tot))"

definition segmentMagic :: bytes where
  "segmentMagic = [75, 86, 87, 65, 76, 83, 69, 71]"

abbreviation segmentFormatVersion :: u32 where "segmentFormatVersion \<equiv> 1"

definition newSegmentHeader :: "u64 \<Rightarrow> u64 \<Rightarrow> Record" where
  "newSegmentHeader firstLSN nowMs =
     \<lparr>rLSN = firstLSN, rCreatedAtMs = nowMs, rType = RecSegmentHdr, rFlags = 0, rKey = segmentMagic,
      rValue = PutUint32 segmentFormatVersion, rExpireAtMs = 0\<rparr>"

definition parseSegmentHeader :: "Record \<Rightarrow> wal_error + u32" where
  "parseSegmentHeader r =
     (if rType r \<noteq> RecSegmentHdr then Inl (ErrNotSegmentHdr (rType r))
      else if rKey r \<noteq> segmentMagic then Inl (ErrBadMagic (rKey r))
      else if length (rValue r) \<noteq> 4 then Inl (ErrHeaderValueLen (length (rValue r)))
      else let v = Uint32 (rValue r)
           in if v \<noteq> segmentFormatVersion then Inl (ErrFormatVersion v) else Inr v)"

section \<open>Round trip\<close>

definition wf_record :: "Record \<Rightarrow> bool" where
  "wf_record r \<longleftrightarrow> rectype_Valid (rType r) \<and> length (rKey r) \<le> maxKeyLen \<and> length (rValue r) \<le> maxValLen"

lemma length_payload_of [simp]: "length (payload_of r) = payloadHeaderLen + length (rKey r) + length (rValue r)"
  by (simp add: payload_of_def)

lemma length_AppendRecord [simp]: "length (AppendRecord dst r) = length dst + EncodedLen r"
  by (simp add: AppendRecord_def Let_def EncodedLen_def)

lemma AppendRecord_append: "AppendRecord dst r = dst @ AppendRecord [] r"
  by (simp add: AppendRecord_def Let_def)

lemma AppendRecord_Nil:
  "AppendRecord [] r = PutUint32 (crc_Checksum (payload_of r)) @ PutUint32 (word_of_nat (length (payload_of r))) @ payload_of r"
  by (simp add: AppendRecord_def Let_def)

lemma payload_fields:
  "subslice 0 8 (payload_of r) = PutUint64 (rLSN r)" "subslice 8 16 (payload_of r) = PutUint64 (rCreatedAtMs r)"
  "payload_of r ! 16 = rType r" "payload_of r ! 17 = rFlags r"
  "subslice 18 20 (payload_of r) = PutUint16 (word_of_nat (length (rKey r)))"
  "subslice 20 24 (payload_of r) = PutUint32 (word_of_nat (length (rValue r)))"
  "subslice 24 32 (payload_of r) = PutUint64 (rExpireAtMs r)"
  "subslice 32 (32 + length (rKey r)) (payload_of r) = rKey r"
  "subslice (32 + length (rKey r)) (32 + length (rKey r) + length (rValue r)) (payload_of r) = rValue r"
proof -
  define h where "h = PutUint64 (rLSN r) @ PutUint64 (rCreatedAtMs r) @ [rType r, rFlags r]
     @ PutUint16 (word_of_nat (length (rKey r))) @ PutUint32 (word_of_nat (length (rValue r))) @ PutUint64 (rExpireAtMs r)"
  have p: "payload_of r = h @ rKey r @ rValue r" "length h = 32" by (simp_all add: payload_of_def h_def)
  show "subslice (32 + length (rKey r)) (32 + length (rKey r) + length (rValue r)) (payload_of r) = rValue r"
    by (simp add: p subslice_def)
qed (simp_all add: payload_of_def subslice_def nth_append)

lemma wf_record_len:
  assumes "wf_record r"
  shows "length (payload_of r) \<le> MaxRecordLen" "unat (word_of_nat (length (payload_of r)) :: u32) = length (payload_of r)"
    "unat (word_of_nat (length (rKey r)) :: u16) = length (rKey r)" "unat (word_of_nat (length (rValue r)) :: u32) = length (rValue r)"
proof -
  show l: "length (payload_of r) \<le> MaxRecordLen" using assms by (simp add: wf_record_def)
  then have "length (payload_of r) < 2 ^ 32" by simp
  then show "unat (word_of_nat (length (payload_of r)) :: u32) = length (payload_of r)" by (rule unat_len32)
  have "length (rKey r) < 2 ^ 16" "length (rValue r) < 2 ^ 32" using assms by (auto simp: wf_record_def)
  then show "unat (word_of_nat (length (rKey r)) :: u16) = length (rKey r)" "unat (word_of_nat (length (rValue r)) :: u32) = length (rValue r)"
    by simp_all
qed

lemma AppendRecord_slices:
  fixes rest :: bytes
  assumes "wf_record r"
  defines "buf \<equiv> AppendRecord [] r @ rest"
  shows "subslice 0 4 buf = PutUint32 (crc_Checksum (payload_of r))"
    "subslice 4 8 buf = PutUint32 (word_of_nat (length (payload_of r)))"
    "subslice 8 (8 + length (payload_of r)) buf = payload_of r"
    "length buf = 8 + length (payload_of r) + length rest"
  unfolding buf_def AppendRecord_Nil by (simp_all add: subslice_def)

lemma DecodeRecord_Append:
  assumes "wf_record r" "int (EncodedLen r) \<le> rem"
  shows "DecodeRecord (AppendRecord [] r @ rest) rem = Inr (r, EncodedLen r)"
proof -
  define n where "n = length (payload_of r)"
  define buf where "buf = AppendRecord [] r @ rest"
  note A = AppendRecord_slices [OF assms(1), of rest, folded n_def buf_def]
  note L = wf_record_len [OF assms(1), folded n_def]
  have e: "EncodedLen r = 8 + n" "32 + length (rKey r) + length (rValue r) = n" by (simp_all add: EncodedLen_def n_def)
  have k: "length (rValue r) \<le> maxValLen" "length (rKey r) \<le> maxKeyLen" "rectype_Valid (rType r)" "32 \<le> n"
    using assms(1) by (auto simp: wf_record_def n_def)
  have s: "unat (Uint32 (subslice 4 8 buf)) = n" "Uint32 (subslice 0 4 buf) = crc_Checksum (payload_of r)"
    by (simp_all add: A L)
  have v: "unat (Uint16 (subslice 18 20 (payload_of r))) = length (rKey r)" "unat (Uint32 (subslice 20 24 (payload_of r))) = length (rValue r)"
    by (simp_all only: payload_fields) (simp_all add: L)
  show ?thesis
    unfolding DecodeRecord_def buf_def [symmetric] A(4) s Let_def A(3) v n_def [symmetric] e(2)
    using assms(2) L(1) k e(1) by (simp add: payload_fields payload_fields(9) [of r, unfolded e(2)])
qed

lemma DecodeRecord_Inr:
  assumes "DecodeRecord buf rem = Inr (r, n)"
  shows "n = EncodedLen r" "take n buf = AppendRecord [] r" "wf_record r" "int n \<le> rem" "n \<le> length buf"
proof -
  define len where "len = unat (Uint32 (subslice 4 8 buf))"
  define p where "p = subslice 8 (8 + len) buf"
  define kl where "kl = unat (Uint16 (subslice 18 20 p))"
  define vl where "vl = unat (Uint32 (subslice 20 24 p))"
  have c: "\<not> length buf < 8" "len \<le> MaxRecordLen" "int (8 + len) \<le> rem" "8 + len \<le> length buf"
    "crc_Checksum p = Uint32 (subslice 0 4 buf)" "32 \<le> length p" "vl \<le> maxValLen" "kl \<le> maxKeyLen" "32 + kl + vl = length p"
    "rectype_Valid (p ! 16)"
    and r: "r = \<lparr>rLSN = Uint64 (subslice 0 8 p), rCreatedAtMs = Uint64 (subslice 8 16 p), rType = p ! 16, rFlags = p ! 17,
        rKey = subslice 32 (32 + kl) p, rValue = subslice (32 + kl) (32 + kl + vl) p, rExpireAtMs = Uint64 (subslice 24 32 p)\<rparr>"
    and n: "n = 8 + len"
    using assms unfolding DecodeRecord_def Let_def len_def [symmetric] p_def [symmetric] kl_def [symmetric] vl_def [symmetric]
    by (auto split: if_splits)
  have lp: "length p = len" using c(4) by (simp add: p_def)
  have lk: "length (rKey r) = kl" "length (rValue r) = vl" using c(9) by (simp_all add: r)
  have kw: "(word_of_nat kl :: u16) = Uint16 (subslice 18 20 p)" "(word_of_nat vl :: u32) = Uint32 (subslice 20 24 p)"
    by (simp_all add: kl_def vl_def)
  have "payload_of r = subslice 0 8 p @ subslice 8 16 p @ [p ! 16, p ! 17] @ subslice 18 20 p @ subslice 20 24 p @ subslice 24 32 p
      @ subslice 32 (32 + kl) p @ subslice (32 + kl) (32 + kl + vl) p"
    unfolding payload_of_def lk kw using c(6) by (simp add: r PutUint_le_word)
  also have "\<dots> = p"
  proof -
    have s: "subslice a b p @ subslice b c p = subslice a c p" if "a \<le> b" "b \<le> c" for a b c
      using that take_add [of "b - a" "c - b" "drop a p"] by (simp add: subslice_def add.commute)
    have s2: "[p ! 16, p ! 17] = subslice 16 18 p"
      using c(6) by (auto simp: subslice_def take_Suc_conv_app_nth numeral_eq_Suc nth_append Cons_nth_drop_Suc [symmetric])
    show ?thesis unfolding s2 using c(9) by (simp add: s) (simp add: subslice_def)
  qed
  finally have pay: "payload_of r = p" .
  have w: "wf_record r" using c lk by (simp add: wf_record_def r)
  have "PutUint32 (word_of_nat len) = subslice 4 8 buf" using c(1) by (simp add: len_def PutUint_le_word)
  moreover have "PutUint32 (crc_Checksum p) = subslice 0 4 buf" using c(1) by (simp add: c(5) PutUint_le_word)
  ultimately have "AppendRecord [] r = subslice 0 4 buf @ subslice 4 8 buf @ p"
    unfolding AppendRecord_Nil pay lp by simp
  also have "\<dots> = take n buf"
    using take_add [of 4 4 buf] take_add [of 8 len buf] by (simp add: subslice_def p_def n)
  finally show "take n buf = AppendRecord [] r" by simp
  show "n = EncodedLen r" using c(9) lk lp n by (simp add: EncodedLen_def)
  show "wf_record r" by (rule w)
  show "int n \<le> rem" "n \<le> length buf" using c n by simp_all
qed

text \<open>
  C34. Decoding a log record succeeds with record \<open>r\<close> and size \<open>n\<close> exactly when the buffer starts
  with the \<open>n\<close>-byte encoding of \<open>r\<close>, \<open>r\<close> is a legal record and the file has \<open>n\<close> bytes left: every legal
  record is read back, and nothing that was not written by the encoder is accepted.
\<close>

theorem DecodeRecord_exact:
  "DecodeRecord buf rem = Inr (r, n) \<longleftrightarrow>
     wf_record r \<and> n = EncodedLen r \<and> take n buf = AppendRecord [] r \<and> int n \<le> rem"
proof
  assume "DecodeRecord buf rem = Inr (r, n)"
  from DecodeRecord_Inr [OF this] show "wf_record r \<and> n = EncodedLen r \<and> take n buf = AppendRecord [] r \<and> int n \<le> rem" by simp
next
  assume a: "wf_record r \<and> n = EncodedLen r \<and> take n buf = AppendRecord [] r \<and> int n \<le> rem"
  then have "buf = AppendRecord [] r @ drop n buf" using append_take_drop_id [of n buf] by metis
  then show "DecodeRecord buf rem = Inr (r, n)" using DecodeRecord_Append [of r rem "drop n buf"] a by simp
qed

lemma damaged_payload:
  assumes "wf_record r" "int (EncodedLen r) \<le> rem" "recHeaderLen \<le> i" "i < EncodedLen r" "AppendRecord [] r ! i \<noteq> b"
  shows "DecodeRecord ((AppendRecord [] r)[i := b] @ rest) rem = Inl ErrBadCRC"
proof -
  define n where "n = length (payload_of r)"
  define p where "p = (payload_of r)[i - 8 := b]"
  have i: "i = 8 + (i - 8)" "i - 8 < n" using assms(3,4) by (simp_all add: EncodedLen_def n_def)
  have hd: "length (PutUint32 c @ PutUint32 d) = 8" for c d by simp
  have buf: "(AppendRecord [] r)[i := b] = PutUint32 (crc_Checksum (payload_of r)) @ PutUint32 (word_of_nat n) @ p"
    unfolding AppendRecord_Nil p_def n_def [symmetric] append.assoc [symmetric]
    by (subst list_update_append) (use assms(3) in simp)
  have "AppendRecord [] r ! i = payload_of r ! (i - 8)"
    unfolding AppendRecord_Nil append.assoc [symmetric] by (subst nth_append) (use assms(3) in simp)
  then have crc: "crc_Checksum p \<noteq> crc_Checksum (payload_of r)"
    unfolding p_def using crc_Checksum_update_flip [of "i - 8" "payload_of r" b] assms(5) i(2) by (simp add: n_def)
  note L = wf_record_len [OF assms(1), folded n_def]
  have lp: "length p = n" by (simp add: p_def n_def)
  define buf2 where "buf2 = (AppendRecord [] r)[i := b] @ rest"
  have s: "Uint32 (subslice 0 4 buf2) = crc_Checksum (payload_of r)" "unat (Uint32 (subslice 4 8 buf2)) = n"
    "subslice 8 (8 + n) buf2 = p" "length buf2 = 8 + n + length rest"
    unfolding buf2_def buf by (simp_all add: subslice_def lp L(2))
  have "int (8 + n) \<le> rem" using assms(2) by (simp add: EncodedLen_def n_def)
  then show ?thesis
    unfolding buf2_def [symmetric] DecodeRecord_def s Let_def using crc L(1) by simp
qed

text \<open>
  A record one of whose payload bytes has been damaged is never decoded: the checksum of a
  payload that differs in one byte is different.
\<close>

theorem DecodeRecord_detects_damage:
  assumes "wf_record r" "int (EncodedLen r) \<le> rem" "recHeaderLen \<le> i" "i < EncodedLen r" "AppendRecord [] r ! i \<noteq> b"
  shows "DecodeRecord ((AppendRecord [] r)[i := b] @ rest) rem = Inl ErrBadCRC"
  by (rule damaged_payload [OF assms])

definition sample_record :: Record where
  "sample_record = \<lparr>rLSN = 7, rCreatedAtMs = 9, rType = RecSet, rFlags = 0, rKey = [1, 2], rValue = [3], rExpireAtMs = 0\<rparr>"

lemma sample_record_wf: "wf_record sample_record"
  by (simp add: sample_record_def wf_record_def rectype_Valid_def)

theorem DecodeRecord_detects_damage_witness:
  "DecodeRecord ((AppendRecord [] sample_record)[42 := 4] @ [5]) 100 = Inl ErrBadCRC"
proof -
  have "AppendRecord [] sample_record ! 42 \<noteq> 4"
    by (simp add: AppendRecord_Nil payload_of_def sample_record_def nth_append)
  then show ?thesis
    using DecodeRecord_detects_damage [OF sample_record_wf, of 100 42 4 "[5]"] by (simp add: EncodedLen_def sample_record_def)
qed

end
