(* ===== verification/Repl_Stream.thy ===== *)
theory Repl_Stream
  imports Wire_Frame Wal_Record
begin

text \<open>
  \<^verbatim>\<open>internal/cluster/stream.go\<close>: the messages of the replication stream. A message is a type byte and a
  payload that delimits itself. The reader is a list of chunks, as for the client protocol.
\<close>

section \<open>Messages\<close>

abbreviation msgRecord :: u8 where "msgRecord \<equiv> 1"
abbreviation msgHeartbeat :: u8 where "msgHeartbeat \<equiv> 2"
abbreviation msgFullBegin :: u8 where "msgFullBegin \<equiv> 3"
abbreviation msgFullEnd :: u8 where "msgFullEnd \<equiv> 4"
abbreviation msgAck :: u8 where "msgAck \<equiv> 5"
abbreviation msgReject :: u8 where "msgReject \<equiv> 6"

definition msgType_String :: "u8 \<Rightarrow> string" where
  "msgType_String m =
     (if m = msgRecord then ''RECORD'' else if m = msgHeartbeat then ''HEARTBEAT'' else if m = msgFullBegin then ''FULL_BEGIN''
      else if m = msgFullEnd then ''FULL_END'' else if m = msgAck then ''ACK'' else if m = msgReject then ''REJECT'' else ''UNKNOWN'')"

abbreviation maxStreamPayload :: nat where "maxStreamPayload \<equiv> MaxRecordLen + 64"

definition writeRecord :: "Record \<Rightarrow> bytes" where
  "writeRecord rec = AppendRecord [msgRecord] rec"

definition writeHeartbeat :: "u64 \<Rightarrow> u64 \<Rightarrow> bytes" where
  "writeHeartbeat lsn epoch = [msgHeartbeat] @ PutUint64 lsn @ PutUint64 epoch"

definition writeLSNMsg :: "u8 \<Rightarrow> u64 \<Rightarrow> bytes" where
  "writeLSNMsg t lsn = [t] @ PutUint64 lsn"

definition writeReject :: "bytes \<Rightarrow> bytes" where
  "writeReject reason =
     (let reason = (if length reason > 1024 then take 1024 reason else reason)
      in [msgReject] @ PutUint16 (word_of_nat (length reason)) @ reason)"

record streamMsg =
  smType :: u8
  smRecord :: Record
  smLSN :: u64
  smEpoch :: u64
  smReason :: bytes

definition zeroRecord :: Record where
  "zeroRecord = \<lparr>rLSN = 0, rCreatedAtMs = 0, rType = 0, rFlags = 0, rKey = [], rValue = [], rExpireAtMs = 0\<rparr>"

definition newMsg :: "u8 \<Rightarrow> streamMsg" where
  "newMsg t = \<lparr>smType = t, smRecord = zeroRecord, smLSN = 0, smEpoch = 0, smReason = []\<rparr>"

datatype stream_error = StreamIO io_error | StreamTooLong nat | StreamRecord wal_error | StreamUnknown u8

definition readMsg :: "bytes list \<Rightarrow> (stream_error + streamMsg) \<times> bytes list" where
  "readMsg r =
     (case ReadFull 1 r of
        (Inl e, r) \<Rightarrow> (Inl (StreamIO e), r)
      | (Inr t, r) \<Rightarrow>
          (let m = newMsg (t ! 0)
           in if smType m = msgRecord then
                (case ReadFull 8 r of
                   (Inl e, r) \<Rightarrow> (Inl (StreamIO e), r)
                 | (Inr hdr, r) \<Rightarrow>
                     (let len = unat (Uint32 (subslice 4 8 hdr))
                      in if len > maxStreamPayload then (Inl (StreamTooLong len), r)
                         else let tot = 8 + len
                         in case ReadFull len r of
                              (Inl e, r) \<Rightarrow> (Inl (StreamIO e), r)
                            | (Inr rest, r) \<Rightarrow>
                                (case DecodeRecord (hdr @ rest) (int tot) of
                                   Inl e \<Rightarrow> (Inl (StreamRecord e), r)
                                 | Inr (rec, _) \<Rightarrow> (Inr (m\<lparr>smRecord := rec\<rparr>), r))))
              else if smType m = msgHeartbeat then
                (case ReadFull 16 r of
                   (Inl e, r) \<Rightarrow> (Inl (StreamIO e), r)
                 | (Inr b, r) \<Rightarrow> (Inr (m\<lparr>smLSN := Uint64 (subslice 0 8 b), smEpoch := Uint64 (subslice 8 16 b)\<rparr>), r))
              else if smType m \<in> {msgFullBegin, msgFullEnd, msgAck} then
                (case ReadFull 8 r of
                   (Inl e, r) \<Rightarrow> (Inl (StreamIO e), r)
                 | (Inr b, r) \<Rightarrow> (Inr (m\<lparr>smLSN := Uint64 b\<rparr>), r))
              else if smType m = msgReject then
                (case ReadFull 2 r of
                   (Inl e, r) \<Rightarrow> (Inl (StreamIO e), r)
                 | (Inr b, r) \<Rightarrow>
                     (case ReadFull (unat (Uint16 b)) r of
                        (Inl e, r) \<Rightarrow> (Inl (StreamIO e), r)
                      | (Inr reason, r) \<Rightarrow> (Inr (m\<lparr>smReason := reason\<rparr>), r)))
              else (Inl (StreamUnknown (t ! 0)), r)))"

section \<open>Round trip\<close>

text \<open>What the sender writes for a message; the fields that a message of its type does not carry are zero.\<close>

definition writeMsg :: "streamMsg \<Rightarrow> bytes" where
  "writeMsg m =
     (if smType m = msgRecord then writeRecord (smRecord m)
      else if smType m = msgHeartbeat then writeHeartbeat (smLSN m) (smEpoch m)
      else if smType m = msgReject then writeReject (smReason m)
      else writeLSNMsg (smType m) (smLSN m))"

definition wf_msg :: "streamMsg \<Rightarrow> bool" where
  "wf_msg m \<longleftrightarrow> (\<exists>r. wf_record r \<and> m = (newMsg msgRecord)\<lparr>smRecord := r\<rparr>) \<or> (\<exists>l e. m = (newMsg msgHeartbeat)\<lparr>smLSN := l, smEpoch := e\<rparr>)
     \<or> (\<exists>t l. t \<in> {msgFullBegin, msgFullEnd, msgAck} \<and> m = (newMsg t)\<lparr>smLSN := l\<rparr>)
     \<or> (\<exists>b. length b \<le> 1024 \<and> m = (newMsg msgReject)\<lparr>smReason := b\<rparr>)"

lemma read_step:
  assumes "concat r = b @ rest" "length b = n"
  obtains r' where "ReadFull n r = (Inr b, r')" "concat r' = rest"
proof -
  have "n \<le> length (concat r)" using assms by simp
  then obtain r' where "ReadFull n r = (Inr (take n (concat r)), r')" "concat r' = drop n (concat r)" by (rule ReadFull_enough)
  then show ?thesis using that [of r'] assms by simp
qed

lemma writeRecord_eq: "writeRecord r = [msgRecord] @ AppendRecord [] r"
  by (simp add: writeRecord_def AppendRecord_def Let_def)

lemma readMsg_Record:
  assumes "wf_record r" "concat c = writeRecord r @ rest"
  shows "\<exists>c'. readMsg c = (Inr ((newMsg msgRecord)\<lparr>smRecord := r\<rparr>), c') \<and> concat c' = rest"
proof -
  define b where "b = AppendRecord [] r"
  define n where "n = length (payload_of r)"
  have e: "length b = 8 + n" "EncodedLen r = 8 + n" by (simp_all add: b_def EncodedLen_def n_def)
  have n: "n \<le> maxStreamPayload" "unat (word_of_nat n :: u32) = n"
    using assms(1) wf_record_len [OF assms(1)] by (simp_all add: n_def wf_record_def)
  obtain c1 where c1: "ReadFull 1 c = (Inr [msgRecord], c1)" "concat c1 = b @ rest"
    using read_step [of c "[msgRecord]" "b @ rest" 1] assms(2) by (auto simp: writeRecord_eq b_def)
  have "concat c1 = take 8 b @ (drop 8 b @ rest)" by (metis c1(2) append_assoc append_take_drop_id)
  then obtain c2 where c2: "ReadFull 8 c1 = (Inr (take 8 b), c2)" "concat c2 = drop 8 b @ rest"
    by (rule read_step) (simp add: e)
  have "subslice 4 8 (take 8 b) = subslice 4 8 (b @ [])" by (simp add: subslice_def drop_take)
  also have "\<dots> = PutUint32 (word_of_nat n)" unfolding b_def n_def by (rule AppendRecord_slices [OF assms(1)])
  finally have h: "unat (Uint32 (subslice 4 8 (take 8 b))) = n" using n(2) by simp
  obtain c3 where c3: "ReadFull n c2 = (Inr (drop 8 b), c3)" "concat c3 = rest"
    by (rule read_step [OF c2(2)]) (simp add: e)
  have d: "DecodeRecord (take 8 b @ drop 8 b) (int (8 + n)) = Inr (r, 8 + n)"
    using DecodeRecord_Append [OF assms(1), of "int (8 + n)" "[]"] e(2) by (simp add: b_def)
  have "readMsg c = (Inr ((newMsg msgRecord)\<lparr>smRecord := r\<rparr>), c3)"
    unfolding readMsg_def c1(1) prod.case sum.case c2(1) Let_def nth_Cons_0 newMsg_def streamMsg.simps if_True simp_thms h c3(1) d
    using n(1) by simp
  then show ?thesis using c3(2) by blast
qed

lemma readMsg_Heartbeat:
  assumes "concat c = writeHeartbeat l e @ rest"
  shows "\<exists>c'. readMsg c = (Inr ((newMsg msgHeartbeat)\<lparr>smLSN := l, smEpoch := e\<rparr>), c') \<and> concat c' = rest"
proof -
  obtain c1 where c1: "ReadFull 1 c = (Inr [msgHeartbeat], c1)" "concat c1 = (PutUint64 l @ PutUint64 e) @ rest"
    using read_step [of c "[msgHeartbeat]" "(PutUint64 l @ PutUint64 e) @ rest" 1] assms by (auto simp: writeHeartbeat_def)
  obtain c2 where c2: "ReadFull 16 c1 = (Inr (PutUint64 l @ PutUint64 e), c2)" "concat c2 = rest"
    by (rule read_step [OF c1(2), of 16]) simp
  then show ?thesis using c1(1) by (simp add: readMsg_def newMsg_def Let_def subslice_def)
qed

lemma readMsg_LSN:
  assumes "concat c = writeLSNMsg t l @ rest" "t \<in> {msgFullBegin, msgFullEnd, msgAck}"
  shows "\<exists>c'. readMsg c = (Inr ((newMsg t)\<lparr>smLSN := l\<rparr>), c') \<and> concat c' = rest"
proof -
  obtain c1 where c1: "ReadFull 1 c = (Inr [t], c1)" "concat c1 = PutUint64 l @ rest"
    using read_step [of c "[t]" "PutUint64 l @ rest" 1] assms(1) by (auto simp: writeLSNMsg_def)
  obtain c2 where c2: "ReadFull 8 c1 = (Inr (PutUint64 l), c2)" "concat c2 = rest"
    by (rule read_step [OF c1(2), of 8]) simp
  then show ?thesis using c1(1) assms(2) by (auto simp: readMsg_def newMsg_def Let_def)
qed

lemma readMsg_Reject:
  assumes "concat c = writeReject b @ rest" "length b \<le> 1024"
  shows "\<exists>c'. readMsg c = (Inr ((newMsg msgReject)\<lparr>smReason := b\<rparr>), c') \<and> concat c' = rest"
proof -
  let ?n = "word_of_nat (length b) :: u16"
  have n: "unat ?n = length b" using assms(2) by (simp add: unsigned_of_nat take_bit_nat_eq_self)
  obtain c1 where c1: "ReadFull 1 c = (Inr [msgReject], c1)" "concat c1 = PutUint16 ?n @ (b @ rest)"
    using read_step [of c "[msgReject]" "PutUint16 ?n @ (b @ rest)" 1] assms by (auto simp: writeReject_def Let_def)
  obtain c2 where c2: "ReadFull 2 c1 = (Inr (PutUint16 ?n), c2)" "concat c2 = b @ rest"
    by (rule read_step [OF c1(2), of 2]) simp
  obtain c3 where c3: "ReadFull (length b) c2 = (Inr b, c3)" "concat c3 = rest"
    by (rule read_step [OF c2(2) refl])
  then show ?thesis using c1(1) c2(1) n by (simp add: readMsg_def newMsg_def Let_def)
qed

lemma readMsg_writeMsg:
  assumes "wf_msg m" "concat c = writeMsg m @ rest"
  shows "\<exists>c'. readMsg c = (Inr m, c') \<and> concat c' = rest"
  using assms(1) unfolding wf_msg_def
proof (elim disjE exE conjE)
  fix r assume "wf_record r" "m = (newMsg msgRecord)\<lparr>smRecord := r\<rparr>"
  then show ?thesis using readMsg_Record [of r c rest] assms(2) by (simp add: writeMsg_def newMsg_def)
next
  fix l e assume "m = (newMsg msgHeartbeat)\<lparr>smLSN := l, smEpoch := e\<rparr>"
  then show ?thesis using readMsg_Heartbeat [of c l e rest] assms(2) by (simp add: writeMsg_def newMsg_def)
next
  fix t l assume t: "t \<in> {msgFullBegin, msgFullEnd, msgAck}" "m = (newMsg t)\<lparr>smLSN := l\<rparr>"
  then have "writeMsg m = writeLSNMsg t l" by (auto simp: writeMsg_def newMsg_def)
  then show ?thesis using readMsg_LSN [of c t l rest] assms(2) t by simp
next
  fix b :: bytes assume "length b \<le> 1024" "m = (newMsg msgReject)\<lparr>smReason := b\<rparr>"
  then show ?thesis using readMsg_Reject [of c b rest] assms(2) by (simp add: writeMsg_def newMsg_def)
qed

text \<open>Reading \<open>n\<close> messages one after the other.\<close>

fun readMsgs :: "nat \<Rightarrow> bytes list \<Rightarrow> stream_error + streamMsg list" where
  "readMsgs 0 r = Inr []"
| "readMsgs (Suc n) r = (case readMsg r of (Inl e, _) \<Rightarrow> Inl e | (Inr m, r) \<Rightarrow> (case readMsgs n r of Inl e \<Rightarrow> Inl e | Inr ms \<Rightarrow> Inr (m # ms)))"

lemma readMsgs_writeMsgs:
  assumes "list_all wf_msg ms" "concat c = concat (map writeMsg ms) @ rest"
  shows "readMsgs (length ms) c = Inr ms"
  using assms
proof (induction ms arbitrary: c)
  case (Cons m ms)
  obtain c' where "readMsg c = (Inr m, c')" "concat c' = concat (map writeMsg ms) @ rest"
    using readMsg_writeMsg [of m c "concat (map writeMsg ms) @ rest"] Cons.prems by auto
  then show ?case using Cons.IH [of c'] Cons.prems(1) by simp
qed simp

text \<open>
  C20. Whatever sequence of messages the sender writes, and however the network splits the bytes, the receiver
  reads exactly these messages, in order.
\<close>

theorem stream_roundtrip:
  assumes "list_all wf_msg ms" "concat c = concat (map writeMsg ms) @ rest"
  shows "readMsgs (length ms) c = Inr ms"
  by (rule readMsgs_writeMsgs [OF assms])

theorem stream_roundtrip_witness:
  "readMsgs 2 [[2, 9, 0, 0], [0, 0, 0, 0, 0, 1], [0, 0, 0, 0, 0, 0, 0, 3, 7, 0, 0, 0], [0, 0, 0, 0]]
     = Inr [(newMsg msgHeartbeat)\<lparr>smLSN := 9, smEpoch := 1\<rparr>, (newMsg msgFullBegin)\<lparr>smLSN := 7\<rparr>]"
proof -
  let ?ms = "[(newMsg msgHeartbeat)\<lparr>smLSN := 9, smEpoch := 1\<rparr>, (newMsg msgFullBegin)\<lparr>smLSN := 7\<rparr>]"
  have a: "list_all wf_msg ?ms" by (auto simp: wf_msg_def)
  have b: "concat [[2, 9, 0, 0], [0, 0, 0, 0, 0, 1], [0, 0, 0, 0, 0, 0, 0, 3, 7, 0, 0, 0], [0, 0, 0, 0]] = concat (map writeMsg ?ms) @ []"
    by code_simp
  have "length ?ms = 2" by simp
  with stream_roundtrip [OF a b] show ?thesis by (simp only:)
qed

end
