(* ===== verification/Wire_Command.thy ===== *)
theory Wire_Command
  imports Wire_Frame
begin

text \<open>
  The body layer of the wire protocol, \<^verbatim>\<open>internal/protocol/command.go\<close>: the bounds-checked
  cursor, the request codec and the response bodies. A decoded slice is the list of its
  bytes; that the source returns sub-slices of the input is a matter of ownership only.
\<close>

section \<open>Commands\<close>

record Command =
  cOp :: u8
  cKey :: bytes
  cValue :: bytes
  cTTLMillis :: u64
  cLimit :: u32
  cFromLSN :: u64
  cNodeID :: bytes
  cNodePort :: u16

definition zeroCommand :: "u8 \<Rightarrow> Command" where
  "zeroCommand op = \<lparr>cOp = op, cKey = [], cValue = [], cTTLMillis = 0, cLimit = 0,
     cFromLSN = 0, cNodeID = [], cNodePort = 0\<rparr>"

section \<open>The cursor\<close>

record cursor =
  cur_b :: bytes
  cur_off :: nat
  cur_err :: "proto_error option"

definition new_cursor :: "bytes \<Rightarrow> cursor" where
  "new_cursor b = \<lparr>cur_b = b, cur_off = 0, cur_err = None\<rparr>"

definition cur_fail :: "cursor \<Rightarrow> cursor" where
  "cur_fail c = c\<lparr>cur_err := Some ErrTruncated\<rparr>"

definition cur_remaining :: "cursor \<Rightarrow> nat" where
  "cur_remaining c = length (cur_b c) - cur_off c"

definition cur_u8 :: "cursor \<Rightarrow> u8 \<times> cursor" where
  "cur_u8 c = (if cur_err c \<noteq> None \<or> cur_remaining c < 1 then (0, cur_fail c)
     else (cur_b c ! cur_off c, c\<lparr>cur_off := cur_off c + 1\<rparr>))"

definition cur_u16 :: "cursor \<Rightarrow> u16 \<times> cursor" where
  "cur_u16 c = (if cur_err c \<noteq> None \<or> cur_remaining c < 2 then (0, cur_fail c)
     else (Uint16 (drop (cur_off c) (cur_b c)), c\<lparr>cur_off := cur_off c + 2\<rparr>))"

definition cur_u32 :: "cursor \<Rightarrow> u32 \<times> cursor" where
  "cur_u32 c = (if cur_err c \<noteq> None \<or> cur_remaining c < 4 then (0, cur_fail c)
     else (Uint32 (drop (cur_off c) (cur_b c)), c\<lparr>cur_off := cur_off c + 4\<rparr>))"

definition cur_u64 :: "cursor \<Rightarrow> u64 \<times> cursor" where
  "cur_u64 c = (if cur_err c \<noteq> None \<or> cur_remaining c < 8 then (0, cur_fail c)
     else (Uint64 (drop (cur_off c) (cur_b c)), c\<lparr>cur_off := cur_off c + 8\<rparr>))"

definition cur_bytes :: "nat \<Rightarrow> cursor \<Rightarrow> bytes \<times> cursor" where
  "cur_bytes n c = (if cur_err c \<noteq> None \<or> cur_remaining c < n then ([], cur_fail c)
     else (subslice (cur_off c) (cur_off c + n) (cur_b c), c\<lparr>cur_off := cur_off c + n\<rparr>))"

definition cur_done :: "cursor \<Rightarrow> proto_error option" where
  "cur_done c = (case cur_err c of
       Some e \<Rightarrow> Some e
     | None \<Rightarrow> if cur_remaining c \<noteq> 0 then Some ErrTrailingBytes else None)"

text \<open>The recurring \<^verbatim>\<open>c.bytes(int(c.u16()))\<close>.\<close>

definition cur_bytes16 :: "cursor \<Rightarrow> bytes \<times> cursor" where
  "cur_bytes16 c = (let (n, c1) = cur_u16 c in cur_bytes (unat n) c1)"

section \<open>Request bodies\<close>

definition finishCommand :: "Command \<Rightarrow> cursor \<Rightarrow> proto_error + Command" where
  "finishCommand cmd c = (case cur_done c of
       Some e \<Rightarrow> Inl e
     | None \<Rightarrow> if length (cKey cmd) > MaxKeyLen then Inl ErrKeyTooLong else Inr cmd)"

definition DecodeCommand :: "u8 \<Rightarrow> bytes \<Rightarrow> proto_error + Command" where
  "DecodeCommand op body =
     (let cmd = zeroCommand op; c = new_cursor body in
      if op \<in> {OpPing, OpStats, OpFlush, OpSnapshot} then finishCommand cmd c
      else if op \<in> {OpGet, OpDelete, OpExists, OpTTL} then
        (let (k, c) = cur_bytes16 c in finishCommand (cmd\<lparr>cKey := k\<rparr>) c)
      else if op = OpSet then
        (let (k, c) = cur_bytes16 c; (vlen, c) = cur_u32 c in
         if unat vlen > MaxValueLen then Inl ErrValueTooLong
         else let (v, c) = cur_bytes (unat vlen) c; (ttl, c) = cur_u64 c in
           finishCommand (cmd\<lparr>cKey := k, cValue := v, cTTLMillis := ttl\<rparr>) c)
      else if op = OpExpire then
        (let (k, c) = cur_bytes16 c; (ttl, c) = cur_u64 c in
         finishCommand (cmd\<lparr>cKey := k, cTTLMillis := ttl\<rparr>) c)
      else if op = OpKeys then
        (let (k, c) = cur_bytes16 c; (lim, c) = cur_u32 c in
         finishCommand (cmd\<lparr>cKey := k, cLimit := lim\<rparr>) c)
      else if op = OpReplConf then
        (let (i, c) = cur_bytes16 c; (port, c) = cur_u16 c in
         finishCommand (cmd\<lparr>cNodeID := i, cNodePort := port\<rparr>) c)
      else if op = OpSync \<or> op = OpReplAck then
        (let (lsn, c) = cur_u64 c in finishCommand (cmd\<lparr>cFromLSN := lsn\<rparr>) c)
      else if op = OpPromote then finishCommand cmd c
      else Inl ErrUnknownOpcode)"

definition appendU16 :: "bytes \<Rightarrow> u16 \<Rightarrow> bytes" where
  "appendU16 dst v = dst @ [ucast v, ucast (drop_bit 8 v)]"

definition appendU32 :: "bytes \<Rightarrow> u32 \<Rightarrow> bytes" where
  "appendU32 dst v =
     dst @ [ucast v, ucast (drop_bit 8 v), ucast (drop_bit 16 v), ucast (drop_bit 24 v)]"

definition appendU64 :: "bytes \<Rightarrow> u64 \<Rightarrow> bytes" where
  "appendU64 dst v =
     dst @ [ucast v, ucast (drop_bit 8 v), ucast (drop_bit 16 v), ucast (drop_bit 24 v),
            ucast (drop_bit 32 v), ucast (drop_bit 40 v), ucast (drop_bit 48 v), ucast (drop_bit 56 v)]"

definition EncodeCommand :: "bytes \<Rightarrow> Command \<Rightarrow> bytes" where
  "EncodeCommand dst cmd =
     (let op = cOp cmd; key16 = (\<lambda>d. appendU16 d (word_of_nat (length (cKey cmd))) @ cKey cmd) in
      if op \<in> {OpPing, OpStats, OpFlush, OpSnapshot, OpPromote} then dst
      else if op \<in> {OpGet, OpDelete, OpExists, OpTTL} then key16 dst
      else if op = OpSet then
        appendU64 (appendU32 (key16 dst) (word_of_nat (length (cValue cmd))) @ cValue cmd) (cTTLMillis cmd)
      else if op = OpExpire then appendU64 (key16 dst) (cTTLMillis cmd)
      else if op = OpKeys then appendU32 (key16 dst) (cLimit cmd)
      else if op = OpReplConf then
        appendU16 (appendU16 dst (word_of_nat (length (cNodeID cmd))) @ cNodeID cmd) (cNodePort cmd)
      else if op = OpSync \<or> op = OpReplAck then appendU64 dst (cFromLSN cmd)
      else dst)"

section \<open>Response bodies\<close>

definition EncodeValueBody :: "bytes \<Rightarrow> bytes \<Rightarrow> bytes" where
  "EncodeValueBody dst v = appendU32 dst (word_of_nat (length v)) @ v"

definition DecodeValueBody :: "bytes \<Rightarrow> proto_error + bytes" where
  "DecodeValueBody body =
     (let (n, c) = cur_u32 (new_cursor body); (v, c) = cur_bytes (unat n) c in
      case cur_done c of Some e \<Rightarrow> Inl e | None \<Rightarrow> Inr v)"

definition EncodeBoolBody :: "bytes \<Rightarrow> bool \<Rightarrow> bytes" where
  "EncodeBoolBody dst b = (if b then dst @ [1] else dst @ [0])"

definition DecodeBoolBody :: "bytes \<Rightarrow> proto_error + bool" where
  "DecodeBoolBody body =
     (let (v, c) = cur_u8 (new_cursor body) in
      case cur_done c of Some e \<Rightarrow> Inl e | None \<Rightarrow> Inr (v \<noteq> 0))"

text \<open>\<^verbatim>\<open>uint64(ms)\<close> and \<^verbatim>\<open>int64(v)\<close> reinterpret the two's complement bits.\<close>

definition EncodeTTLBody :: "bytes \<Rightarrow> int \<Rightarrow> bytes" where
  "EncodeTTLBody dst ms = appendU64 dst (word_of_int ms)"

definition DecodeTTLBody :: "bytes \<Rightarrow> proto_error + int" where
  "DecodeTTLBody body =
     (let (v, c) = cur_u64 (new_cursor body) in
      case cur_done c of Some e \<Rightarrow> Inl e | None \<Rightarrow> Inr (sint v))"

fun encodeKeys_loop :: "bytes \<Rightarrow> bytes list \<Rightarrow> bytes" where
  "encodeKeys_loop dst [] = dst"
| "encodeKeys_loop dst (k # ks) =
     encodeKeys_loop (appendU16 dst (word_of_nat (length k)) @ k) ks"

definition EncodeKeysBody :: "bytes \<Rightarrow> bytes list \<Rightarrow> bytes" where
  "EncodeKeysBody dst keys = encodeKeys_loop (appendU32 dst (word_of_nat (length keys))) keys"

fun decodeKeys_loop :: "nat \<Rightarrow> bytes list \<Rightarrow> cursor \<Rightarrow> bytes list \<times> cursor" where
  "decodeKeys_loop 0 keys c = (keys, c)"
| "decodeKeys_loop (Suc n) keys c =
     (let (k, c) = cur_bytes16 c in decodeKeys_loop n (keys @ [k]) c)"

definition DecodeKeysBody :: "bytes \<Rightarrow> proto_error + bytes list" where
  "DecodeKeysBody body =
     (let (n, c) = cur_u32 (new_cursor body) in
      if cur_err c \<noteq> None \<or> unat n > cur_remaining c div 2 then Inl ErrTruncated
      else let (keys, c) = decodeKeys_loop (unat n) [] c in
        case cur_done c of Some e \<Rightarrow> Inl e | None \<Rightarrow> Inr keys)"

definition EncodeErrorBody :: "bytes \<Rightarrow> bytes \<Rightarrow> bytes" where
  "EncodeErrorBody dst msg = dst @ (if length msg > 1024 then take 1024 msg else msg)"

section \<open>Cursor lemmas\<close>

lemma append_eq_Put [simp]:
  "appendU16 dst a = dst @ PutUint16 a"
  "appendU32 dst b = dst @ PutUint32 b"
  "appendU64 dst c = dst @ PutUint64 c"
  by (simp_all add: appendU16_def appendU32_def appendU64_def numeral_eq_Suc drop_bit_drop_bit)

text \<open>\<open>cur_at c pre rest\<close>: the cursor has no error and stands between \<open>pre\<close> and \<open>rest\<close>.\<close>

definition cur_at :: "cursor \<Rightarrow> bytes \<Rightarrow> bytes \<Rightarrow> bool" where
  "cur_at c pre rest \<longleftrightarrow> cur_err c = None \<and> cur_b c = pre @ rest \<and> cur_off c = length pre"

lemma cur_at_new [simp]: "cur_at (new_cursor b) [] b"
  by (simp add: cur_at_def new_cursor_def)

lemma cur_at_read:
  "cur_at c pre ([b] @ rest) \<Longrightarrow> \<exists>c'. cur_u8 c = (b, c') \<and> cur_at c' (pre @ [b]) rest"
  "cur_at c pre (PutUint16 v16 @ rest) \<Longrightarrow>
     \<exists>c'. cur_u16 c = (v16, c') \<and> cur_at c' (pre @ PutUint16 v16) rest"
  "cur_at c pre (PutUint32 v32 @ rest) \<Longrightarrow>
     \<exists>c'. cur_u32 c = (v32, c') \<and> cur_at c' (pre @ PutUint32 v32) rest"
  "cur_at c pre (PutUint64 v64 @ rest) \<Longrightarrow>
     \<exists>c'. cur_u64 c = (v64, c') \<and> cur_at c' (pre @ PutUint64 v64) rest"
  "cur_at c pre (xs @ rest) \<Longrightarrow>
     \<exists>c'. cur_bytes (length xs) c = (xs, c') \<and> cur_at c' (pre @ xs) rest"
  by (auto simp add: cur_at_def cur_u8_def cur_u16_def cur_u32_def cur_u64_def cur_bytes_def
      cur_remaining_def subslice_def nth_append)

lemma cur_at_bytes16:
  assumes "cur_at c pre (PutUint16 (word_of_nat (length xs)) @ xs @ rest)" "length xs \<le> MaxKeyLen"
  shows "\<exists>c'. cur_bytes16 c = (xs, c') \<and> cur_at c' (pre @ PutUint16 (word_of_nat (length xs)) @ xs) rest"
proof -
  from cur_at_read(2) [OF assms(1)] obtain c1
    where c1: "cur_u16 c = (word_of_nat (length xs), c1)"
      "cur_at c1 (pre @ PutUint16 (word_of_nat (length xs))) (xs @ rest)" by blast
  have "unat (word_of_nat (length xs) :: u16) = length xs" using assms(2) by simp
  with cur_at_read(5) [OF c1(2)] c1(1) show ?thesis by (auto simp add: cur_bytes16_def)
qed

lemma cur_at_done: "cur_at c pre [] \<Longrightarrow> cur_done c = None"
  by (simp add: cur_at_def cur_done_def cur_remaining_def)

section \<open>Requests: round trip and unique decoding\<close>

text \<open>The fields that the opcode of a command carries on the wire; the others are zero.\<close>

definition canonCommand :: "Command \<Rightarrow> Command" where
  "canonCommand cmd =
     (let op = cOp cmd; z = zeroCommand op in
      if op \<in> {OpGet, OpDelete, OpExists, OpTTL} then z\<lparr>cKey := cKey cmd\<rparr>
      else if op = OpSet then z\<lparr>cKey := cKey cmd, cValue := cValue cmd, cTTLMillis := cTTLMillis cmd\<rparr>
      else if op = OpExpire then z\<lparr>cKey := cKey cmd, cTTLMillis := cTTLMillis cmd\<rparr>
      else if op = OpKeys then z\<lparr>cKey := cKey cmd, cLimit := cLimit cmd\<rparr>
      else if op = OpReplConf then z\<lparr>cNodeID := cNodeID cmd, cNodePort := cNodePort cmd\<rparr>
      else if op = OpSync \<or> op = OpReplAck then z\<lparr>cFromLSN := cFromLSN cmd\<rparr>
      else z)"

lemma opcode_Valid_iff: "opcode_Valid op \<longleftrightarrow>
    op \<in> {OpPing, OpStats, OpFlush, OpSnapshot, OpPromote} \<or> op \<in> {OpGet, OpDelete, OpExists, OpTTL} \<or>
    op = OpSet \<or> op = OpExpire \<or> op = OpKeys \<or> op = OpReplConf \<or> op = OpSync \<or> op = OpReplAck"
  by (auto simp add: opcode_Valid_def opcodeNames_def)

lemma finishCommand_at: "cur_at c pre [] \<Longrightarrow> length (cKey cmd) \<le> MaxKeyLen \<Longrightarrow> finishCommand cmd c = Inr cmd"
  by (simp add: finishCommand_def cur_at_done)

lemma decode_encode_set:
  assumes "length k \<le> MaxKeyLen" "length v \<le> MaxValueLen"
  shows "DecodeCommand OpSet (PutUint16 (word_of_nat (length k)) @ k @ PutUint32 (word_of_nat (length v)) @ v @ PutUint64 t) =
    Inr ((zeroCommand OpSet)\<lparr>cKey := k, cValue := v, cTTLMillis := t\<rparr>)"
proof -
  let ?b = "PutUint16 (word_of_nat (length k)) @ k @ PutUint32 (word_of_nat (length v)) @ v @ PutUint64 t"
  obtain c1 p1 where c1: "cur_bytes16 (new_cursor ?b) = (k, c1)"
    "cur_at c1 p1 (PutUint32 (word_of_nat (length v)) @ v @ PutUint64 t)"
    using cur_at_bytes16 [of "new_cursor ?b" "[]" k "PutUint32 (word_of_nat (length v)) @ v @ PutUint64 t"]
      assms(1) by auto
  obtain c2 p2 where c2: "cur_u32 c1 = (word_of_nat (length v), c2)" "cur_at c2 p2 (v @ PutUint64 t)"
    using cur_at_read(3) [OF c1(2)] by blast
  obtain c3 p3 where c3: "cur_bytes (length v) c2 = (v, c3)" "cur_at c3 p3 (PutUint64 t @ [])"
    using cur_at_read(5) [OF c2(2)] by auto
  obtain c4 p4 where c4: "cur_u64 c3 = (t, c4)" "cur_at c4 p4 []"
    using cur_at_read(4) [OF c3(2)] by blast
  have "unat (word_of_nat (length v) :: u32) = length v" using assms(2) by simp
  with c1 c2 c3 c4 assms show ?thesis
    by (simp add: DecodeCommand_def finishCommand_at zeroCommand_def)
qed

lemma decode_encode_key:
  assumes "op \<in> {OpGet, OpDelete, OpExists, OpTTL}" "length k \<le> MaxKeyLen"
  shows "DecodeCommand op (PutUint16 (word_of_nat (length k)) @ k) = Inr ((zeroCommand op)\<lparr>cKey := k\<rparr>)"
proof -
  obtain c1 p1 where "cur_bytes16 (new_cursor (PutUint16 (word_of_nat (length k)) @ k)) = (k, c1)" "cur_at c1 p1 []"
    using cur_at_bytes16 [of "new_cursor (PutUint16 (word_of_nat (length k)) @ k)" "[]" k "[]"] assms(2) by auto
  with assms show ?thesis by (auto simp add: DecodeCommand_def finishCommand_at zeroCommand_def)
qed

lemma decode_encode_expire:
  assumes "length k \<le> MaxKeyLen"
  shows "DecodeCommand OpExpire (PutUint16 (word_of_nat (length k)) @ k @ PutUint64 t) =
    Inr ((zeroCommand OpExpire)\<lparr>cKey := k, cTTLMillis := t\<rparr>)"
proof -
  obtain c1 p1 where c1: "cur_bytes16 (new_cursor (PutUint16 (word_of_nat (length k)) @ k @ PutUint64 t)) = (k, c1)"
    "cur_at c1 p1 (PutUint64 t @ [])"
    using cur_at_bytes16 [of "new_cursor (PutUint16 (word_of_nat (length k)) @ k @ PutUint64 t)" "[]" k "PutUint64 t"] assms
    by auto
  with cur_at_read(4) [OF c1(2)] assms show ?thesis
    by (auto simp add: DecodeCommand_def finishCommand_at zeroCommand_def)
qed

lemma decode_encode_keys:
  assumes "length k \<le> MaxKeyLen"
  shows "DecodeCommand OpKeys (PutUint16 (word_of_nat (length k)) @ k @ PutUint32 n) =
    Inr ((zeroCommand OpKeys)\<lparr>cKey := k, cLimit := n\<rparr>)"
proof -
  obtain c1 p1 where c1: "cur_bytes16 (new_cursor (PutUint16 (word_of_nat (length k)) @ k @ PutUint32 n)) = (k, c1)"
    "cur_at c1 p1 (PutUint32 n @ [])"
    using cur_at_bytes16 [of "new_cursor (PutUint16 (word_of_nat (length k)) @ k @ PutUint32 n)" "[]" k "PutUint32 n"] assms
    by auto
  with cur_at_read(3) [OF c1(2)] assms show ?thesis
    by (auto simp add: DecodeCommand_def finishCommand_at zeroCommand_def)
qed

lemma decode_encode_replconf:
  assumes "length k \<le> MaxKeyLen"
  shows "DecodeCommand OpReplConf (PutUint16 (word_of_nat (length k)) @ k @ PutUint16 n) =
    Inr ((zeroCommand OpReplConf)\<lparr>cNodeID := k, cNodePort := n\<rparr>)"
proof -
  obtain c1 p1 where c1: "cur_bytes16 (new_cursor (PutUint16 (word_of_nat (length k)) @ k @ PutUint16 n)) = (k, c1)"
    "cur_at c1 p1 (PutUint16 n @ [])"
    using cur_at_bytes16 [of "new_cursor (PutUint16 (word_of_nat (length k)) @ k @ PutUint16 n)" "[]" k "PutUint16 n"] assms
    by auto
  with cur_at_read(2) [OF c1(2)] show ?thesis
    by (auto simp add: DecodeCommand_def finishCommand_at zeroCommand_def)
qed

lemma decode_encode_lsn:
  assumes "op = OpSync \<or> op = OpReplAck"
  shows "DecodeCommand op (PutUint64 n) = Inr ((zeroCommand op)\<lparr>cFromLSN := n\<rparr>)"
  using cur_at_read(4) [of "new_cursor (PutUint64 n)" "[]" n "[]"] assms
  by (auto simp add: DecodeCommand_def finishCommand_at zeroCommand_def)

text \<open>
  C27. Every request a client can encode (a known opcode, fields within the protocol
  limits) is decoded by the server to the same request.
\<close>

theorem DecodeCommand_EncodeCommand:
  assumes "opcode_Valid (cOp cmd)" "length (cKey cmd) \<le> MaxKeyLen"
    and "length (cValue cmd) \<le> MaxValueLen" "length (cNodeID cmd) \<le> MaxKeyLen"
  shows "DecodeCommand (cOp cmd) (EncodeCommand [] cmd) = Inr (canonCommand cmd)"
proof -
  have nobody: "DecodeCommand op [] = Inr (zeroCommand op)"
    if "op \<in> {OpPing, OpStats, OpFlush, OpSnapshot, OpPromote}" for op
    using that finishCommand_at [of "new_cursor []" "[]" "zeroCommand op"]
    by (auto simp add: DecodeCommand_def zeroCommand_def)
  note defs = EncodeCommand_def canonCommand_def
  from assms(1) show ?thesis
    unfolding opcode_Valid_iff
  proof (elim disjE)
    assume empty: "cOp cmd \<in> {OpPing, OpStats, OpFlush, OpSnapshot, OpPromote}"
    then have "EncodeCommand [] cmd = []" "canonCommand cmd = zeroCommand (cOp cmd)"
      by (auto simp add: defs)
    with nobody [OF empty] show ?thesis by simp
  next
    assume key: "cOp cmd \<in> {OpGet, OpDelete, OpExists, OpTTL}"
    then have "EncodeCommand [] cmd = PutUint16 (word_of_nat (length (cKey cmd))) @ cKey cmd"
      "canonCommand cmd = (zeroCommand (cOp cmd))\<lparr>cKey := cKey cmd\<rparr>"
      by (auto simp add: defs)
    with decode_encode_key [OF key assms(2)] show ?thesis by simp
  next
    assume set: "cOp cmd = OpSet"
    then show ?thesis using decode_encode_set [OF assms(2,3)] by (simp add: defs)
  next
    assume expire: "cOp cmd = OpExpire"
    then show ?thesis using decode_encode_expire [OF assms(2)] by (simp add: defs)
  next
    assume keys: "cOp cmd = OpKeys"
    then show ?thesis using decode_encode_keys [OF assms(2)] by (simp add: defs)
  next
    assume replconf: "cOp cmd = OpReplConf"
    then show ?thesis using decode_encode_replconf [OF assms(4)] by (simp add: defs)
  next
    assume lsn: "cOp cmd = OpSync"
    with decode_encode_lsn [of OpSync] show ?thesis by (simp add: defs)
  next
    assume lsn: "cOp cmd = OpReplAck"
    with decode_encode_lsn [of OpReplAck] show ?thesis by (simp add: defs)
  qed
qed

theorem DecodeCommand_EncodeCommand_witness:
  "DecodeCommand OpSet (EncodeCommand [] \<lparr>cOp = OpSet, cKey = [107], cValue = [1, 2], cTTLMillis = 500, cLimit = 0,
      cFromLSN = 0, cNodeID = [], cNodePort = 0\<rparr>)
   = Inr \<lparr>cOp = OpSet, cKey = [107], cValue = [1, 2], cTTLMillis = 500, cLimit = 0, cFromLSN = 0, cNodeID = [], cNodePort = 0\<rparr>"
  using DecodeCommand_EncodeCommand [of "\<lparr>cOp = OpSet, cKey = [107], cValue = [1, 2], cTTLMillis = 500, cLimit = 0,
      cFromLSN = 0, cNodeID = [], cNodePort = 0\<rparr>"]
  by (simp add: opcode_Valid_iff canonCommand_def zeroCommand_def)

section \<open>Decoding accepts nothing but encodings\<close>

lemma cur_at_inv:
  "cur_at c pre rest \<Longrightarrow> cur_u16 c = (v16, c') \<Longrightarrow> cur_err c' = None \<Longrightarrow>
     \<exists>rest'. rest = PutUint16 v16 @ rest' \<and> cur_at c' (pre @ PutUint16 v16) rest'"
  "cur_at c pre rest \<Longrightarrow> cur_u32 c = (v32, c') \<Longrightarrow> cur_err c' = None \<Longrightarrow>
     \<exists>rest'. rest = PutUint32 v32 @ rest' \<and> cur_at c' (pre @ PutUint32 v32) rest'"
  "cur_at c pre rest \<Longrightarrow> cur_u64 c = (v64, c') \<Longrightarrow> cur_err c' = None \<Longrightarrow>
     \<exists>rest'. rest = PutUint64 v64 @ rest' \<and> cur_at c' (pre @ PutUint64 v64) rest'"
  "cur_at c pre rest \<Longrightarrow> cur_bytes n c = (xs, c') \<Longrightarrow> cur_err c' = None \<Longrightarrow>
     \<exists>rest'. length xs = n \<and> rest = xs @ rest' \<and> cur_at c' (pre @ xs) rest'"
  subgoal by (rule exI [where x = "drop 2 rest"])
      (auto simp add: cur_at_def cur_u16_def cur_remaining_def cur_fail_def PutUint_le_word split: if_splits)
  subgoal by (rule exI [where x = "drop 4 rest"])
      (auto simp add: cur_at_def cur_u32_def cur_remaining_def cur_fail_def PutUint_le_word split: if_splits)
  subgoal by (rule exI [where x = "drop 8 rest"])
      (auto simp add: cur_at_def cur_u64_def cur_remaining_def cur_fail_def PutUint_le_word split: if_splits)
  subgoal by (rule exI [where x = "drop n rest"])
      (auto simp add: cur_at_def cur_bytes_def cur_remaining_def cur_fail_def subslice_def split: if_splits)
  done

lemma cur_err_sticky:
  "cur_u16 c = (v16, c') \<Longrightarrow> cur_err c' = None \<Longrightarrow> cur_err c = None"
  "cur_u32 c = (v32, c') \<Longrightarrow> cur_err c' = None \<Longrightarrow> cur_err c = None"
  "cur_u64 c = (v64, c') \<Longrightarrow> cur_err c' = None \<Longrightarrow> cur_err c = None"
  "cur_bytes n c = (xs, c') \<Longrightarrow> cur_err c' = None \<Longrightarrow> cur_err c = None"
  "cur_bytes16 c = (xs, c') \<Longrightarrow> cur_err c' = None \<Longrightarrow> cur_err c = None"
  by (auto simp add: cur_u16_def cur_u32_def cur_u64_def cur_bytes_def cur_bytes16_def cur_fail_def
      split: if_splits prod.splits)

lemma cur_at_inv_bytes16:
  assumes "cur_at c pre rest" "cur_bytes16 c = (xs, c')" "cur_err c' = None"
  shows "\<exists>rest' pre'. length xs \<le> MaxKeyLen \<and>
    rest = PutUint16 (word_of_nat (length xs)) @ xs @ rest' \<and> cur_at c' pre' rest'"
proof -
  obtain n c1 where c1: "cur_u16 c = (n, c1)" "cur_bytes (unat n) c1 = (xs, c')"
    using assms(2) by (auto simp add: cur_bytes16_def split: prod.splits)
  have "cur_err c1 = None" using cur_err_sticky(4) [OF c1(2) assms(3)] .
  from cur_at_inv(1) [OF assms(1) c1(1) this] obtain r1
    where r1: "rest = PutUint16 n @ r1" "cur_at c1 (pre @ PutUint16 n) r1" by blast
  from cur_at_inv(4) [OF r1(2) c1(2) assms(3)] obtain r2
    where r2: "length xs = unat n" "r1 = xs @ r2" "cur_at c' ((pre @ PutUint16 n) @ xs) r2" by blast
  have "unat n < 2 ^ 16" using unsigned_less [of n, where ?'a = nat] by simp
  then have "length xs \<le> MaxKeyLen" "word_of_nat (length xs) = n" using r2(1) by auto
  with r1 r2 show ?thesis by blast
qed

lemma finishCommand_Inr: "finishCommand cmd c = Inr cmd' \<Longrightarrow> cmd' = cmd \<and> cur_err c = None \<and> cur_remaining c = 0 \<and>
    length (cKey cmd) \<le> MaxKeyLen"
  by (auto simp add: finishCommand_def cur_done_def split: option.splits if_splits)

lemma cur_at_end: "cur_at c pre rest \<Longrightarrow> cur_remaining c = 0 \<Longrightarrow> rest = []"
  by (auto simp add: cur_at_def cur_remaining_def)

lemma zeroCommand_sel [simp]:
  "cOp (zeroCommand op) = op" "cKey (zeroCommand op) = []" "cValue (zeroCommand op) = []"
  "cTTLMillis (zeroCommand op) = 0" "cLimit (zeroCommand op) = 0" "cFromLSN (zeroCommand op) = 0"
  "cNodeID (zeroCommand op) = []" "cNodePort (zeroCommand op) = 0"
  by (simp_all add: zeroCommand_def)

lemma decode_set_inv:
  assumes "DecodeCommand OpSet body = Inr cmd"
  shows "\<exists>k v t. cmd = (zeroCommand OpSet)\<lparr>cKey := k, cValue := v, cTTLMillis := t\<rparr> \<and>
    length k \<le> MaxKeyLen \<and> length v \<le> MaxValueLen \<and>
    body = PutUint16 (word_of_nat (length k)) @ k @ PutUint32 (word_of_nat (length v)) @ v @ PutUint64 t"
proof -
  obtain k c1 where c1: "cur_bytes16 (new_cursor body) = (k, c1)" by fastforce
  obtain n c2 where c2: "cur_u32 c1 = (n, c2)" by fastforce
  obtain v c3 where c3: "cur_bytes (unat n) c2 = (v, c3)" by fastforce
  obtain t c4 where c4: "cur_u64 c3 = (t, c4)" by fastforce
  from assms c1 c2 c3 c4 have n: "unat n \<le> MaxValueLen"
    and fin: "finishCommand ((zeroCommand OpSet)\<lparr>cKey := k, cValue := v, cTTLMillis := t\<rparr>) c4 = Inr cmd"
    by (simp_all add: DecodeCommand_def split: if_splits)
  from finishCommand_Inr [OF fin] have cmd: "cmd = (zeroCommand OpSet)\<lparr>cKey := k, cValue := v, cTTLMillis := t\<rparr>"
    and e4: "cur_err c4 = None" and rem: "cur_remaining c4 = 0" and klen: "length k \<le> MaxKeyLen" by simp_all
  have e3: "cur_err c3 = None" using cur_err_sticky(3) [OF c4 e4] .
  have e2: "cur_err c2 = None" using cur_err_sticky(4) [OF c3 e3] .
  have e1: "cur_err c1 = None" using cur_err_sticky(2) [OF c2 e2] .
  from cur_at_inv_bytes16 [OF cur_at_new c1 e1] obtain r1 p1
    where r1: "body = PutUint16 (word_of_nat (length k)) @ k @ r1" "cur_at c1 p1 r1" by blast
  from cur_at_inv(2) [OF r1(2) c2 e2] obtain r2 p2 where r2: "r1 = PutUint32 n @ r2" "cur_at c2 p2 r2" by blast
  from cur_at_inv(4) [OF r2(2) c3 e3] obtain r3 p3
    where r3: "length v = unat n" "r2 = v @ r3" "cur_at c3 p3 r3" by blast
  from cur_at_inv(3) [OF r3(3) c4 e4] obtain r4 p4 where r4: "r3 = PutUint64 t @ r4" "cur_at c4 p4 r4" by blast
  have "r4 = []" using cur_at_end [OF r4(2) rem] .
  moreover have "word_of_nat (length v) = n" by (simp add: r3(1))
  ultimately have "body = PutUint16 (word_of_nat (length k)) @ k @ PutUint32 (word_of_nat (length v)) @ v @ PutUint64 t"
    using r1 r2 r3 r4 by simp
  moreover have "length v \<le> MaxValueLen" using n r3(1) by simp
  ultimately show ?thesis using cmd klen by blast
qed

lemma decode_key_inv:
  assumes "op \<in> {OpGet, OpDelete, OpExists, OpTTL}" "DecodeCommand op body = Inr cmd"
  shows "\<exists>k. cmd = (zeroCommand op)\<lparr>cKey := k\<rparr> \<and> length k \<le> MaxKeyLen \<and> body = PutUint16 (word_of_nat (length k)) @ k"
proof -
  obtain k c1 where c1: "cur_bytes16 (new_cursor body) = (k, c1)" by fastforce
  from assms c1 have fin: "finishCommand ((zeroCommand op)\<lparr>cKey := k\<rparr>) c1 = Inr cmd"
    by (auto simp add: DecodeCommand_def)
  from finishCommand_Inr [OF fin] have cmd: "cmd = (zeroCommand op)\<lparr>cKey := k\<rparr>"
    and e1: "cur_err c1 = None" and rem: "cur_remaining c1 = 0" and klen: "length k \<le> MaxKeyLen" by simp_all
  from cur_at_inv_bytes16 [OF cur_at_new c1 e1] obtain r1 p1
    where "body = PutUint16 (word_of_nat (length k)) @ k @ r1" "cur_at c1 p1 r1" by blast
  then have "body = PutUint16 (word_of_nat (length k)) @ k" using cur_at_end [OF _ rem] by auto
  with cmd klen show ?thesis by blast
qed

lemma decode_expire_inv:
  assumes "DecodeCommand OpExpire body = Inr cmd"
  shows "\<exists>k t. cmd = (zeroCommand OpExpire)\<lparr>cKey := k, cTTLMillis := t\<rparr> \<and>
    length k \<le> MaxKeyLen \<and> body = PutUint16 (word_of_nat (length k)) @ k @ PutUint64 t"
proof -
  obtain k c1 where c1: "cur_bytes16 (new_cursor body) = (k, c1)" by fastforce
  obtain t c2 where c2: "cur_u64 c1 = (t, c2)" by fastforce
  from assms c1 c2 have fin: "finishCommand ((zeroCommand OpExpire)\<lparr>cKey := k, cTTLMillis := t\<rparr>) c2 = Inr cmd"
    by (simp add: DecodeCommand_def)
  from finishCommand_Inr [OF fin] have cmd: "cmd = (zeroCommand OpExpire)\<lparr>cKey := k, cTTLMillis := t\<rparr>"
    and e2: "cur_err c2 = None" and rem: "cur_remaining c2 = 0" and klen: "length k \<le> MaxKeyLen" by simp_all
  have e1: "cur_err c1 = None" using cur_err_sticky(3) [OF c2 e2] .
  from cur_at_inv_bytes16 [OF cur_at_new c1 e1] obtain r1 p1
    where r1: "body = PutUint16 (word_of_nat (length k)) @ k @ r1" "cur_at c1 p1 r1" by blast
  from cur_at_inv(3) [OF r1(2) c2 e2] obtain r2 p2 where r2: "r1 = PutUint64 t @ r2" "cur_at c2 p2 r2" by blast
  have "body = PutUint16 (word_of_nat (length k)) @ k @ PutUint64 t"
    using cur_at_end [OF r2(2) rem] r1 r2 by simp
  with cmd klen show ?thesis by blast
qed

lemma decode_keys_inv:
  assumes "DecodeCommand OpKeys body = Inr cmd"
  shows "\<exists>k n. cmd = (zeroCommand OpKeys)\<lparr>cKey := k, cLimit := n\<rparr> \<and>
    length k \<le> MaxKeyLen \<and> body = PutUint16 (word_of_nat (length k)) @ k @ PutUint32 n"
proof -
  obtain k c1 where c1: "cur_bytes16 (new_cursor body) = (k, c1)" by fastforce
  obtain n c2 where c2: "cur_u32 c1 = (n, c2)" by fastforce
  from assms c1 c2 have fin: "finishCommand ((zeroCommand OpKeys)\<lparr>cKey := k, cLimit := n\<rparr>) c2 = Inr cmd"
    by (simp add: DecodeCommand_def)
  from finishCommand_Inr [OF fin] have cmd: "cmd = (zeroCommand OpKeys)\<lparr>cKey := k, cLimit := n\<rparr>"
    and e2: "cur_err c2 = None" and rem: "cur_remaining c2 = 0" and klen: "length k \<le> MaxKeyLen" by simp_all
  have e1: "cur_err c1 = None" using cur_err_sticky(2) [OF c2 e2] .
  from cur_at_inv_bytes16 [OF cur_at_new c1 e1] obtain r1 p1
    where r1: "body = PutUint16 (word_of_nat (length k)) @ k @ r1" "cur_at c1 p1 r1" by blast
  from cur_at_inv(2) [OF r1(2) c2 e2] obtain r2 p2 where r2: "r1 = PutUint32 n @ r2" "cur_at c2 p2 r2" by blast
  have "body = PutUint16 (word_of_nat (length k)) @ k @ PutUint32 n"
    using cur_at_end [OF r2(2) rem] r1 r2 by simp
  with cmd klen show ?thesis by blast
qed

lemma decode_replconf_inv:
  assumes "DecodeCommand OpReplConf body = Inr cmd"
  shows "\<exists>k n. cmd = (zeroCommand OpReplConf)\<lparr>cNodeID := k, cNodePort := n\<rparr> \<and>
    body = PutUint16 (word_of_nat (length k)) @ k @ PutUint16 n"
proof -
  obtain k c1 where c1: "cur_bytes16 (new_cursor body) = (k, c1)" by fastforce
  obtain n c2 where c2: "cur_u16 c1 = (n, c2)" by fastforce
  from assms c1 c2 have fin: "finishCommand ((zeroCommand OpReplConf)\<lparr>cNodeID := k, cNodePort := n\<rparr>) c2 = Inr cmd"
    by (simp add: DecodeCommand_def)
  from finishCommand_Inr [OF fin] have cmd: "cmd = (zeroCommand OpReplConf)\<lparr>cNodeID := k, cNodePort := n\<rparr>"
    and e2: "cur_err c2 = None" and rem: "cur_remaining c2 = 0" by simp_all
  have e1: "cur_err c1 = None" using cur_err_sticky(1) [OF c2 e2] .
  from cur_at_inv_bytes16 [OF cur_at_new c1 e1] obtain r1 p1
    where r1: "body = PutUint16 (word_of_nat (length k)) @ k @ r1" "cur_at c1 p1 r1" by blast
  from cur_at_inv(1) [OF r1(2) c2 e2] obtain r2 p2 where r2: "r1 = PutUint16 n @ r2" "cur_at c2 p2 r2" by blast
  have "body = PutUint16 (word_of_nat (length k)) @ k @ PutUint16 n"
    using cur_at_end [OF r2(2) rem] r1 r2 by simp
  with cmd show ?thesis by blast
qed

lemma decode_lsn_inv:
  assumes "op = OpSync \<or> op = OpReplAck" "DecodeCommand op body = Inr cmd"
  shows "\<exists>n. cmd = (zeroCommand op)\<lparr>cFromLSN := n\<rparr> \<and> body = PutUint64 n"
proof -
  obtain n c1 where c1: "cur_u64 (new_cursor body) = (n, c1)" by fastforce
  from assms c1 have fin: "finishCommand ((zeroCommand op)\<lparr>cFromLSN := n\<rparr>) c1 = Inr cmd"
    by (auto simp add: DecodeCommand_def)
  from finishCommand_Inr [OF fin] have cmd: "cmd = (zeroCommand op)\<lparr>cFromLSN := n\<rparr>"
    and e1: "cur_err c1 = None" and rem: "cur_remaining c1 = 0" by simp_all
  from cur_at_inv(3) [OF cur_at_new c1 e1] obtain r1 p1 where "body = PutUint64 n @ r1" "cur_at c1 p1 r1" by blast
  then have "body = PutUint64 n" using cur_at_end [OF _ rem] by auto
  with cmd show ?thesis by blast
qed

lemma decode_empty_inv:
  assumes "op \<in> {OpPing, OpStats, OpFlush, OpSnapshot, OpPromote}" "DecodeCommand op body = Inr cmd"
  shows "cmd = zeroCommand op \<and> body = []"
proof -
  from assms have fin: "finishCommand (zeroCommand op) (new_cursor body) = Inr cmd"
    by (auto simp add: DecodeCommand_def)
  from finishCommand_Inr [OF fin] cur_at_end [OF cur_at_new] show ?thesis by simp
qed

lemma DecodeCommand_invalid: "\<not> opcode_Valid op \<Longrightarrow> DecodeCommand op body = Inl ErrUnknownOpcode"
  unfolding opcode_Valid_iff by (simp add: DecodeCommand_def)

text \<open>
  C24. The request decoder accepts nothing but encodings: if it accepts a body, the opcode
  is known, re-encoding the decoded command gives back exactly that body, and the key and
  value are within the protocol limits. So no two bodies of one opcode decode to the same
  command, and no byte of a body is ignored.
\<close>

theorem DecodeCommand_exact:
  assumes "DecodeCommand op body = Inr cmd"
  shows "opcode_Valid op \<and> cOp cmd = op \<and> EncodeCommand [] cmd = body \<and>
    length (cKey cmd) \<le> MaxKeyLen \<and> length (cValue cmd) \<le> MaxValueLen"
proof -
  have valid: "opcode_Valid op"
    using assms DecodeCommand_invalid [of op body] by auto
  note defs = EncodeCommand_def
  from valid have "cOp cmd = op \<and> EncodeCommand [] cmd = body \<and>
      length (cKey cmd) \<le> MaxKeyLen \<and> length (cValue cmd) \<le> MaxValueLen"
    unfolding opcode_Valid_iff
  proof (elim disjE)
    assume op: "op \<in> {OpPing, OpStats, OpFlush, OpSnapshot, OpPromote}"
    with decode_empty_inv [OF op assms] show ?thesis by (auto simp add: defs)
  next
    assume op: "op \<in> {OpGet, OpDelete, OpExists, OpTTL}"
    with decode_key_inv [OF op assms] show ?thesis by (auto simp add: defs)
  next
    assume "op = OpSet"
    with decode_set_inv [of body cmd] assms show ?thesis by (auto simp add: defs)
  next
    assume "op = OpExpire"
    with decode_expire_inv [of body cmd] assms show ?thesis by (auto simp add: defs)
  next
    assume "op = OpKeys"
    with decode_keys_inv [of body cmd] assms show ?thesis by (auto simp add: defs)
  next
    assume "op = OpReplConf"
    with decode_replconf_inv [of body cmd] assms show ?thesis by (auto simp add: defs)
  next
    assume op: "op = OpSync"
    with decode_lsn_inv [OF _ assms] show ?thesis by (auto simp add: defs)
  next
    assume op: "op = OpReplAck"
    with decode_lsn_inv [OF _ assms] show ?thesis by (auto simp add: defs)
  qed
  with valid show ?thesis by simp
qed

theorem DecodeCommand_exact_witness:
  "DecodeCommand OpGet (PutUint16 1 @ [107]) = Inr ((zeroCommand OpGet)\<lparr>cKey := [107]\<rparr>) \<and>
   EncodeCommand [] ((zeroCommand OpGet)\<lparr>cKey := [107]\<rparr>) = PutUint16 1 @ [107]"
proof -
  have r: "DecodeCommand OpGet (PutUint16 1 @ [107]) = Inr ((zeroCommand OpGet)\<lparr>cKey := [107]\<rparr>)"
    using decode_encode_key [of OpGet "[107]"] by simp
  with DecodeCommand_exact [OF r] show ?thesis by blast
qed

section \<open>Response bodies: round trips\<close>

lemma encodeKeys_loop_eq:
  "encodeKeys_loop dst keys = dst @ concat (map (\<lambda>k. PutUint16 (word_of_nat (length k)) @ k) keys)"
  by (induction keys arbitrary: dst) simp_all

lemma length_keys_body: "2 * length keys \<le> length (concat (map (\<lambda>k. PutUint16 (word_of_nat (length k)) @ k) keys))"
  by (induction keys) simp_all

lemma decodeKeys_loop_at:
  assumes "cur_at c pre (concat (map (\<lambda>k. PutUint16 (word_of_nat (length k)) @ k) ks))"
    and "\<forall>k \<in> set ks. length k \<le> MaxKeyLen"
  shows "\<exists>c' pre'. decodeKeys_loop (length ks) acc c = (acc @ ks, c') \<and> cur_at c' pre' []"
  using assms
proof (induction ks arbitrary: acc c pre)
  case Nil
  then show ?case by auto
next
  case (Cons k ks)
  obtain c1 p1 where c1: "cur_bytes16 c = (k, c1)"
    "cur_at c1 p1 (concat (map (\<lambda>k. PutUint16 (word_of_nat (length k)) @ k) ks))"
    using cur_at_bytes16 [of c pre k "concat (map (\<lambda>k. PutUint16 (word_of_nat (length k)) @ k) ks)"] Cons.prems by auto
  with Cons.IH [OF c1(2), of "acc @ [k]"] Cons.prems(2) show ?case by simp
qed

lemma DecodeValueBody_EncodeValueBody:
  assumes "length v < 2 ^ 32"
  shows "DecodeValueBody (EncodeValueBody [] v) = Inr v"
proof -
  let ?b = "PutUint32 (word_of_nat (length v)) @ v"
  obtain c1 p1 where c1: "cur_u32 (new_cursor ?b) = (word_of_nat (length v), c1)" "cur_at c1 p1 (v @ [])"
    using cur_at_read(3) [of "new_cursor ?b" "[]" "word_of_nat (length v)" v] by auto
  from cur_at_read(5) [OF c1(2)] c1(1) assms cur_at_done show ?thesis
    by (auto simp add: DecodeValueBody_def EncodeValueBody_def)
qed

lemma DecodeBoolBody_EncodeBoolBody: "DecodeBoolBody (EncodeBoolBody [] b) = Inr b"
  using cur_at_read(1) [of "new_cursor [1]" "[]" 1 "[]"] cur_at_read(1) [of "new_cursor [0]" "[]" 0 "[]"]
  by (auto simp add: DecodeBoolBody_def EncodeBoolBody_def cur_at_done)

lemma DecodeTTLBody_EncodeTTLBody:
  assumes "- (2 ^ 63) \<le> ms" "ms < 2 ^ 63"
  shows "DecodeTTLBody (EncodeTTLBody [] ms) = Inr ms"
proof -
  have "sint (word_of_int ms :: u64) = ms"
    using assms by (simp add: sint_sbintrunc' signed_take_bit_int_eq_self)
  then show ?thesis
    using cur_at_read(4) [of "new_cursor (PutUint64 (word_of_int ms))" "[]" "word_of_int ms" "[]"]
    by (auto simp add: DecodeTTLBody_def EncodeTTLBody_def cur_at_done)
qed

text \<open>
  What the server encodes in a response body the client decodes unchanged: values,
  booleans, signed TTLs and key lists, including the guard that rejects a key count larger
  than the body could hold.
\<close>

theorem response_bodies_roundtrip:
  assumes "length v < 2 ^ 32" "- (2 ^ 63) \<le> ms" "ms < 2 ^ 63"
    and "length keys < 2 ^ 32" "\<forall>k \<in> set keys. length k \<le> MaxKeyLen"
  shows "DecodeValueBody (EncodeValueBody [] v) = Inr v \<and>
    DecodeBoolBody (EncodeBoolBody [] b) = Inr b \<and>
    DecodeTTLBody (EncodeTTLBody [] ms) = Inr ms \<and>
    DecodeKeysBody (EncodeKeysBody [] keys) = Inr keys"
proof -
  let ?ks = "concat (map (\<lambda>k. PutUint16 (word_of_nat (length k)) @ k) keys)"
  let ?b = "PutUint32 (word_of_nat (length keys)) @ ?ks"
  obtain c1 p1 where c1: "cur_u32 (new_cursor ?b) = (word_of_nat (length keys), c1)" "cur_at c1 p1 ?ks"
    using cur_at_read(3) [of "new_cursor ?b" "[]" "word_of_nat (length keys)" ?ks] by auto
  then have err: "cur_err c1 = None" and rem: "cur_remaining c1 = length ?ks"
    by (simp_all add: cur_at_def cur_remaining_def)
  obtain c2 p2 where c2: "decodeKeys_loop (length keys) [] c1 = (keys, c2)" "cur_at c2 p2 []"
    using decodeKeys_loop_at [OF c1(2) assms(5), of "[]"] by auto
  have "length keys \<le> length ?ks div 2" using length_keys_body [of keys] by linarith
  then have "DecodeKeysBody (EncodeKeysBody [] keys) = Inr keys"
    using c1(1) err rem c2 assms(4)
    by (simp add: DecodeKeysBody_def EncodeKeysBody_def encodeKeys_loop_eq cur_at_done)
  with assms show ?thesis
    by (simp add: DecodeValueBody_EncodeValueBody DecodeBoolBody_EncodeBoolBody DecodeTTLBody_EncodeTTLBody)
qed

theorem response_bodies_roundtrip_witness:
  "DecodeValueBody (EncodeValueBody [] [1, 2]) = Inr [1, 2] \<and> DecodeBoolBody (EncodeBoolBody [] True) = Inr True \<and>
   DecodeTTLBody (EncodeTTLBody [] (- 1)) = Inr (- 1) \<and> DecodeKeysBody (EncodeKeysBody [] [[1], [], [2, 3]]) = Inr [[1], [], [2, 3]]"
  by (rule response_bodies_roundtrip) simp_all

end
