(* ===== verification/Hash.thy ===== *)
theory Hash
  imports Prelude
begin

unbundle bit_operations_syntax

text \<open>
  \<^verbatim>\<open>internal/store/hash.go\<close>: the seeded 64-bit hash that routes keys to shards (xxHash64)
  and the splitmix64 generator behind eviction and expiry sampling. All arithmetic is on
  64-bit words, so it wraps as the source's \<^verbatim>\<open>uint64\<close> does.
\<close>

section \<open>xxHash64\<close>

abbreviation prime1 :: u64 where "prime1 \<equiv> 11400714785074694791"
abbreviation prime2 :: u64 where "prime2 \<equiv> 14029467366897019727"
abbreviation prime3 :: u64 where "prime3 \<equiv> 1609587929392839161"
abbreviation prime4 :: u64 where "prime4 \<equiv> 9650029242287828579"
abbreviation prime5 :: u64 where "prime5 \<equiv> 2870177450012600261"

definition hash_round :: "u64 \<Rightarrow> u64 \<Rightarrow> u64" where
  "hash_round acc input = word_rotl 31 (acc + input * prime2) * prime1"

definition mergeRound :: "u64 \<Rightarrow> u64 \<Rightarrow> u64" where
  "mergeRound acc val = (acc XOR hash_round 0 val) * prime1 + prime4"

function hash_stripes :: "u64 \<Rightarrow> u64 \<Rightarrow> u64 \<Rightarrow> u64 \<Rightarrow> bytes \<Rightarrow> u64 \<times> u64 \<times> u64 \<times> u64 \<times> bytes" where
  "hash_stripes v1 v2 v3 v4 b =
     (if length b \<ge> 32
      then hash_stripes (hash_round v1 (Uint64 (subslice 0 8 b))) (hash_round v2 (Uint64 (subslice 8 16 b)))
             (hash_round v3 (Uint64 (subslice 16 24 b))) (hash_round v4 (Uint64 (subslice 24 32 b))) (drop 32 b)
      else (v1, v2, v3, v4, b))"
  by pat_completeness auto
termination
  by (relation "measure (\<lambda>(_, _, _, _, b). length b)") auto

function hash_words :: "u64 \<Rightarrow> bytes \<Rightarrow> u64 \<times> bytes" where
  "hash_words h b =
     (if length b \<ge> 8
      then hash_words (word_rotl 27 (h XOR hash_round 0 (Uint64 b)) * prime1 + prime4) (drop 8 b)
      else (h, b))"
  by pat_completeness auto
termination
  by (relation "measure (\<lambda>(_, b). length b)") auto

declare hash_stripes.simps [simp del] hash_words.simps [simp del]

definition hash_half :: "u64 \<Rightarrow> bytes \<Rightarrow> u64 \<times> bytes" where
  "hash_half h b =
     (if length b \<ge> 4
      then (word_rotl 23 (h XOR ucast (Uint32 b) * prime1) * prime2 + prime3, drop 4 b)
      else (h, b))"

fun hash_tail :: "u64 \<Rightarrow> bytes \<Rightarrow> u64" where
  "hash_tail h [] = h"
| "hash_tail h (c # cs) = hash_tail (word_rotl 11 (h XOR ucast c * prime5) * prime1) cs"

definition hash_avalanche :: "u64 \<Rightarrow> u64" where
  "hash_avalanche h =
     (let h = h XOR drop_bit 33 h; h = h * prime2;
          h = h XOR drop_bit 29 h; h = h * prime3 in h XOR drop_bit 32 h)"

definition hash_start :: "u64 \<Rightarrow> bytes \<Rightarrow> u64 \<times> bytes" where
  "hash_start seed b =
     (if length b \<ge> 32
      then case hash_stripes (seed + prime1 + prime2) (seed + prime2) seed (seed - prime1) b of
             (v1, v2, v3, v4, b') \<Rightarrow>
               (mergeRound (mergeRound (mergeRound (mergeRound
                  (word_rotl 1 v1 + word_rotl 7 v2 + word_rotl 12 v3 + word_rotl 18 v4) v1) v2) v3) v4, b')
      else (seed + prime5, b))"

definition Hash64 :: "u64 \<Rightarrow> bytes \<Rightarrow> u64" where
  "Hash64 seed b =
     (let (h, b1) = hash_start seed b;
          h = h + word_of_nat (length b);
          (h, b2) = hash_words h b1;
          (h, b3) = hash_half h b2
      in hash_avalanche (hash_tail h b3))"

text \<open>\<open>entropy\<close> is what \<^verbatim>\<open>crypto/rand.Read\<close> filled the buffer with, or None if it failed.\<close>

definition NewSeed :: "bytes option \<Rightarrow> u64" where
  "NewSeed entropy = (case entropy of
       None \<Rightarrow> prime1
     | Some b \<Rightarrow> (let seed = Uint64 b in if seed = 0 then prime1 else seed))"

section \<open>splitmix64\<close>

definition splitmix_next :: "u64 \<Rightarrow> u64 \<times> u64" where
  "splitmix_next state =
     (let state = state + 0x9E3779B97F4A7C15;
          z = state;
          z = (z XOR drop_bit 30 z) * 0xBF58476D1CE4E5B9;
          z = (z XOR drop_bit 27 z) * 0x94D049BB133111EB
      in (z XOR drop_bit 31 z, state))"

definition intn :: "u64 \<Rightarrow> nat \<Rightarrow> nat \<times> u64" where
  "intn state n =
     (if n \<le> 1 then (0, state)
      else let (r, state) = splitmix_next state in (unat (r mod word_of_nat n), state))"

section \<open>Lemmas\<close>

text \<open>The published xxHash64 value of the empty input with seed 0.\<close>

lemma Hash64_empty: "Hash64 0 [] = 0xEF46DB3751D8E999"
  by code_simp

text \<open>The published xxHash64 value of \<^verbatim>\<open>abc\<close> with seed 0.\<close>

lemma Hash64_abc: "Hash64 0 [97, 98, 99] = 0x44BC2CF5AD770999"
  by code_simp

lemma NewSeed_nonzero: "NewSeed e \<noteq> 0"
  by (simp add: NewSeed_def Let_def split: option.split)

lemma fst_intn_less: "0 < n \<Longrightarrow> n < 2 ^ 64 \<Longrightarrow> fst (intn s n) < n"
  by (auto simp add: intn_def split_beta unat_mod unat_of_nat)

end
