(* ===== verification/Shard.thy ===== *)
theory Shard
  imports Hash "HOL-Library.AList"
begin

text \<open>
  \<^verbatim>\<open>internal/store/entry.go\<close> and \<^verbatim>\<open>internal/store/shard.go\<close>: one shard of the store with its
  operations, all of which run with the shard's lock held.

  Entries are shared by pointer between the map, the two sampling slices and the exact-LRU list,
  and every index caches its position inside the entry. The model therefore keeps an explicit
  heap: a pointer is an address, \<open>heap s a\<close> is the entry at it, \<open>nextAddr\<close> is the
  next address an allocation returns. The Go map is an association list (lookup \<open>map_of\<close>,
  insertion and removal from \<^verbatim>\<open>HOL-Library.AList\<close>). The callback \<^verbatim>\<open>onEvict\<close> is the list of
  the calls made to it, oldest first. Int32 slot numbers are integers reduced to 32 bits where
  the code converts to \<^verbatim>\<open>int32\<close>.
\<close>

section \<open>Entries\<close>

type_synonym addr = nat

record entry =
  eKey :: bytes
  eValue :: bytes
  eExpireAt :: u64
  eLastAccess :: u64
  eSize :: u32
  eSlot :: int
  eTtlSlot :: int
  ePrev :: "addr option"
  eNext :: "addr option"

abbreviation entryStructSize :: int where "entryStructSize \<equiv> 96"
abbreviation mapOverhead :: int where "mapOverhead \<equiv> 64"

definition EntryCost :: "nat \<Rightarrow> nat \<Rightarrow> int" where
  "EntryCost keyLen valueLen = int keyLen + int valueLen + entryStructSize + mapOverhead"

definition entry_Size :: "entry \<Rightarrow> int" where
  "entry_Size e = uint (eSize e)"

definition expired_at :: "u64 \<Rightarrow> u64 \<Rightarrow> bool" where
  "expired_at expireAt nowMs \<longleftrightarrow> expireAt \<noteq> 0 \<and> expireAt \<le> nowMs"

definition entry_Expired :: "entry \<Rightarrow> u64 \<Rightarrow> bool" where
  "entry_Expired e nowMs \<longleftrightarrow> expired_at (eExpireAt e) nowMs"

definition entry_touch :: "u64 \<Rightarrow> entry \<Rightarrow> entry" where
  "entry_touch nowMono e = e\<lparr>eLastAccess := nowMono\<rparr>"

definition entry_Clone :: "entry \<Rightarrow> entry" where
  "entry_Clone e =
     \<lparr>eKey = eKey e, eValue = eValue e, eExpireAt = eExpireAt e, eLastAccess = eLastAccess e,
      eSize = eSize e, eSlot = - 1, eTtlSlot = - 1, ePrev = None, eNext = None\<rparr>"

definition to_int32 :: "nat \<Rightarrow> int" where
  "to_int32 n = signed_take_bit 31 (int n)"

section \<open>The shard\<close>

datatype EvictReason = ReasonExpired | ReasonEvicted

datatype evictPolicy = policyAllKeysLRU | policyVolatileLRU | policyNoEviction

record shard =
  entries :: "(bytes \<times> addr) list"
  heap :: "addr \<Rightarrow> entry"
  nextAddr :: addr
  slots :: "addr list"
  ttlSlots :: "addr list"
  lruHead :: "addr option"
  lruTail :: "addr option"
  exactLRU :: bool
  memBytes :: int
  budget :: int
  lowWater :: int
  hits :: u64
  misses :: u64
  evictions :: u64
  expired :: u64
  rng :: u64
  policy :: evictPolicy
  sampleK :: nat
  batchMax :: nat
  evicted :: "(bytes \<times> EvictReason) list"

definition blankEntry :: entry where
  "blankEntry = \<lparr>eKey = [], eValue = [], eExpireAt = 0, eLastAccess = 0, eSize = 0,
     eSlot = - 1, eTtlSlot = - 1, ePrev = None, eNext = None\<rparr>"

definition newShard :: "nat \<Rightarrow> nat \<Rightarrow> u64 \<Rightarrow> bool \<Rightarrow> evictPolicy \<Rightarrow> shard" where
  "newShard k bm seed exact pol =
     \<lparr>entries = [], heap = (\<lambda>_. blankEntry), nextAddr = 0, slots = [], ttlSlots = [],
      lruHead = None, lruTail = None, exactLRU = exact, memBytes = 0, budget = 0, lowWater = 0,
      hits = 0, misses = 0, evictions = 0, expired = 0, rng = seed OR 1, policy = pol,
      sampleK = k, batchMax = bm, evicted = []\<rparr>"

definition upd_entry :: "addr \<Rightarrow> (entry \<Rightarrow> entry) \<Rightarrow> shard \<Rightarrow> shard" where
  "upd_entry a f s = s\<lparr>heap := (heap s)(a := f (heap s a))\<rparr>"

definition fire_onEvict :: "bytes \<Rightarrow> EvictReason \<Rightarrow> shard \<Rightarrow> shard" where
  "fire_onEvict key reason s = s\<lparr>evicted := evicted s @ [(key, reason)]\<rparr>"

subsection \<open>Slot bookkeeping\<close>

definition addTTLSlotLocked :: "addr \<Rightarrow> shard \<Rightarrow> shard" where
  "addTTLSlotLocked e s =
     (if eTtlSlot (heap s e) \<ge> 0 then s
      else (upd_entry e (eTtlSlot_update (\<lambda>_. to_int32 (length (ttlSlots s)))) s)\<lparr>ttlSlots := ttlSlots s @ [e]\<rparr>)"

definition addSlotLocked :: "addr \<Rightarrow> shard \<Rightarrow> shard" where
  "addSlotLocked e s =
     (let s = (upd_entry e (eSlot_update (\<lambda>_. to_int32 (length (slots s)))) s)\<lparr>slots := slots s @ [e]\<rparr>
      in if eExpireAt (heap s e) \<noteq> 0
         then (upd_entry e (eTtlSlot_update (\<lambda>_. to_int32 (length (ttlSlots s)))) s)\<lparr>ttlSlots := ttlSlots s @ [e]\<rparr>
         else upd_entry e (eTtlSlot_update (\<lambda>_. - 1)) s)"

definition removeTTLSlotLocked :: "addr \<Rightarrow> shard \<Rightarrow> shard" where
  "removeTTLSlotLocked e s =
     (let i = eTtlSlot (heap s e);
          s = (if i \<ge> 0 \<and> nat i < length (ttlSlots s)
               then let lst = length (ttlSlots s) - 1;
                        moved = ttlSlots s ! lst
                    in (upd_entry moved (eTtlSlot_update (\<lambda>_. i)) s)
                         \<lparr>ttlSlots := take lst ((ttlSlots s)[nat i := moved])\<rparr>
               else s)
      in upd_entry e (eTtlSlot_update (\<lambda>_. - 1)) s)"

definition removeSlotLocked :: "addr \<Rightarrow> shard \<Rightarrow> shard" where
  "removeSlotLocked e s =
     (let i = eSlot (heap s e);
          s = (if i \<ge> 0 \<and> nat i < length (slots s)
               then let lst = length (slots s) - 1;
                        moved = slots s ! lst;
                        s = (upd_entry moved (eSlot_update (\<lambda>_. i)) s)
                              \<lparr>slots := take lst ((slots s)[nat i := moved])\<rparr>
                    in upd_entry e (eSlot_update (\<lambda>_. - 1)) s
               else s)
      in removeTTLSlotLocked e s)"

subsection \<open>The exact-LRU list\<close>

definition lruPushFrontLocked :: "addr \<Rightarrow> shard \<Rightarrow> shard" where
  "lruPushFrontLocked e s =
     (let s = upd_entry e (\<lambda>x. x\<lparr>ePrev := None, eNext := lruHead s\<rparr>) s;
          s = (case lruHead s of None \<Rightarrow> s | Some h \<Rightarrow> upd_entry h (ePrev_update (\<lambda>_. Some e)) s);
          s = s\<lparr>lruHead := Some e\<rparr>
      in if lruTail s = None then s\<lparr>lruTail := Some e\<rparr> else s)"

definition lruRemoveLocked :: "addr \<Rightarrow> shard \<Rightarrow> shard" where
  "lruRemoveLocked e s =
     (let s = (case ePrev (heap s e) of
                 Some p \<Rightarrow> upd_entry p (eNext_update (\<lambda>_. eNext (heap s e))) s
               | None \<Rightarrow> if lruHead s = Some e then s\<lparr>lruHead := eNext (heap s e)\<rparr> else s);
          s = (case eNext (heap s e) of
                 Some n \<Rightarrow> upd_entry n (ePrev_update (\<lambda>_. ePrev (heap s e))) s
               | None \<Rightarrow> if lruTail s = Some e then s\<lparr>lruTail := ePrev (heap s e)\<rparr> else s)
      in upd_entry e (\<lambda>x. x\<lparr>ePrev := None, eNext := None\<rparr>) s)"

definition lruMoveToFrontLocked :: "addr \<Rightarrow> shard \<Rightarrow> shard" where
  "lruMoveToFrontLocked e s =
     (if lruHead s = Some e then s else lruPushFrontLocked e (lruRemoveLocked e s))"

subsection \<open>Removal and eviction\<close>

definition removeEntryLocked :: "addr \<Rightarrow> shard \<Rightarrow> shard" where
  "removeEntryLocked e s =
     (let s = s\<lparr>entries := AList.delete (eKey (heap s e)) (entries s)\<rparr>;
          s = removeSlotLocked e s;
          s = (if exactLRU s then lruRemoveLocked e s else s)
      in s\<lparr>memBytes := memBytes s - entry_Size (heap s e)\<rparr>)"

definition evictable :: "shard \<Rightarrow> bytes \<Rightarrow> addr \<Rightarrow> bool" where
  "evictable s protect e \<longleftrightarrow>
     eKey (heap s e) \<noteq> protect \<and> \<not> (policy s = policyVolatileLRU \<and> eExpireAt (heap s e) = 0)"

fun lru_walk :: "nat \<Rightarrow> bytes \<Rightarrow> shard \<Rightarrow> addr option \<Rightarrow> addr option" where
  "lru_walk 0 protect s p = None"
| "lru_walk (Suc fuel) protect s None = None"
| "lru_walk (Suc fuel) protect s (Some e) =
     (if evictable s protect e then Some e else lru_walk fuel protect s (ePrev (heap s e)))"

fun sample_loop :: "nat \<Rightarrow> addr list \<Rightarrow> bytes \<Rightarrow> shard \<Rightarrow> (addr \<times> u64) option \<Rightarrow> (addr \<times> u64) option \<times> shard" where
  "sample_loop 0 pool protect s best = (best, s)"
| "sample_loop (Suc n) pool protect s best =
     (let (i, st) = intn (rng s) (length pool);
          s = s\<lparr>rng := st\<rparr>;
          cand = pool ! i;
          a = eLastAccess (heap s cand)
      in if eKey (heap s cand) = protect then sample_loop n pool protect s best
         else sample_loop n pool protect s
                (case best of None \<Rightarrow> Some (cand, a)
                 | Some (b, bestAccess) \<Rightarrow> if a < bestAccess then Some (cand, a) else best))"

definition evict_pool :: "shard \<Rightarrow> addr list" where
  "evict_pool s = (if policy s = policyVolatileLRU then ttlSlots s else slots s)"

definition pickVictimLocked :: "bytes \<Rightarrow> shard \<Rightarrow> addr option \<times> shard" where
  "pickVictimLocked protect s =
     (if exactLRU s then (lru_walk (Suc (length (slots s))) protect s (lruTail s), s)
      else if evict_pool s = [] then (None, s)
      else case sample_loop (sampleK s) (evict_pool s) protect s None of
             (Some (b, _), s) \<Rightarrow> (Some b, s)
           | (None, s) \<Rightarrow> (List.find (\<lambda>c. eKey (heap s c) \<noteq> protect) (evict_pool s), s))"

fun evict_loop :: "nat \<Rightarrow> nat \<Rightarrow> int \<Rightarrow> bytes \<Rightarrow> shard \<Rightarrow> nat \<times> shard" where
  "evict_loop 0 n target protect s = (n, s)"
| "evict_loop (Suc left) n target protect s =
     (if memBytes s > target
      then case pickVictimLocked protect s of
             (None, s) \<Rightarrow> (n, s)
           | (Some victim, s) \<Rightarrow>
               (let key = eKey (heap s victim);
                    s = removeEntryLocked victim s;
                    s = s\<lparr>evictions := evictions s + 1\<rparr>
                in evict_loop left (n + 1) target protect (fire_onEvict key ReasonEvicted s))
      else (n, s))"

definition evictLocked :: "int \<Rightarrow> bytes \<Rightarrow> shard \<Rightarrow> nat \<times> shard" where
  "evictLocked target protect s =
     (if policy s = policyNoEviction then (0, s) else evict_loop (batchMax s) 0 target protect s)"

definition admitLocked :: "int \<Rightarrow> bytes \<Rightarrow> shard \<Rightarrow> bool \<times> shard" where
  "admitLocked delta protect s =
     (if budget s \<le> 0 \<or> delta \<le> 0 then (True, s)
      else if memBytes s + delta \<le> budget s then (True, s)
      else if policy s = policyNoEviction then (False, s)
      else let target = (if lowWater s - delta < 0 then 0 else lowWater s - delta);
               (_, s) = evictLocked target protect s
           in (memBytes s + delta \<le> budget s, s))"

subsection \<open>Core operations\<close>

definition getLocked :: "bytes \<Rightarrow> u64 \<Rightarrow> u64 \<Rightarrow> shard \<Rightarrow> (addr option \<times> bool \<times> bool) \<times> shard" where
  "getLocked key nowMs nowMono s =
     (case map_of (entries s) key of
        None \<Rightarrow> ((None, False, False), s\<lparr>misses := misses s + 1\<rparr>)
      | Some e \<Rightarrow>
          if entry_Expired (heap s e) nowMs then ((None, False, True), s\<lparr>misses := misses s + 1\<rparr>)
          else let s = upd_entry e (entry_touch nowMono) s
               in ((Some e, True, False), s\<lparr>hits := hits s + 1\<rparr>))"

definition switch_ttl :: "addr \<Rightarrow> bool \<Rightarrow> u64 \<Rightarrow> shard \<Rightarrow> shard" where
  "switch_ttl e hadTTL expireAt s =
     (if expireAt \<noteq> 0 \<and> \<not> hadTTL then addTTLSlotLocked e s
      else if expireAt = 0 \<and> hadTTL then removeTTLSlotLocked e s else s)"

definition overwrite_entry :: "addr \<Rightarrow> bytes \<Rightarrow> u64 \<Rightarrow> u64 \<Rightarrow> int \<Rightarrow> shard \<Rightarrow> shard" where
  "overwrite_entry old val expireAt nowMono cost s =
     (let hadTTL = (eExpireAt (heap s old) \<noteq> 0);
          s = upd_entry old (\<lambda>x. entry_touch nowMono
                (x\<lparr>eValue := val, eExpireAt := expireAt, eSize := word_of_int cost\<rparr>)) s;
          s = switch_ttl old hadTTL expireAt s
      in if exactLRU s then lruMoveToFrontLocked old s else s)"

definition insert_entry :: "bytes \<Rightarrow> bytes \<Rightarrow> u64 \<Rightarrow> u64 \<Rightarrow> int \<Rightarrow> shard \<Rightarrow> shard" where
  "insert_entry key val expireAt nowMono cost s =
     (let e = nextAddr s;
          s = s\<lparr>heap := (heap s)(e := entry_touch nowMono
                  \<lparr>eKey = key, eValue = val, eExpireAt = expireAt, eLastAccess = 0,
                   eSize = word_of_int cost, eSlot = - 1, eTtlSlot = - 1, ePrev = None, eNext = None\<rparr>),
                nextAddr := Suc e, entries := AList.update key e (entries s)\<rparr>;
          s = addSlotLocked e s
      in if exactLRU s then lruPushFrontLocked e s else s)"

definition setLocked :: "bytes \<Rightarrow> bytes \<Rightarrow> u64 \<Rightarrow> u64 \<Rightarrow> shard \<Rightarrow> bool \<times> shard" where
  "setLocked key val expireAt nowMono s =
     (let cost = EntryCost (length key) (length val)
      in case map_of (entries s) key of
           Some old \<Rightarrow>
             (let delta = cost - entry_Size (heap s old);
                  (ok, s) = admitLocked delta key s
              in if \<not> ok then (False, s)
                 else let s = overwrite_entry old val expireAt nowMono cost s
                      in (True, s\<lparr>memBytes := memBytes s + delta\<rparr>))
         | None \<Rightarrow>
             (let (ok, s) = admitLocked cost key s
              in if \<not> ok then (False, s)
                 else let s = insert_entry key val expireAt nowMono cost s
                      in (True, s\<lparr>memBytes := memBytes s + cost\<rparr>)))"

definition delLocked :: "bytes \<Rightarrow> shard \<Rightarrow> bool \<times> shard" where
  "delLocked key s = (case map_of (entries s) key of
       None \<Rightarrow> (False, s)
     | Some e \<Rightarrow> (True, removeEntryLocked e s))"

definition expireLocked :: "bytes \<Rightarrow> u64 \<Rightarrow> shard \<Rightarrow> bool \<times> shard" where
  "expireLocked key expireAt s = (case map_of (entries s) key of
       None \<Rightarrow> (False, s)
     | Some e \<Rightarrow>
         (let hadTTL = (eExpireAt (heap s e) \<noteq> 0);
              s = upd_entry e (eExpireAt_update (\<lambda>_. expireAt)) s
          in (True, switch_ttl e hadTTL expireAt s)))"

definition expire_remove :: "addr \<Rightarrow> shard \<Rightarrow> shard" where
  "expire_remove e s =
     (let key = eKey (heap s e);
          s = removeEntryLocked e s;
          s = s\<lparr>expired := expired s + 1\<rparr>
      in fire_onEvict key ReasonExpired s)"

fun sweep_sample :: "nat \<Rightarrow> u64 \<Rightarrow> shard \<Rightarrow> addr list \<times> shard" where
  "sweep_sample 0 nowMs s = ([], s)"
| "sweep_sample (Suc n) nowMs s =
     (let (i, st) = intn (rng s) (length (ttlSlots s));
          s = s\<lparr>rng := st\<rparr>;
          e = ttlSlots s ! i;
          (vs, s') = sweep_sample n nowMs s
      in (if entry_Expired (heap s e) nowMs then e # vs else vs, s'))"

fun sweep_remove :: "addr list \<Rightarrow> shard \<Rightarrow> shard" where
  "sweep_remove [] s = s"
| "sweep_remove (e # es) s =
     (if eSlot (heap s e) < 0 then sweep_remove es s else sweep_remove es (expire_remove e s))"

definition sweepLocked :: "u64 \<Rightarrow> nat \<Rightarrow> shard \<Rightarrow> (nat \<times> nat) \<times> shard" where
  "sweepLocked nowMs sample s =
     (if ttlSlots s = [] then ((0, 0), s)
      else let sample = min sample (length (ttlSlots s));
               (victims, s) = sweep_sample sample nowMs s
           in ((sample, length victims), sweep_remove victims s))"

definition reapLocked :: "bytes \<Rightarrow> u64 \<Rightarrow> shard \<Rightarrow> bool \<times> shard" where
  "reapLocked key nowMs s = (case map_of (entries s) key of
       None \<Rightarrow> (False, s)
     | Some e \<Rightarrow> if entry_Expired (heap s e) nowMs then (True, expire_remove e s) else (False, s))"

definition flushLocked :: "shard \<Rightarrow> shard" where
  "flushLocked s = s\<lparr>entries := [], slots := [], ttlSlots := [], lruHead := None, lruTail := None, memBytes := 0\<rparr>"

end
