(* ===== verification/Shard_Lemmas.thy ===== *)
theory Shard_Lemmas
  imports Shard
begin

text \<open>
  The index structures of a shard: slices whose elements cache their own position and lose an
  element by swapping in the last one, and the intrusive doubly-linked list. Each is described
  by a predicate on the heap, with one lemma per operation on it and the fields it leaves alone.
\<close>

section \<open>Position-caching slices\<close>

definition idx_ok :: "(addr \<Rightarrow> int) \<Rightarrow> addr list \<Rightarrow> bool" where
  "idx_ok f xs \<longleftrightarrow> (\<forall>i<length xs. f (xs ! i) = int i)"

definition swap_remove :: "nat \<Rightarrow> 'a list \<Rightarrow> 'a list" where
  "swap_remove i xs = take (length xs - 1) (xs[i := xs ! (length xs - 1)])"

lemma idx_ok_distinct: "idx_ok f xs \<Longrightarrow> distinct xs"
  by (auto simp: idx_ok_def distinct_conv_nth) (metis of_nat_eq_iff)

lemma idx_ok_cong: "(\<And>a. a \<in> set xs \<Longrightarrow> f a = g a) \<Longrightarrow> idx_ok f xs = idx_ok g xs"
  by (auto simp: idx_ok_def)

lemma idx_ok_memD:
  assumes "idx_ok f xs" "a \<in> set xs"
  shows "0 \<le> f a" "nat (f a) < length xs" "xs ! nat (f a) = a"
  using assms by (auto simp: idx_ok_def in_set_conv_nth)

lemma idx_ok_snoc: "idx_ok f xs \<Longrightarrow> a \<notin> set xs \<Longrightarrow> idx_ok (f(a := int (length xs))) (xs @ [a])"
  by (auto simp: idx_ok_def nth_append less_Suc_eq)

lemma length_swap_remove [simp]: "length (swap_remove i xs) = length xs - 1"
  by (simp add: swap_remove_def)

lemma nth_swap_remove:
  "j < length xs - 1 \<Longrightarrow> swap_remove i xs ! j = (if j = i then xs ! (length xs - 1) else xs ! j)"
  by (simp add: swap_remove_def)

lemma set_swap_remove:
  assumes "distinct xs" "i < length xs"
  shows "set (swap_remove i xs) = set xs - {xs ! i}"
proof -
  let ?n = "length xs - 1"
  have 1: "a \<in> set (swap_remove i xs) \<longleftrightarrow> (\<exists>j<?n. a = (if j = i then xs ! ?n else xs ! j))" for a
    using nth_swap_remove [of _ xs i] by (auto simp: in_set_conv_nth)
  have 2: "(\<exists>j<?n. a = (if j = i then xs ! ?n else xs ! j)) \<longleftrightarrow> (\<exists>k<length xs. k \<noteq> i \<and> a = xs ! k)" for a
  proof
    assume "\<exists>j<?n. a = (if j = i then xs ! ?n else xs ! j)"
    then obtain j where "j < ?n" "a = (if j = i then xs ! ?n else xs ! j)" by blast
    then show "\<exists>k<length xs. k \<noteq> i \<and> a = xs ! k"
      by (intro exI [of _ "if j = i then ?n else j"]) auto
  next
    assume "\<exists>k<length xs. k \<noteq> i \<and> a = xs ! k"
    then obtain k where "k < length xs" "k \<noteq> i" "a = xs ! k" by blast
    then show "\<exists>j<?n. a = (if j = i then xs ! ?n else xs ! j)"
      using assms(2) by (intro exI [of _ "if k = ?n then i else k"]) auto
  qed
  have 3: "(\<exists>k<length xs. k \<noteq> i \<and> a = xs ! k) \<longleftrightarrow> a \<in> set xs - {xs ! i}" for a
    using assms by (auto simp: in_set_conv_nth nth_eq_iff_index_eq)
  show ?thesis by (rule set_eqI) (simp only: 1 2 3)
qed

lemma idx_ok_swap_remove:
  assumes "idx_ok f xs" "a \<in> set xs"
  shows "idx_ok ((f(xs ! (length xs - 1) := f a))(a := b)) (swap_remove (nat (f a)) xs)"
proof -
  note a = idx_ok_memD [OF assms]
  note d = idx_ok_distinct [OF assms(1)]
  show ?thesis
    unfolding idx_ok_def
  proof (intro allI impI)
    fix j assume j: "j < length (swap_remove (nat (f a)) xs)"
    then have "xs ! (length xs - 1) \<noteq> a" if "j = nat (f a)"
      using that a d nth_eq_iff_index_eq [OF d, of "length xs - 1" j] by auto
    moreover have "xs ! j \<noteq> a" "xs ! j \<noteq> xs ! (length xs - 1)" if "j \<noteq> nat (f a)"
      using that j a d nth_eq_iff_index_eq [OF d, of j "nat (f a)"]
        nth_eq_iff_index_eq [OF d, of j "length xs - 1"] by auto
    ultimately show "((f(xs ! (length xs - 1) := f a))(a := b)) (swap_remove (nat (f a)) xs ! j) = int j"
      using j a assms(1) by (auto simp: nth_swap_remove idx_ok_def)
  qed
qed

lemma to_int32_small: "n < 2 ^ 31 \<Longrightarrow> to_int32 n = int n"
  unfolding to_int32_def by (rule signed_take_bit_int_eq_self) auto

section \<open>The intrusive list\<close>

definition first_or :: "addr list \<Rightarrow> addr option \<Rightarrow> addr option" where
  "first_or xs d = (case xs of [] \<Rightarrow> d | x # _ \<Rightarrow> Some x)"

definition last_or :: "addr list \<Rightarrow> addr option \<Rightarrow> addr option" where
  "last_or xs d = (if xs = [] then d else Some (last xs))"

fun linked :: "(addr \<Rightarrow> entry) \<Rightarrow> addr option \<Rightarrow> addr list \<Rightarrow> addr option \<Rightarrow> bool" where
  "linked h p [] n \<longleftrightarrow> True"
| "linked h p (a # xs) n \<longleftrightarrow> ePrev (h a) = p \<and> eNext (h a) = first_or xs n \<and> linked h (Some a) xs n"

definition lru_list :: "shard \<Rightarrow> addr list \<Rightarrow> bool" where
  "lru_list s xs \<longleftrightarrow> linked (heap s) None xs None \<and> distinct xs
     \<and> lruHead s = first_or xs None \<and> lruTail s = last_or xs None"

lemma first_or_simps [simp]:
  "first_or [] d = d" "first_or (x # xs) d = Some x"
  "first_or (xs @ ys) d = first_or xs (first_or ys d)"
  by (simp_all add: first_or_def split: list.splits)

lemma last_or_simps [simp]:
  "last_or [] d = d" "last_or (xs @ [x]) d = Some x" "last_or (x # xs) d = last_or xs (Some x)"
  "last_or (xs @ ys) d = last_or ys (last_or xs d)"
  by (auto simp: last_or_def)

lemma first_or_None [simp]: "(first_or xs (Some a) = None) = False"
  by (simp add: first_or_def split: list.splits)

lemma last_or_None [simp]: "(last_or xs (Some a) = None) = False"
  by (simp add: last_or_def)

lemma first_or_Some: "first_or xs None = Some a \<Longrightarrow> a \<in> set xs"
  by (auto simp: first_or_def split: list.splits)

lemma last_or_Some: "last_or xs None = Some a \<Longrightarrow> a \<in> set xs"
  by (auto simp: last_or_def split: if_splits)

lemma linked_append:
  "linked h p (xs @ ys) n \<longleftrightarrow> linked h p xs (first_or ys n) \<and> linked h (last_or xs p) ys n"
  by (induction xs arbitrary: p) auto

lemma linked_cong:
  "(\<And>a. a \<in> set xs \<Longrightarrow> ePrev (h a) = ePrev (h' a) \<and> eNext (h a) = eNext (h' a))
   \<Longrightarrow> linked h p xs n = linked h' p xs n"
  by (induction xs arbitrary: p) auto

lemma linked_upd [simp]: "a \<notin> set xs \<Longrightarrow> linked (h(a := e)) p xs n = linked h p xs n"
  by (rule linked_cong) auto

lemma linked_set_next:
  assumes "linked h p (xs @ [b]) n" "b \<notin> set xs"
  shows "linked (h(b := (h b)\<lparr>eNext := n'\<rparr>)) p (xs @ [b]) n'"
  using assms by (simp add: linked_append)

lemma linked_set_prev:
  assumes "linked h p (b # xs) n" "b \<notin> set xs"
  shows "linked (h(b := (h b)\<lparr>ePrev := p'\<rparr>)) p' (b # xs) n"
  using assms by simp

lemma lru_push:
  assumes "lru_list s xs" "e \<notin> set xs"
  shows "lru_list (lruPushFrontLocked e s) (e # xs)"
proof (cases xs)
  case Nil
  then show ?thesis using assms
    by (simp add: lru_list_def lruPushFrontLocked_def upd_entry_def)
next
  case (Cons h ys)
  then show ?thesis using assms
    by (auto simp add: lru_list_def lruPushFrontLocked_def upd_entry_def Let_def)
qed

lemma lru_remove:
  assumes "lru_list s (xs @ e # ys)"
  shows "lru_list (lruRemoveLocked e s) (xs @ ys)"
proof -
  have L: "linked (heap s) None xs (Some e)" "linked (heap s) (Some e) ys None"
    "ePrev (heap s e) = last_or xs None" "eNext (heap s e) = first_or ys None"
    and D: "distinct xs" "distinct ys" "e \<notin> set xs" "e \<notin> set ys" "set xs \<inter> set ys = {}"
    and H: "lruHead s = first_or xs (Some e)" "lruTail s = last_or ys (Some e)"
    using assms by (auto simp: lru_list_def linked_append)
  show ?thesis
  proof (cases xs rule: rev_cases)
    case Nil
    show ?thesis
    proof (cases ys)
      case Nil
      with \<open>xs = []\<close> L D H show ?thesis
        by (simp add: lru_list_def lruRemoveLocked_def upd_entry_def)
    next
      case (Cons z zs)
      with \<open>xs = []\<close> L D H show ?thesis
        by (auto simp add: lru_list_def lruRemoveLocked_def upd_entry_def)
    qed
  next
    case (snoc ws b)
    show ?thesis
    proof (cases ys)
      case Nil
      with snoc L D H show ?thesis
        by (auto simp add: lru_list_def lruRemoveLocked_def upd_entry_def linked_append)
    next
      case (Cons z zs)
      with snoc L D H show ?thesis
        by (auto simp add: lru_list_def lruRemoveLocked_def upd_entry_def linked_append)
    qed
  qed
qed

lemma lru_move:
  assumes "lru_list s xs" "e \<in> set xs"
  shows "lru_list (lruMoveToFrontLocked e s) (e # remove1 e xs)"
proof (cases "lruHead s = Some e")
  case True
  with assms have "xs = e # tl xs"
    by (cases xs) (auto simp: lru_list_def)
  then have "e # remove1 e xs = xs" by (metis remove1.simps(2))
  then show ?thesis using True assms by (simp add: lruMoveToFrontLocked_def)
next
  case False
  obtain as bs where xs: "xs = as @ e # bs" "e \<notin> set as"
    using split_list_first [OF assms(2)] by blast
  have "e \<notin> set bs" using assms(1) xs by (auto simp: lru_list_def)
  moreover have "lru_list (lruRemoveLocked e s) (as @ bs)"
    using assms(1) xs lru_remove by blast
  ultimately show ?thesis
    using False xs lru_push [of _ "as @ bs" e]
    by (simp add: lruMoveToFrontLocked_def remove1_append)
qed

lemma lru_walk_find_aux:
  assumes "linked (heap s) None xs n" "length xs < fuel"
  shows "lru_walk fuel protect s (last_or xs None) = List.find (evictable s protect) (rev xs)"
  using assms
proof (induction xs arbitrary: fuel n rule: rev_induct)
  case Nil
  then show ?case by (cases fuel) auto
next
  case (snoc x xs)
  then obtain f where f: "fuel = Suc f" "length xs < f" by (cases fuel) auto
  from snoc.prems have "linked (heap s) None xs (Some x)" "ePrev (heap s x) = last_or xs None"
    by (auto simp: linked_append)
  with snoc.IH f show ?case by auto
qed

section \<open>What each primitive leaves alone\<close>

abbreviation same_data :: "entry \<Rightarrow> entry \<Rightarrow> bool" where
  "same_data x y \<equiv> eKey x = eKey y \<and> eValue x = eValue y \<and> eExpireAt x = eExpireAt y \<and> eSize x = eSize y
     \<and> eLastAccess x = eLastAccess y"

abbreviation same_config :: "shard \<Rightarrow> shard \<Rightarrow> bool" where
  "same_config s t \<equiv> nextAddr s = nextAddr t \<and> exactLRU s = exactLRU t \<and> budget s = budget t
     \<and> lowWater s = lowWater t \<and> policy s = policy t \<and> sampleK s = sampleK t \<and> batchMax s = batchMax t"

abbreviation same_counts :: "shard \<Rightarrow> shard \<Rightarrow> bool" where
  "same_counts s t \<equiv> hits s = hits t \<and> misses s = misses t \<and> evictions s = evictions t \<and> expired s = expired t
     \<and> rng s = rng t \<and> evicted s = evicted t"

named_theorems shard_frame

lemma lruPush_frame [shard_frame]:
  "same_config (lruPushFrontLocked e s) s" "same_counts (lruPushFrontLocked e s) s"
  "entries (lruPushFrontLocked e s) = entries s" "slots (lruPushFrontLocked e s) = slots s"
  "ttlSlots (lruPushFrontLocked e s) = ttlSlots s" "memBytes (lruPushFrontLocked e s) = memBytes s"
  by (auto simp add: lruPushFrontLocked_def upd_entry_def Let_def split: option.splits)

lemma lruPush_data [shard_frame]:
  "same_data (heap (lruPushFrontLocked e s) a) (heap s a)"
  "eSlot (heap (lruPushFrontLocked e s) a) = eSlot (heap s a)"
  "eTtlSlot (heap (lruPushFrontLocked e s) a) = eTtlSlot (heap s a)"
  by (auto simp add: lruPushFrontLocked_def upd_entry_def Let_def split: option.splits)

lemma lruRemove_frame [shard_frame]:
  "same_config (lruRemoveLocked e s) s" "same_counts (lruRemoveLocked e s) s"
  "entries (lruRemoveLocked e s) = entries s" "slots (lruRemoveLocked e s) = slots s"
  "ttlSlots (lruRemoveLocked e s) = ttlSlots s" "memBytes (lruRemoveLocked e s) = memBytes s"
  by (auto simp add: lruRemoveLocked_def upd_entry_def Let_def split: option.splits)

lemma lruRemove_data [shard_frame]:
  "same_data (heap (lruRemoveLocked e s) a) (heap s a)"
  "eSlot (heap (lruRemoveLocked e s) a) = eSlot (heap s a)"
  "eTtlSlot (heap (lruRemoveLocked e s) a) = eTtlSlot (heap s a)"
  by (auto simp add: lruRemoveLocked_def upd_entry_def Let_def split: option.splits)

lemma lruMove_frame [shard_frame]:
  "same_config (lruMoveToFrontLocked e s) s" "same_counts (lruMoveToFrontLocked e s) s"
  "entries (lruMoveToFrontLocked e s) = entries s" "slots (lruMoveToFrontLocked e s) = slots s"
  "ttlSlots (lruMoveToFrontLocked e s) = ttlSlots s" "memBytes (lruMoveToFrontLocked e s) = memBytes s"
  by (simp_all add: lruMoveToFrontLocked_def shard_frame)

lemma lruMove_data [shard_frame]:
  "same_data (heap (lruMoveToFrontLocked e s) a) (heap s a)"
  "eSlot (heap (lruMoveToFrontLocked e s) a) = eSlot (heap s a)"
  "eTtlSlot (heap (lruMoveToFrontLocked e s) a) = eTtlSlot (heap s a)"
  by (simp_all add: lruMoveToFrontLocked_def shard_frame)

lemma addTTL_frame [shard_frame]:
  "same_config (addTTLSlotLocked e s) s" "same_counts (addTTLSlotLocked e s) s"
  "entries (addTTLSlotLocked e s) = entries s" "slots (addTTLSlotLocked e s) = slots s"
  "memBytes (addTTLSlotLocked e s) = memBytes s"
  "lruHead (addTTLSlotLocked e s) = lruHead s" "lruTail (addTTLSlotLocked e s) = lruTail s"
  by (simp_all add: addTTLSlotLocked_def upd_entry_def)

lemma addTTL_data [shard_frame]:
  "same_data (heap (addTTLSlotLocked e s) a) (heap s a)"
  "eSlot (heap (addTTLSlotLocked e s) a) = eSlot (heap s a)"
  "ePrev (heap (addTTLSlotLocked e s) a) = ePrev (heap s a)"
  "eNext (heap (addTTLSlotLocked e s) a) = eNext (heap s a)"
  by (simp_all add: addTTLSlotLocked_def upd_entry_def)

lemma removeTTL_frame [shard_frame]:
  "same_config (removeTTLSlotLocked e s) s" "same_counts (removeTTLSlotLocked e s) s"
  "entries (removeTTLSlotLocked e s) = entries s" "slots (removeTTLSlotLocked e s) = slots s"
  "memBytes (removeTTLSlotLocked e s) = memBytes s"
  "lruHead (removeTTLSlotLocked e s) = lruHead s" "lruTail (removeTTLSlotLocked e s) = lruTail s"
  by (simp_all add: removeTTLSlotLocked_def upd_entry_def Let_def)

lemma removeTTL_data [shard_frame]:
  "same_data (heap (removeTTLSlotLocked e s) a) (heap s a)"
  "eSlot (heap (removeTTLSlotLocked e s) a) = eSlot (heap s a)"
  "ePrev (heap (removeTTLSlotLocked e s) a) = ePrev (heap s a)"
  "eNext (heap (removeTTLSlotLocked e s) a) = eNext (heap s a)"
  by (simp_all add: removeTTLSlotLocked_def upd_entry_def Let_def)

lemma removeSlot_frame [shard_frame]:
  "same_config (removeSlotLocked e s) s" "same_counts (removeSlotLocked e s) s"
  "entries (removeSlotLocked e s) = entries s" "memBytes (removeSlotLocked e s) = memBytes s"
  "lruHead (removeSlotLocked e s) = lruHead s" "lruTail (removeSlotLocked e s) = lruTail s"
  by (simp_all add: removeSlotLocked_def upd_entry_def Let_def shard_frame)

lemma removeSlot_data [shard_frame]:
  "same_data (heap (removeSlotLocked e s) a) (heap s a)"
  "ePrev (heap (removeSlotLocked e s) a) = ePrev (heap s a)"
  "eNext (heap (removeSlotLocked e s) a) = eNext (heap s a)"
  by (simp_all add: removeSlotLocked_def upd_entry_def Let_def shard_frame)

lemma addSlot_frame [shard_frame]:
  "same_config (addSlotLocked e s) s" "same_counts (addSlotLocked e s) s"
  "entries (addSlotLocked e s) = entries s" "memBytes (addSlotLocked e s) = memBytes s"
  "lruHead (addSlotLocked e s) = lruHead s" "lruTail (addSlotLocked e s) = lruTail s"
  "slots (addSlotLocked e s) = slots s @ [e]"
  by (simp_all add: addSlotLocked_def upd_entry_def Let_def)

lemma addSlot_data [shard_frame]:
  "same_data (heap (addSlotLocked e s) a) (heap s a)"
  "ePrev (heap (addSlotLocked e s) a) = ePrev (heap s a)"
  "eNext (heap (addSlotLocked e s) a) = eNext (heap s a)"
  by (simp_all add: addSlotLocked_def upd_entry_def Let_def)

section \<open>Effect of the slot operations\<close>

lemma removeTTL_effect:
  assumes "idx_ok (\<lambda>a. eTtlSlot (heap s a)) (ttlSlots s)"
    and "e \<in> set (ttlSlots s) \<or> eTtlSlot (heap s e) = - 1"
  shows "idx_ok (\<lambda>a. eTtlSlot (heap (removeTTLSlotLocked e s) a)) (ttlSlots (removeTTLSlotLocked e s))"
    and "set (ttlSlots (removeTTLSlotLocked e s)) = set (ttlSlots s) - {e}"
    and "eTtlSlot (heap (removeTTLSlotLocked e s) e) = - 1"
    and "a \<notin> set (ttlSlots s) \<Longrightarrow> a \<noteq> e \<Longrightarrow> eTtlSlot (heap (removeTTLSlotLocked e s) a) = eTtlSlot (heap s a)"
proof -
  let ?f = "\<lambda>a. eTtlSlot (heap s a)" and ?t = "removeTTLSlotLocked e s"
  have "idx_ok (\<lambda>a. eTtlSlot (heap ?t a)) (ttlSlots ?t) \<and> set (ttlSlots ?t) = set (ttlSlots s) - {e}
      \<and> eTtlSlot (heap ?t e) = - 1 \<and> (a \<notin> set (ttlSlots s) \<longrightarrow> a \<noteq> e \<longrightarrow> eTtlSlot (heap ?t a) = ?f a)"
  proof (cases "e \<in> set (ttlSlots s)")
    case True
    note e = idx_ok_memD [OF assms(1) True]
    let ?l = "ttlSlots s ! (length (ttlSlots s) - 1)"
    have l: "?l \<in> set (ttlSlots s)" using e(2) by (auto intro: nth_mem)
    have T: "ttlSlots ?t = swap_remove (nat (?f e)) (ttlSlots s)"
      and H: "\<And>a. eTtlSlot (heap ?t a) = ((?f(?l := ?f e))(e := - 1)) a"
      using e by (simp_all add: removeTTLSlotLocked_def upd_entry_def Let_def swap_remove_def)
    show ?thesis
      unfolding T H using idx_ok_swap_remove [OF assms(1) True, of "- 1"] e l
        set_swap_remove [OF idx_ok_distinct [OF assms(1)] e(2)] by (auto simp: fun_upd_def)
  next
    case False
    with assms(2) have "?f e = - 1" by simp
    then show ?thesis using False assms(1)
      by (auto simp: removeTTLSlotLocked_def upd_entry_def Let_def idx_ok_def)
  qed
  then show "idx_ok (\<lambda>a. eTtlSlot (heap ?t a)) (ttlSlots ?t)" "set (ttlSlots ?t) = set (ttlSlots s) - {e}"
    "eTtlSlot (heap ?t e) = - 1" "a \<notin> set (ttlSlots s) \<Longrightarrow> a \<noteq> e \<Longrightarrow> eTtlSlot (heap ?t a) = ?f a"
    by blast+
qed

lemma addTTL_effect:
  assumes "idx_ok (\<lambda>a. eTtlSlot (heap s a)) (ttlSlots s)" "eTtlSlot (heap s e) = - 1"
    and "length (ttlSlots s) < 2 ^ 31"
  shows "idx_ok (\<lambda>a. eTtlSlot (heap (addTTLSlotLocked e s) a)) (ttlSlots (addTTLSlotLocked e s))"
    and "set (ttlSlots (addTTLSlotLocked e s)) = insert e (set (ttlSlots s))"
    and "a \<noteq> e \<Longrightarrow> eTtlSlot (heap (addTTLSlotLocked e s) a) = eTtlSlot (heap s a)"
proof -
  have "e \<notin> set (ttlSlots s)"
    using idx_ok_memD(1) [OF assms(1), of e] assms(2) by auto
  from idx_ok_snoc [OF assms(1) this]
  show "idx_ok (\<lambda>a. eTtlSlot (heap (addTTLSlotLocked e s) a)) (ttlSlots (addTTLSlotLocked e s))"
    using assms(2,3)
    by (auto simp: addTTLSlotLocked_def upd_entry_def to_int32_small fun_upd_def elim!: idx_ok_cong [THEN iffD1, rotated])
qed (use assms in \<open>auto simp: addTTLSlotLocked_def upd_entry_def\<close>)

end
