(* ===== verification/Shard_Inv.thy ===== *)
theory Shard_Inv
  imports Shard_Lemmas
begin

text \<open>
  The shard invariant and what every operation does to the key space. \<open>shard_abs\<close> reads a
  shard as a finite map from keys to value and deadline; each operation is shown to keep the
  invariant and to have its stated effect on that map, on the memory counter and on the list of
  eviction callbacks.
\<close>

section \<open>Invariant and abstraction\<close>

definition shard_abs :: "shard \<Rightarrow> bytes \<Rightarrow> (bytes \<times> u64) option" where
  "shard_abs s k = map_option (\<lambda>a. (eValue (heap s a), eExpireAt (heap s a))) (map_of (entries s) k)"

definition wf_map :: "shard \<Rightarrow> bool" where
  "wf_map s \<longleftrightarrow> distinct (map fst (entries s)) \<and> snd ` set (entries s) = set (slots s)
     \<and> (\<forall>x \<in> set (entries s). eKey (heap s (snd x)) = fst x)"

definition wf_slots :: "shard \<Rightarrow> bool" where
  "wf_slots s \<longleftrightarrow> idx_ok (\<lambda>a. eSlot (heap s a)) (slots s) \<and> length (slots s) < 2 ^ 31
     \<and> (\<forall>a \<in> set (slots s). a < nextAddr s)"

definition wf_ttl :: "shard \<Rightarrow> bool" where
  "wf_ttl s \<longleftrightarrow> idx_ok (\<lambda>a. eTtlSlot (heap s a)) (ttlSlots s)
     \<and> set (ttlSlots s) = {a \<in> set (slots s). eExpireAt (heap s a) \<noteq> 0}
     \<and> (\<forall>a \<in> set (slots s). eExpireAt (heap s a) = 0 \<longrightarrow> eTtlSlot (heap s a) = - 1)"

definition wf_mem :: "shard \<Rightarrow> bool" where
  "wf_mem s \<longleftrightarrow> memBytes s = (\<Sum>a \<in> set (slots s). entry_Size (heap s a))
     \<and> (\<forall>a \<in> set (slots s). entry_Size (heap s a)
          = EntryCost (length (eKey (heap s a))) (length (eValue (heap s a))))"

definition wf_lru :: "shard \<Rightarrow> bool" where
  "wf_lru s \<longleftrightarrow> (exactLRU s \<longrightarrow> (\<exists>xs. lru_list s xs \<and> set xs = set (slots s)))"

definition wf_shard :: "shard \<Rightarrow> bool" where
  "wf_shard s \<longleftrightarrow> wf_map s \<and> wf_slots s \<and> wf_ttl s \<and> wf_mem s \<and> wf_lru s"

lemmas wf_defs = wf_map_def wf_slots_def wf_ttl_def wf_mem_def wf_lru_def

lemma wf_shardD:
  assumes "wf_shard s"
  shows "wf_map s" "wf_slots s" "wf_ttl s" "wf_mem s" "wf_lru s"
  using assms by (simp_all add: wf_shard_def)

lemma wf_mapD:
  assumes "wf_map s"
  shows "distinct (map fst (entries s))" "snd ` set (entries s) = set (slots s)"
    "(k, a) \<in> set (entries s) \<Longrightarrow> eKey (heap s a) = k"
  using assms unfolding wf_map_def by (blast, blast, metis fst_conv snd_conv)

lemma wf_key:
  assumes "wf_map s" "map_of (entries s) k = Some a"
  shows "eKey (heap s a) = k" "a \<in> set (slots s)"
proof -
  note ka = map_of_SomeD [OF assms(2)]
  then show "eKey (heap s a) = k" by (rule wf_mapD(3) [OF assms(1)])
  have "snd (k, a) \<in> snd ` set (entries s)" using ka by (rule imageI)
  then show "a \<in> set (slots s)" using assms(1) by (simp add: wf_map_def)
qed

lemma wf_slot_key:
  assumes "wf_map s" "a \<in> set (slots s)"
  shows "map_of (entries s) (eKey (heap s a)) = Some a"
proof -
  have "a \<in> snd ` set (entries s)" using assms by (simp add: wf_map_def)
  then obtain k where ka: "(k, a) \<in> set (entries s)" by auto
  then have "eKey (heap s a) = k" by (rule wf_mapD(3) [OF assms(1)])
  then show ?thesis using map_of_is_SomeI [OF wf_mapD(1) [OF assms(1)] ka] by simp
qed

lemma wf_slot_inj:
  assumes "wf_map s" "a \<in> set (slots s)" "b \<in> set (slots s)" "eKey (heap s a) = eKey (heap s b)"
  shows "a = b"
proof -
  have "Some a = Some b"
    using wf_slot_key [OF assms(1,2)] wf_slot_key [OF assms(1,3)] unfolding assms(4) by (rule trans [OF sym])
  then show ?thesis by (rule option.inject [THEN iffD1])
qed

lemma wf_len:
  assumes "wf_map s" "wf_slots s"
  shows "length (entries s) = length (slots s)"
proof -
  have d: "distinct (slots s)"
    using assms(2) idx_ok_distinct by (auto simp: wf_slots_def)
  have k: "eKey (heap s a) = k" if "(k, a) \<in> set (entries s)" for k a
    using that by (rule wf_mapD(3) [OF assms(1)])
  have "inj_on snd (set (entries s))"
    by (rule inj_onI) (metis k prod.collapse)
  then have "card (snd ` set (entries s)) = card (set (entries s))" by (rule card_image)
  then show ?thesis
    using wf_mapD(1,2) [OF assms(1)] d distinct_card [of "entries s"] distinct_card [of "slots s"]
    by (simp add: distinct_map)
qed

lemma shard_abs_cong:
  assumes "entries t = entries s"
    and "\<And>a. a \<in> snd ` set (entries s) \<Longrightarrow> eValue (heap t a) = eValue (heap s a) \<and> eExpireAt (heap t a) = eExpireAt (heap s a)"
  shows "shard_abs t = shard_abs s"
proof
  fix k
  show "shard_abs t k = shard_abs s k"
  proof (cases "map_of (entries s) k")
    case (Some a)
    then have "a \<in> snd ` set (entries s)" by (force dest: map_of_SomeD)
    with assms Some show ?thesis by (simp add: shard_abs_def)
  qed (simp add: shard_abs_def assms(1))
qed

lemma wf_lru_cong:
  assumes "wf_lru s" "exactLRU t = exactLRU s" "lruHead t = lruHead s" "lruTail t = lruTail s"
    "set (slots t) = set (slots s)"
    "\<And>a. ePrev (heap t a) = ePrev (heap s a) \<and> eNext (heap t a) = eNext (heap s a)"
  shows "wf_lru t"
  using assms linked_cong [of _ "heap t" "heap s"] by (fastforce simp: wf_lru_def lru_list_def)

text \<open>States that agree on everything the invariant reads.\<close>

definition shard_sim :: "shard \<Rightarrow> shard \<Rightarrow> bool" where
  "shard_sim t s \<longleftrightarrow> entries t = entries s \<and> slots t = slots s \<and> ttlSlots t = ttlSlots s
     \<and> lruHead t = lruHead s \<and> lruTail t = lruTail s \<and> memBytes t = memBytes s
     \<and> same_config t s
     \<and> (\<forall>a. heap t a = (heap s a)\<lparr>eLastAccess := eLastAccess (heap t a)\<rparr>)"

lemma shard_simD:
  assumes "shard_sim t s"
  shows "eKey (heap t a) = eKey (heap s a)" "eValue (heap t a) = eValue (heap s a)"
    "eExpireAt (heap t a) = eExpireAt (heap s a)" "eSize (heap t a) = eSize (heap s a)"
    "eSlot (heap t a) = eSlot (heap s a)" "eTtlSlot (heap t a) = eTtlSlot (heap s a)"
    "ePrev (heap t a) = ePrev (heap s a)" "eNext (heap t a) = eNext (heap s a)"
proof -
  have "heap t a = (heap s a)\<lparr>eLastAccess := eLastAccess (heap t a)\<rparr>"
    using assms unfolding shard_sim_def by blast
  then obtain l where "heap t a = (heap s a)\<lparr>eLastAccess := l\<rparr>" by blast
  then show "eKey (heap t a) = eKey (heap s a)" "eValue (heap t a) = eValue (heap s a)"
    "eExpireAt (heap t a) = eExpireAt (heap s a)" "eSize (heap t a) = eSize (heap s a)"
    "eSlot (heap t a) = eSlot (heap s a)" "eTtlSlot (heap t a) = eTtlSlot (heap s a)"
    "ePrev (heap t a) = ePrev (heap s a)" "eNext (heap t a) = eNext (heap s a)"
    by simp_all
qed

lemma shard_sim_refl [simp]: "shard_sim s s"
  by (simp add: shard_sim_def)

lemma shard_sim_fields:
  assumes "shard_sim t s"
  shows "entries t = entries s" "slots t = slots s" "ttlSlots t = ttlSlots s" "memBytes t = memBytes s"
    "lruHead t = lruHead s" "lruTail t = lruTail s" "same_config t s"
  using assms by (simp_all add: shard_sim_def)

lemma shard_sim_wf: "shard_sim t s \<Longrightarrow> wf_shard s \<Longrightarrow> wf_shard t"
  unfolding wf_shard_def
  by (intro conjI; (rule wf_lru_cong [of s])?)
    (auto simp: shard_simD shard_sim_fields wf_map_def wf_slots_def wf_ttl_def wf_mem_def entry_Size_def)

lemma shard_sim_abs: "shard_sim t s \<Longrightarrow> shard_abs t = shard_abs s"
  by (rule shard_abs_cong) (simp_all add: shard_simD shard_sim_fields)

section \<open>Removing an entry\<close>

lemma removeSlot_effect:
  assumes "wf_slots s" "wf_ttl s" "e \<in> set (slots s)"
  shows "idx_ok (\<lambda>a. eSlot (heap (removeSlotLocked e s) a)) (slots (removeSlotLocked e s))"
    and "set (slots (removeSlotLocked e s)) = set (slots s) - {e}"
    and "length (slots (removeSlotLocked e s)) = length (slots s) - 1"
    and "eSlot (heap (removeSlotLocked e s) e) = - 1"
    and "wf_ttl (removeSlotLocked e s)"
proof -
  have ix: "idx_ok (\<lambda>a. eSlot (heap s a)) (slots s)" using assms(1) by (simp add: wf_slots_def)
  note e = idx_ok_memD [OF ix assms(3)]
  let ?f = "\<lambda>a. eSlot (heap s a)" and ?l = "slots s ! (length (slots s) - 1)"
  let ?s1 = "upd_entry e (eSlot_update (\<lambda>_. - 1)) ((upd_entry ?l (eSlot_update (\<lambda>_. ?f e)) s)
                \<lparr>slots := swap_remove (nat (?f e)) (slots s)\<rparr>)"
  let ?t = "removeSlotLocked e s"
  have t: "?t = removeTTLSlotLocked e ?s1"
    using e by (simp add: removeSlotLocked_def swap_remove_def Let_def)
  have S: "slots ?t = swap_remove (nat (?f e)) (slots s)"
    unfolding t by (simp add: shard_frame upd_entry_def)
  have H: "eSlot (heap ?t a) = ((?f(?l := ?f e))(e := - 1)) a" for a
    unfolding t by (simp add: shard_frame upd_entry_def)
  show "idx_ok (\<lambda>a. eSlot (heap ?t a)) (slots ?t)" "eSlot (heap ?t e) = - 1"
    "length (slots ?t) = length (slots s) - 1"
    unfolding H S using idx_ok_swap_remove [OF ix assms(3), of "- 1"] by (simp_all add: fun_upd_def)
  show ss: "set (slots ?t) = set (slots s) - {e}"
    unfolding S using set_swap_remove [OF idx_ok_distinct [OF ix] e(2)] e(3) by simp
  have T: "eTtlSlot (heap ?s1 a) = eTtlSlot (heap s a)" "eExpireAt (heap ?s1 a) = eExpireAt (heap s a)"
    "ttlSlots ?s1 = ttlSlots s" for a
    by (simp_all add: upd_entry_def)
  have it: "idx_ok (\<lambda>a. eTtlSlot (heap ?s1 a)) (ttlSlots ?s1)"
    and me: "e \<in> set (ttlSlots ?s1) \<or> eTtlSlot (heap ?s1 e) = - 1"
    using assms(2,3) unfolding T by (auto simp: wf_ttl_def)
  note R = removeTTL_effect [OF it me, folded t, unfolded T]
  show "wf_ttl ?t"
    using R assms(2) ss unfolding wf_ttl_def
    by (auto simp: shard_frame removeSlot_data)
qed

lemma removeEntry_frame [shard_frame]:
  "same_config (removeEntryLocked e s) s" "same_counts (removeEntryLocked e s) s"
  "entries (removeEntryLocked e s) = AList.delete (eKey (heap s e)) (entries s)"
  "memBytes (removeEntryLocked e s) = memBytes s - entry_Size (heap s e)"
  "same_data (heap (removeEntryLocked e s) a) (heap s a)"
  by (auto simp: removeEntryLocked_def Let_def shard_frame entry_Size_def)

lemma removeEntry_slots:
  assumes "wf_shard s" "e \<in> set (slots s)"
  shows "set (slots (removeEntryLocked e s)) = set (slots s) - {e}"
    and "length (slots (removeEntryLocked e s)) = length (slots s) - 1"
    and "eSlot (heap (removeEntryLocked e s) e) = - 1"
    and "wf_slots (removeEntryLocked e s)" "wf_ttl (removeEntryLocked e s)"
proof -
  let ?s = "s\<lparr>entries := AList.delete (eKey (heap s e)) (entries s)\<rparr>"
  have w: "wf_slots ?s" "wf_ttl ?s" "e \<in> set (slots ?s)"
    using assms by (simp_all add: wf_shard_def wf_slots_def wf_ttl_def)
  note R = removeSlot_effect [OF w]
  let ?t = "removeEntryLocked e s"
  have f: "slots ?t = slots (removeSlotLocked e ?s)" "ttlSlots ?t = ttlSlots (removeSlotLocked e ?s)"
    "eSlot (heap ?t a) = eSlot (heap (removeSlotLocked e ?s) a)"
    "eTtlSlot (heap ?t a) = eTtlSlot (heap (removeSlotLocked e ?s) a)"
    "eExpireAt (heap ?t a) = eExpireAt (heap (removeSlotLocked e ?s) a)" for a
    by (simp_all add: removeEntryLocked_def Let_def shard_frame)
  show "set (slots ?t) = set (slots s) - {e}" "length (slots ?t) = length (slots s) - 1"
    "eSlot (heap ?t e) = - 1" "wf_ttl ?t"
    using R by (simp_all add: f wf_ttl_def)
  show "wf_slots ?t"
    using R w(1) by (auto simp: f wf_slots_def shard_frame)
qed

lemma removeEntry_lru:
  assumes "wf_shard s" "e \<in> set (slots s)"
  shows "wf_lru (removeEntryLocked e s)"
proof (cases "exactLRU s")
  case True
  then obtain xs where xs: "lru_list s xs" "set xs = set (slots s)"
    using assms(1) by (auto simp: wf_shard_def wf_lru_def)
  with assms(2) obtain as bs where ab: "xs = as @ e # bs" by (metis split_list)
  have d: "e \<notin> set as" "e \<notin> set bs" using xs(1) ab by (auto simp: lru_list_def)
  let ?s1 = "removeSlotLocked e (s\<lparr>entries := AList.delete (eKey (heap s e)) (entries s)\<rparr>)"
  have "linked (heap ?s1) None xs None = linked (heap s) None xs None"
    by (rule linked_cong) (simp add: shard_frame)
  then have "lru_list ?s1 (as @ e # bs)"
    using xs(1) ab by (auto simp: lru_list_def shard_frame)
  then have "lru_list (lruRemoveLocked e ?s1) (as @ bs)" by (rule lru_remove)
  then have "lru_list (removeEntryLocked e s) (as @ bs)"
    using True by (simp add: removeEntryLocked_def Let_def shard_frame lru_list_def)
  moreover have "set (as @ bs) = set (slots (removeEntryLocked e s))"
    using xs(2) ab d removeEntry_slots(1) [OF assms] by auto
  ultimately show ?thesis unfolding wf_lru_def by blast
qed (simp add: wf_lru_def shard_frame)

lemma removeEntry_mem:
  assumes "wf_shard s" "e \<in> set (slots s)"
  shows "wf_mem (removeEntryLocked e s)"
proof -
  let ?t = "removeEntryLocked e s"
  have sz: "entry_Size (heap ?t a) = entry_Size (heap s a)" for a
    by (simp add: entry_Size_def shard_frame)
  have "(\<Sum>a \<in> set (slots s). entry_Size (heap s a))
      = entry_Size (heap s e) + (\<Sum>a \<in> set (slots s) - {e}. entry_Size (heap s a))"
    by (rule sum.remove) (use assms in auto)
  then show ?thesis
    using assms removeEntry_slots(1) [OF assms]
    by (auto simp: wf_shard_def wf_mem_def sz shard_frame)
qed

lemma removeEntry_map:
  assumes "wf_shard s" "e \<in> set (slots s)"
  shows "wf_map (removeEntryLocked e s)"
proof -
  note m = wf_shardD(1) [OF assms(1)]
  have k: "\<forall>x \<in> set (entries s). eKey (heap s (snd x)) = fst x"
    using m by (simp add: wf_map_def)
  have "set (AList.delete (eKey (heap s e)) (entries s))
      = {x \<in> set (entries s). eKey (heap s (snd x)) \<noteq> eKey (heap s e)}"
    using k by (auto simp: AList.delete_eq)
  then have "snd ` set (AList.delete (eKey (heap s e)) (entries s))
      = {a \<in> snd ` set (entries s). eKey (heap s a) \<noteq> eKey (heap s e)}"
    by blast
  also have "\<dots> = set (slots s) - {e}"
    unfolding wf_mapD(2) [OF m] using wf_slot_inj [OF m _ assms(2)] assms(2) by blast
  finally have "snd ` set (AList.delete (eKey (heap s e)) (entries s)) = set (slots s) - {e}" .
  moreover have "distinct (map fst (AList.delete (eKey (heap s e)) (entries s)))"
    using wf_mapD(1) [OF m] by (rule AList.distinct_delete)
  moreover have "\<forall>x \<in> set (AList.delete (eKey (heap s e)) (entries s)). eKey (heap s (snd x)) = fst x"
    using m unfolding wf_map_def AList.delete_eq by simp
  ultimately show ?thesis
    unfolding wf_map_def using removeEntry_slots(1) [OF assms] by (simp add: shard_frame)
qed

lemma removeEntry_wf:
  "wf_shard s \<Longrightarrow> e \<in> set (slots s) \<Longrightarrow> wf_shard (removeEntryLocked e s)"
  using removeEntry_map removeEntry_slots removeEntry_mem removeEntry_lru by (auto simp: wf_shard_def)

lemma removeEntry_abs:
  "shard_abs (removeEntryLocked e s) = (shard_abs s)(eKey (heap s e) := None)"
  by (rule ext) (auto simp: shard_abs_def shard_frame AList.delete_conv')

end
