(* ===== verification/Shard_Ops.thy ===== *)
theory Shard_Ops
  imports Shard_Inv
begin

text \<open>
  Correctness of the shard operations: the victim choice, eviction and admission under a memory
  budget, insertion and overwrite, deletion, deadline changes, the sampled expiry round and lazy
  reaping. The invariant is carried through every operation a shard can execute, in any order.
\<close>

section \<open>Removals made by the store itself\<close>

text \<open>
  \<open>shrinks s t L\<close>: \<open>t\<close> is \<open>s\<close> after removing exactly the keys reported to
  \<^verbatim>\<open>onEvict\<close> in \<open>L\<close>.
\<close>

definition shrinks :: "shard \<Rightarrow> shard \<Rightarrow> (bytes \<times> EvictReason) list \<Rightarrow> bool" where
  "shrinks s t L \<longleftrightarrow> wf_shard t \<and> same_config t s \<and> evicted t = evicted s @ L
     \<and> shard_abs t = shard_abs s |` (- (fst ` set L)) \<and> fst ` set L \<subseteq> dom (shard_abs s)
     \<and> set (slots t) \<subseteq> set (slots s) \<and> length (slots t) \<le> length (slots s)
     \<and> (\<forall>a. same_data (heap t a) (heap s a)) \<and> memBytes t \<le> memBytes s"

lemma restrict_map_UNIV [simp]: "m |` UNIV = m"
  by (auto simp: restrict_map_def)

lemma shrinks_refl: "wf_shard s \<Longrightarrow> shrinks s s []"
  by (simp add: shrinks_def)

lemma shrinks_rng: "wf_shard s \<Longrightarrow> shrinks s (s\<lparr>rng := r\<rparr>) []"
proof -
  assume "wf_shard s"
  moreover have "shard_sim (s\<lparr>rng := r\<rparr>) s" by (simp add: shard_sim_def)
  ultimately show ?thesis
    using shard_sim_wf shard_sim_abs by (auto simp: shrinks_def)
qed

lemma shrinks_trans:
  assumes "shrinks s t L" "shrinks t u M"
  shows "shrinks s u (L @ M)"
proof -
  have "shard_abs u = shard_abs s |` (- (fst ` set (L @ M)))"
    using assms by (auto simp: shrinks_def restrict_restrict image_Un Compl_Un)
  moreover have "fst ` set (L @ M) \<subseteq> dom (shard_abs s)"
    using assms by (auto simp: shrinks_def)
  ultimately show ?thesis using assms unfolding shrinks_def by auto
qed

lemma entry_Size_nonneg [simp]: "0 \<le> entry_Size e"
  by (simp add: entry_Size_def)

lemma counters_sim [simp]:
  "shard_sim (s\<lparr>evictions := x\<rparr>) s" "shard_sim (s\<lparr>expired := x\<rparr>) s"
  "shard_sim (s\<lparr>evicted := y\<rparr>) s" "shard_sim (s\<lparr>hits := x\<rparr>) s" "shard_sim (s\<lparr>misses := x\<rparr>) s"
  "shard_sim (s\<lparr>rng := x\<rparr>) s"
  by (simp_all add: shard_sim_def)

lemma slots_dom:
  assumes "wf_shard s" "e \<in> set (slots s)"
  shows "shard_abs s (eKey (heap s e)) = Some (eValue (heap s e), eExpireAt (heap s e))"
  using wf_slot_key [OF wf_shardD(1) [OF assms(1)] assms(2)] by (simp add: shard_abs_def)

text \<open>Removing one entry, bumping a counter and calling \<^verbatim>\<open>onEvict\<close>.\<close>

lemma remove_fire_shrinks:
  assumes "wf_shard s" "e \<in> set (slots s)" "shard_sim u (removeEntryLocked e s)"
    "evicted u = evicted s" "\<And>a. eLastAccess (heap u a) = eLastAccess (heap s a)"
  shows "shrinks s (fire_onEvict (eKey (heap s e)) r u) [(eKey (heap s e), r)]"
proof -
  have "shard_sim (fire_onEvict (eKey (heap s e)) r u) u"
    by (simp add: fire_onEvict_def)
  then have w: "wf_shard (fire_onEvict (eKey (heap s e)) r u)"
    and a: "shard_abs (fire_onEvict (eKey (heap s e)) r u) = (shard_abs s)(eKey (heap s e) := None)"
    using assms removeEntry_wf removeEntry_abs shard_sim_wf shard_sim_abs by metis+
  note f = shard_sim_fields [OF assms(3)] shard_simD [OF assms(3)]
  have "(shard_abs s)(eKey (heap s e) := None) = shard_abs s |` (- {eKey (heap s e)})"
    by (auto simp: restrict_map_def)
  then show ?thesis
    unfolding shrinks_def
    using w a f assms removeEntry_slots [OF assms(1,2)] slots_dom [OF assms(1,2)]
    by (auto simp: fire_onEvict_def shard_frame)
qed

lemma expire_remove_shrinks:
  assumes "wf_shard s" "e \<in> set (slots s)"
  shows "shrinks s (expire_remove e s) [(eKey (heap s e), ReasonExpired)]"
  unfolding expire_remove_def Let_def
  by (rule remove_fire_shrinks [OF assms]) (simp_all add: shard_frame)

section \<open>Choosing a victim\<close>

fun drawn :: "nat \<Rightarrow> addr list \<Rightarrow> u64 \<Rightarrow> addr list" where
  "drawn 0 pool st = []"
| "drawn (Suc n) pool st = (pool ! fst (intn st (length pool))) # drawn n pool (snd (intn st (length pool)))"

lemma drawn_subset:
  assumes "pool \<noteq> []" "length pool < 2 ^ 64"
  shows "set (drawn n pool st) \<subseteq> set pool"
  using assms fst_intn_less [of "length pool"] by (induction n arbitrary: st) auto

lemma sample_loop_state: "\<exists>r. snd (sample_loop n pool p s best) = s\<lparr>rng := r\<rparr>"
proof (induction n arbitrary: s best)
  case 0
  have "s = s\<lparr>rng := rng s\<rparr>" by simp
  then show ?case by (metis sample_loop.simps(1) snd_conv)
next
  case (Suc n)
  obtain i st where "intn (rng s) (length pool) = (i, st)" by force
  then show ?case using Suc [of "s\<lparr>rng := st\<rparr>"] by (simp add: Let_def)
qed

text \<open>One sampling step on the best candidate so far.\<close>

definition better :: "(addr \<Rightarrow> entry) \<Rightarrow> bytes \<Rightarrow> addr \<Rightarrow> (addr \<times> u64) option \<Rightarrow> (addr \<times> u64) option" where
  "better h p c best =
     (if eKey (h c) = p then best
      else case best of None \<Rightarrow> Some (c, eLastAccess (h c))
           | Some (b, a) \<Rightarrow> if eLastAccess (h c) < a then Some (c, eLastAccess (h c)) else best)"

lemma sample_loop_fold:
  "fst (sample_loop n pool p s best) = fold (better (heap s) p) (drawn n pool (rng s)) best"
proof (induction n arbitrary: s best)
  case (Suc n)
  obtain i st where "intn (rng s) (length pool) = (i, st)" by force
  then have "sample_loop (Suc n) pool p s best
      = sample_loop n pool p (s\<lparr>rng := st\<rparr>) (better (heap s) p (pool ! i) best)"
    by (cases best) (auto simp: Let_def better_def)
  then show ?case using Suc \<open>intn (rng s) (length pool) = (i, st)\<close> by simp
qed simp

lemma fold_better_None:
  "fold (better h p) cs best = None \<longleftrightarrow> best = None \<and> (\<forall>c \<in> set cs. eKey (h c) = p)"
  by (induction cs arbitrary: best) (auto simp: better_def split: option.splits)

lemma fold_better_origin:
  assumes "fold (better h p) cs best = Some (b, a)"
  shows "best = Some (b, a) \<or> b \<in> set cs \<and> eKey (h b) \<noteq> p \<and> a = eLastAccess (h b)"
  using assms
proof (induction cs arbitrary: best)
  case (Cons c cs)
  then have "better h p c best = Some (b, a) \<or> b \<in> set cs \<and> eKey (h b) \<noteq> p \<and> a = eLastAccess (h b)"
    by simp
  then show ?case by (auto simp: better_def split: if_splits option.splits)
qed simp

lemma better_le:
  "\<exists>b1 a1. better h p c (Some (b, a)) = Some (b1, a1) \<and> a1 \<le> a"
  "eKey (h c) \<noteq> p \<Longrightarrow> \<exists>b1 a1. better h p c best = Some (b1, a1) \<and> a1 \<le> eLastAccess (h c)"
  by (auto simp: better_def split: option.splits)

lemma fold_better_min:
  assumes "fold (better h p) cs best = Some (b, a)"
  shows "(\<forall>b' a'. best = Some (b', a') \<longrightarrow> a \<le> a') \<and> (\<forall>c \<in> set cs. eKey (h c) \<noteq> p \<longrightarrow> a \<le> eLastAccess (h c))"
  using assms
proof (induction cs arbitrary: best)
  case (Cons c cs)
  then have IH: "\<And>b' a'. better h p c best = Some (b', a') \<Longrightarrow> a \<le> a'"
    "\<forall>c \<in> set cs. eKey (h c) \<noteq> p \<longrightarrow> a \<le> eLastAccess (h c)"
    by simp_all
  have "a \<le> a'" if "best = Some (b', a')" for b' a'
    using IH(1) better_le(1) [of h p c b' a'] that by (metis order_trans)
  moreover have "a \<le> eLastAccess (h c)" if "eKey (h c) \<noteq> p"
    using IH(1) better_le(2) [of h c p best] that by (metis order_trans)
  ultimately show ?case using IH(2) by simp
qed simp

lemma evict_pool_evictable:
  assumes "wf_shard s"
  shows "set (evict_pool s) \<subseteq> set (slots s)" "length (evict_pool s) < 2 ^ 64"
    and "c \<in> set (evict_pool s) \<and> eKey (heap s c) \<noteq> p \<longleftrightarrow> c \<in> set (slots s) \<and> evictable s p c"
proof -
  have t: "set (ttlSlots s) = {a \<in> set (slots s). eExpireAt (heap s a) \<noteq> 0}" "distinct (ttlSlots s)"
    "distinct (slots s)" "length (slots s) < 2 ^ 31"
    using assms idx_ok_distinct by (auto simp: wf_shard_def wf_ttl_def wf_slots_def)
  then show s: "set (evict_pool s) \<subseteq> set (slots s)" by (auto simp: evict_pool_def)
  have "distinct (evict_pool s)" using t by (simp add: evict_pool_def)
  then have "length (evict_pool s) \<le> length (slots s)"
    using card_mono [OF _ s] t by (simp add: distinct_card)
  then show "length (evict_pool s) < 2 ^ 64" using t(4) by simp
  show "c \<in> set (evict_pool s) \<and> eKey (heap s c) \<noteq> p \<longleftrightarrow> c \<in> set (slots s) \<and> evictable s p c"
    using t(1) by (auto simp: evict_pool_def evictable_def)
qed

lemma pickVictim_exact:
  assumes "wf_shard s" "exactLRU s"
  obtains xs where "lru_list s xs" "set xs = set (slots s)"
    "pickVictimLocked p s = (List.find (evictable s p) (rev xs), s)"
proof -
  from assms obtain xs where xs: "lru_list s xs" "set xs = set (slots s)"
    by (auto simp: wf_shard_def wf_lru_def)
  have "distinct (slots s)" using assms(1) idx_ok_distinct by (auto simp: wf_shard_def wf_slots_def)
  then have "length xs = length (slots s)"
    using xs by (metis distinct_card lru_list_def)
  then have "lru_walk (Suc (length (slots s))) p s (last_or xs None) = List.find (evictable s p) (rev xs)"
    using xs(1) by (intro lru_walk_find_aux) (auto simp: lru_list_def)
  then have "pickVictimLocked p s = (List.find (evictable s p) (rev xs), s)"
    using xs(1) assms(2) by (simp add: pickVictimLocked_def lru_list_def)
  with xs show ?thesis by (rule that)
qed

lemma pickVictim_state: "\<exists>r. snd (pickVictimLocked p s) = s\<lparr>rng := r\<rparr>"
proof -
  have "s = s\<lparr>rng := rng s\<rparr>" by simp
  then have "\<exists>r. s = s\<lparr>rng := r\<rparr>" by blast
  then show ?thesis
    using sample_loop_state [of "sampleK s" "evict_pool s" p s None]
    by (auto simp: pickVictimLocked_def split: prod.splits option.splits)
qed

lemma find_SomeD: "List.find P xs = Some x \<Longrightarrow> x \<in> set xs \<and> P x"
  by (induction xs) (auto split: if_splits)

lemma find_spec:
  "List.find P xs = Some v \<Longrightarrow> v \<in> set xs \<and> P v" "List.find P xs = None \<Longrightarrow> \<forall>x \<in> set xs. \<not> P x"
  using find_SomeD [of P xs v] find_None_iff [of P xs] by blast+

lemma pickVictim_sampled:
  assumes "wf_shard s" "\<not> exactLRU s" "evict_pool s \<noteq> []"
  shows "fst (pickVictimLocked p s) =
    (case fold (better (heap s) p) (drawn (sampleK s) (evict_pool s) (rng s)) None of
       Some (b, _) \<Rightarrow> Some b
     | None \<Rightarrow> List.find (\<lambda>c. eKey (heap s c) \<noteq> p) (evict_pool s))"
proof -
  obtain r t where rt: "sample_loop (sampleK s) (evict_pool s) p s None = (r, t)" by force
  then obtain x where "t = s\<lparr>rng := x\<rparr>"
    using sample_loop_state [of "sampleK s" "evict_pool s" p s None] by auto
  then have t: "heap t = heap s" "evict_pool t = evict_pool s"
    by (simp_all add: evict_pool_def)
  have "r = fold (better (heap s) p) (drawn (sampleK s) (evict_pool s) (rng s)) None"
    using rt sample_loop_fold [of "sampleK s" "evict_pool s" p s None] by simp
  then show ?thesis
    using assms(2,3) rt t by (simp add: pickVictimLocked_def split: option.split)
qed

lemma pickVictim_Some:
  assumes "wf_shard s" "fst (pickVictimLocked p s) = Some v"
  shows "v \<in> set (slots s)" "evictable s p v"
proof -
  note ep = evict_pool_evictable [OF assms(1)]
  consider "exactLRU s" | "\<not> exactLRU s" "evict_pool s = []" | "\<not> exactLRU s" "evict_pool s \<noteq> []" by blast
  then have "v \<in> set (slots s) \<and> evictable s p v"
  proof cases
    case 1
    obtain xs where xs: "lru_list s xs" "set xs = set (slots s)"
      "pickVictimLocked p s = (List.find (evictable s p) (rev xs), s)"
      by (rule pickVictim_exact [OF assms(1) 1])
    then have "List.find (evictable s p) (rev xs) = Some v" using assms(2) by (simp only: fst_conv)
    then show ?thesis using find_spec(1) xs(2) by fastforce
  next
    case 2
    then show ?thesis using assms(2) by (simp add: pickVictimLocked_def)
  next
    case 3
    let ?r = "fold (better (heap s) p) (drawn (sampleK s) (evict_pool s) (rng s)) None"
    have "v \<in> set (evict_pool s) \<and> eKey (heap s v) \<noteq> p"
    proof (cases ?r)
      case None
      then have "List.find (\<lambda>c. eKey (heap s c) \<noteq> p) (evict_pool s) = Some v"
        using assms(2) pickVictim_sampled [OF assms(1) 3] by simp
      then show ?thesis by (rule find_spec(1))
    next
      case (Some ba)
      then have "?r = Some (v, snd ba)"
        using assms(2) pickVictim_sampled [OF assms(1) 3, of p] by (cases ba) simp
      from fold_better_origin [OF this] show ?thesis
        using drawn_subset [OF 3(2) ep(2)] by blast
    qed
    then show ?thesis using ep(3) [of v p] by blast
  qed
  then show "v \<in> set (slots s)" "evictable s p v" by blast+
qed

lemma pickVictim_None:
  assumes "wf_shard s" "fst (pickVictimLocked p s) = None" "a \<in> set (slots s)"
  shows "\<not> evictable s p a"
proof -
  note ep = evict_pool_evictable [OF assms(1)]
  consider "exactLRU s" | "\<not> exactLRU s" "evict_pool s = []" | "\<not> exactLRU s" "evict_pool s \<noteq> []" by blast
  then show ?thesis
  proof cases
    case 1
    obtain xs where xs: "lru_list s xs" "set xs = set (slots s)"
      "pickVictimLocked p s = (List.find (evictable s p) (rev xs), s)"
      by (rule pickVictim_exact [OF assms(1) 1])
    then have "List.find (evictable s p) (rev xs) = None" using assms(2) by (simp only: fst_conv)
    then show ?thesis using find_spec(2) xs(2) assms(3) by fastforce
  next
    case 2
    then show ?thesis using ep(3) [of a p] assms(3) by simp
  next
    case 3
    then have "List.find (\<lambda>c. eKey (heap s c) \<noteq> p) (evict_pool s) = None"
      using assms(2) pickVictim_sampled [OF assms(1) 3, of p] by (auto split: option.splits prod.splits)
    from find_spec(2) [OF this] show ?thesis using ep(3) [of a p] assms(3) by blast
  qed
qed

section \<open>Eviction and admission\<close>

lemma evict_step_shrinks:
  assumes "wf_shard s" "pickVictimLocked p s = (Some v, t)"
  shows "shrinks s (fire_onEvict (eKey (heap t v)) ReasonEvicted
           ((removeEntryLocked v t)\<lparr>evictions := evictions (removeEntryLocked v t) + 1\<rparr>))
         [(eKey (heap s v), ReasonEvicted)]"
proof -
  obtain r where t: "t = s\<lparr>rng := r\<rparr>"
    using pickVictim_state [of p s] assms(2) by auto
  note v = pickVictim_Some [OF assms(1), of p v]
  have w: "wf_shard t" "shrinks s t []" "v \<in> set (slots t)"
    using shrinks_rng [OF assms(1), of r] v assms(2) by (simp_all add: t shrinks_def)
  have "shrinks t (fire_onEvict (eKey (heap t v)) ReasonEvicted
           ((removeEntryLocked v t)\<lparr>evictions := evictions (removeEntryLocked v t) + 1\<rparr>))
         [(eKey (heap t v), ReasonEvicted)]"
    by (rule remove_fire_shrinks [OF w(1,3)]) (simp_all add: shard_frame)
  from shrinks_trans [OF w(2) this] show ?thesis by (simp add: t)
qed

text \<open>
  Eviction stops because the target is met, because the batch is used up, or because no entry
  may be evicted any more. Every removed key is reported once, with reason Evicted, and none of
  them is the protected key.
\<close>

lemma evict_loop_spec:
  assumes "wf_shard s" "evict_loop left n target p s = (m, t)"
  shows "\<exists>L. shrinks s t L \<and> length L = m - n \<and> n \<le> m \<and> m \<le> n + left
    \<and> (\<forall>(k, r) \<in> set L. k \<noteq> p \<and> r = ReasonEvicted)
    \<and> (memBytes t \<le> target \<or> m = n + left \<or> (\<forall>a \<in> set (slots t). \<not> evictable t p a))"
  using assms
proof (induction left arbitrary: n s)
  case 0
  then show ?case using shrinks_refl by (intro exI [of _ "[]"]) auto
next
  case (Suc left)
  show ?case
  proof (cases "memBytes s > target")
    case False
    then show ?thesis using Suc.prems shrinks_refl by (intro exI [of _ "[]"]) auto
  next
    case True
    obtain v u where pv: "pickVictimLocked p s = (v, u)" by force
    show ?thesis
    proof (cases v)
      case None
      then have "t = u" "m = n" using Suc.prems(2) pv True by auto
      moreover obtain r where u: "u = s\<lparr>rng := r\<rparr>" using pickVictim_state [of p s] pv by auto
      moreover have "\<forall>a \<in> set (slots u). \<not> evictable u p a"
        using pickVictim_None [OF Suc.prems(1), of p] pv None u by (auto simp: evictable_def)
      ultimately show ?thesis
        using shrinks_rng [OF Suc.prems(1), of r] by (intro exI [of _ "[]"]) simp
    next
      case (Some w)
      let ?s = "fire_onEvict (eKey (heap u w)) ReasonEvicted
           ((removeEntryLocked w u)\<lparr>evictions := evictions (removeEntryLocked w u) + 1\<rparr>)"
      note st = evict_step_shrinks [OF Suc.prems(1), of p w u]
      have ev: "evictable s p w" using pickVictim_Some(2) [OF Suc.prems(1)] pv Some by auto
      have "evict_loop left (n + 1) target p ?s = (m, t)"
        using Suc.prems(2) True pv Some by (simp add: Let_def)
      moreover have "wf_shard ?s" using st pv Some by (simp add: shrinks_def)
      ultimately obtain L where L: "shrinks ?s t L" "length L = m - (n + 1)" "n + 1 \<le> m" "m \<le> n + 1 + left"
        "\<forall>(k, r) \<in> set L. k \<noteq> p \<and> r = ReasonEvicted"
        "memBytes t \<le> target \<or> m = n + 1 + left \<or> (\<forall>a \<in> set (slots t). \<not> evictable t p a)"
        using Suc.IH by blast
      have "shrinks s t ((eKey (heap s w), ReasonEvicted) # L)"
        using shrinks_trans [OF st L(1)] pv Some by simp
      then show ?thesis
        using L ev by (intro exI [of _ "(eKey (heap s w), ReasonEvicted) # L"]) (auto simp: evictable_def)
    qed
  qed
qed

lemma evictLocked_spec:
  assumes "wf_shard s" "evictLocked target p s = (n, t)"
  shows "\<exists>L. shrinks s t L \<and> length L = n \<and> n \<le> batchMax s
    \<and> (\<forall>(k, r) \<in> set L. k \<noteq> p \<and> r = ReasonEvicted)
    \<and> (policy s \<noteq> policyNoEviction \<longrightarrow>
         memBytes t \<le> target \<or> n = batchMax s \<or> (\<forall>a \<in> set (slots t). \<not> evictable t p a))"
proof (cases "policy s = policyNoEviction")
  case True
  then show ?thesis using assms shrinks_refl by (intro exI [of _ "[]"]) (auto simp: evictLocked_def)
next
  case False
  then show ?thesis using evict_loop_spec [of s "batchMax s" 0 target p n t] assms
    by (simp add: evictLocked_def)
qed

lemma admitLocked_spec:
  assumes "wf_shard s" "admitLocked delta p s = (ok, t)"
  obtains L where "shrinks s t L" "\<forall>(k, r) \<in> set L. k \<noteq> p \<and> r = ReasonEvicted"
    "ok \<longleftrightarrow> budget s \<le> 0 \<or> delta \<le> 0 \<or> memBytes t + delta \<le> budget s"
    "\<not> ok \<Longrightarrow> lowWater s \<le> budget s \<Longrightarrow> policy s = policyNoEviction \<or> length L = batchMax s
       \<or> (\<forall>a \<in> set (slots t). \<not> evictable t p a) \<or> delta > budget s"
proof (cases "budget s \<le> 0 \<or> delta \<le> 0 \<or> memBytes s + delta \<le> budget s \<or> policy s = policyNoEviction")
  case True
  then have "t = s" "ok \<longleftrightarrow> budget s \<le> 0 \<or> delta \<le> 0 \<or> memBytes t + delta \<le> budget s"
    "\<not> ok \<Longrightarrow> policy s = policyNoEviction"
    using assms(2) by (auto simp: admitLocked_def split: if_splits)
  then show ?thesis using shrinks_refl [OF assms(1)] by (intro that [of "[]"]) auto
next
  case False
  let ?target = "if lowWater s - delta < 0 then 0 else lowWater s - delta"
  obtain n u where e: "evictLocked ?target p s = (n, u)" by force
  then have ok: "u = t" "ok \<longleftrightarrow> memBytes t + delta \<le> budget t"
    using False assms(2) by (auto simp: admitLocked_def Let_def)
  from evictLocked_spec [OF assms(1) e] obtain L where L: "shrinks s t L" "length L = n"
    "\<forall>(k, r) \<in> set L. k \<noteq> p \<and> r = ReasonEvicted"
    "memBytes t \<le> ?target \<or> n = batchMax s \<or> (\<forall>a \<in> set (slots t). \<not> evictable t p a)"
    using False ok(1) by auto
  show ?thesis
  proof (rule that [OF L(1,3)])
    show "ok \<longleftrightarrow> budget s \<le> 0 \<or> delta \<le> 0 \<or> memBytes t + delta \<le> budget s"
      using ok(2) False L(1) by (auto simp: shrinks_def)
    show "policy s = policyNoEviction \<or> length L = batchMax s
       \<or> (\<forall>a \<in> set (slots t). \<not> evictable t p a) \<or> delta > budget s"
      if "\<not> ok" "lowWater s \<le> budget s"
      using that ok(2) L by (auto simp: shrinks_def split: if_splits)
  qed
qed

end
