(* ===== verification/Shard_Spec.thy ===== *)
theory Shard_Spec
  imports Shard_Ops
begin

text \<open>
  What the shard's operations promise: every operation keeps the invariant, writes and deletes act
  on the key space as a map update, the only other keys that disappear are those reported to
  \<^verbatim>\<open>onEvict\<close>, and an admitted write respects the memory budget.
\<close>

section \<open>Deadline changes\<close>

lemma switch_ttl_frame [shard_frame]:
  "same_config (switch_ttl e b x s) s" "same_counts (switch_ttl e b x s) s"
  "entries (switch_ttl e b x s) = entries s" "slots (switch_ttl e b x s) = slots s"
  "memBytes (switch_ttl e b x s) = memBytes s"
  "lruHead (switch_ttl e b x s) = lruHead s" "lruTail (switch_ttl e b x s) = lruTail s"
  by (simp_all add: switch_ttl_def shard_frame)

lemma switch_ttl_data [shard_frame]:
  "same_data (heap (switch_ttl e b x s) a) (heap s a)"
  "eSlot (heap (switch_ttl e b x s) a) = eSlot (heap s a)"
  "ePrev (heap (switch_ttl e b x s) a) = ePrev (heap s a)"
  "eNext (heap (switch_ttl e b x s) a) = eNext (heap s a)"
  by (simp_all add: switch_ttl_def shard_frame)

lemma switch_ttl_wf:
  assumes "wf_shard s" "e \<in> set (slots s)" "slots u = slots s" "ttlSlots u = ttlSlots s"
    and f: "\<And>a. eTtlSlot (heap u a) = eTtlSlot (heap s a)"
    and x: "\<And>a. eExpireAt (heap u a) = (if a = e then x else eExpireAt (heap s a))"
  shows "wf_ttl (switch_ttl e (eExpireAt (heap s e) \<noteq> 0) x u)"
proof -
  note w = wf_shardD(2,3) [OF assms(1)]
  have t: "idx_ok (\<lambda>a. eTtlSlot (heap u a)) (ttlSlots u)"
    "set (ttlSlots u) = {a \<in> set (slots s). eExpireAt (heap s a) \<noteq> 0}"
    "\<And>a. a \<in> set (slots s) \<Longrightarrow> eExpireAt (heap s a) = 0 \<Longrightarrow> eTtlSlot (heap u a) = - 1"
    using w(2) by (simp_all add: wf_ttl_def assms(4) f)
  have d: "distinct (ttlSlots u)" using idx_ok_distinct [OF t(1)] .
  have "length (ttlSlots u) \<le> length (slots s)"
    using card_mono [of "set (slots s)" "set (ttlSlots u)"] t(2) distinct_card [OF d] card_length [of "slots s"]
    by (auto intro: order_trans)
  then have l: "length (ttlSlots u) < 2 ^ 31" using w(1) by (simp add: wf_slots_def)
  consider (add) "x \<noteq> 0" "eExpireAt (heap s e) = 0" | (del) "x = 0" "eExpireAt (heap s e) \<noteq> 0"
    | (same) "x \<noteq> 0 \<longleftrightarrow> eExpireAt (heap s e) \<noteq> 0" by blast
  then show ?thesis
  proof cases
    case add
    note A = addTTL_effect [OF t(1) t(3) [OF assms(2) add(2)] l]
    show ?thesis
      unfolding wf_ttl_def using add A assms(2,3) t(2,3)
      by (auto simp: switch_ttl_def shard_frame x split: if_splits)
  next
    case del
    have "e \<in> set (ttlSlots u) \<or> eTtlSlot (heap u e) = - 1" using t(2) del assms(2) by simp
    note R = removeTTL_effect [OF t(1) this]
    show ?thesis
      unfolding wf_ttl_def using del R assms(2,3) t(2,3)
      by (auto simp: switch_ttl_def shard_frame x split: if_splits)
  next
    case same
    then show ?thesis
      unfolding wf_ttl_def using assms(2,3) t
      by (auto simp: switch_ttl_def x split: if_splits)
  qed
qed

lemma shard_abs_upd:
  assumes "wf_map s" "map_of (entries s) k = Some e" "entries t = entries s"
    and "\<And>a. a \<noteq> e \<Longrightarrow> eValue (heap t a) = eValue (heap s a) \<and> eExpireAt (heap t a) = eExpireAt (heap s a)"
  shows "shard_abs t = (shard_abs s)(k \<mapsto> (eValue (heap t e), eExpireAt (heap t e)))"
proof
  fix k'
  have "b \<noteq> e" if "map_of (entries s) k' = Some b" "k' \<noteq> k" for b
    using wf_key(1) [OF assms(1)] that assms(2) by metis
  then show "shard_abs t k' = ((shard_abs s)(k \<mapsto> (eValue (heap t e), eExpireAt (heap t e)))) k'"
    using assms(2-4) by (cases "map_of (entries s) k'") (auto simp: shard_abs_def)
qed

lemma expireLocked_None: "map_of (entries s) k = None \<Longrightarrow> expireLocked k x s = (False, s)"
  by (simp add: expireLocked_def)

lemma expireLocked_Some:
  assumes "wf_shard s" "map_of (entries s) k = Some e" "expireLocked k x s = (ok, t)"
  shows "ok" "wf_shard t" "shard_abs t = (shard_abs s)(k \<mapsto> (eValue (heap s e), x))"
    "same_config t s" "evicted t = evicted s" "memBytes t = memBytes s" "length (slots t) = length (slots s)"
proof -
  note w = wf_shardD [OF assms(1)]
  note ke = wf_key [OF w(1) assms(2)]
  let ?u = "upd_entry e (eExpireAt_update (\<lambda>_. x)) s"
  have ok: "ok" and t: "t = switch_ttl e (eExpireAt (heap s e) \<noteq> 0) x ?u"
    using assms(2,3) by (auto simp: expireLocked_def Let_def)
  then show "ok" "same_config t s" "evicted t = evicted s" "memBytes t = memBytes s"
    "length (slots t) = length (slots s)"
    by (simp_all add: shard_frame upd_entry_def)
  have F: "eSlot (heap t a) = eSlot (heap s a)" "eSize (heap t a) = eSize (heap s a)"
    "eKey (heap t a) = eKey (heap s a)" "eValue (heap t a) = eValue (heap s a)"
    "eExpireAt (heap t a) = (if a = e then x else eExpireAt (heap s a))"
    "entries t = entries s" "slots t = slots s" "nextAddr t = nextAddr s" "memBytes t = memBytes s" for a
    by (auto simp: t shard_frame upd_entry_def)
  have "wf_ttl t"
    unfolding t by (rule switch_ttl_wf [OF assms(1) ke(2)]) (auto simp: upd_entry_def)
  moreover have "wf_lru t"
    by (rule wf_lru_cong [OF w(5)]) (auto simp: t shard_frame upd_entry_def)
  moreover have "wf_map t" "wf_slots t" "wf_mem t"
    using w by (simp_all add: F wf_map_def wf_slots_def wf_mem_def entry_Size_def)
  ultimately show "wf_shard t" by (simp add: wf_shard_def)
  show "shard_abs t = (shard_abs s)(k \<mapsto> (eValue (heap s e), x))"
    using shard_abs_upd [OF w(1) assms(2), of t] by (simp add: F)
qed

section \<open>Writes\<close>

text \<open>The sizes a write may have: the accounted cost must fit the 32-bit size field.\<close>

definition cost_fits :: "bytes \<Rightarrow> bytes \<Rightarrow> bool" where
  "cost_fits key val \<longleftrightarrow> EntryCost (length key) (length val) < 2 ^ 32"

lemma uint_word_of_int32: "0 \<le> c \<Longrightarrow> c < 2 ^ 32 \<Longrightarrow> uint (word_of_int c :: u32) = c"
  by (simp add: uint_word_of_int)

lemma cost_fits_size:
  "cost_fits k v \<Longrightarrow> uint (word_of_int (EntryCost (length k) (length v)) :: u32) = EntryCost (length k) (length v)"
  by (rule uint_word_of_int32) (simp_all add: cost_fits_def EntryCost_def)

lemma overwrite_wf:
  assumes "wf_shard s" "map_of (entries s) k = Some e" "cost_fits k v"
    and t: "t = (overwrite_entry e v x now (EntryCost (length k) (length v)) s)
              \<lparr>memBytes := memBytes (overwrite_entry e v x now (EntryCost (length k) (length v)) s)
                 + (EntryCost (length k) (length v) - entry_Size (heap s e))\<rparr>"
  shows "wf_shard t" "shard_abs t = (shard_abs s)(k \<mapsto> (v, x))" "same_config t s" "evicted t = evicted s"
    "memBytes t = memBytes s + (EntryCost (length k) (length v) - entry_Size (heap s e))"
    "length (slots t) = length (slots s)"
proof -
  note w = wf_shardD [OF assms(1)]
  note ke = wf_key [OF w(1) assms(2)]
  let ?c = "EntryCost (length k) (length v)"
  let ?u = "upd_entry e (\<lambda>y. entry_touch now (y\<lparr>eValue := v, eExpireAt := x, eSize := word_of_int ?c\<rparr>)) s"
  let ?v = "switch_ttl e (eExpireAt (heap s e) \<noteq> 0) x ?u"
  have o: "overwrite_entry e v x now ?c s = (if exactLRU s then lruMoveToFrontLocked e ?v else ?v)"
    by (simp add: overwrite_entry_def Let_def shard_frame upd_entry_def)
  have F: "eSlot (heap t a) = eSlot (heap s a)" "eKey (heap t a) = eKey (heap s a)"
    "entry_Size (heap t a) = (if a = e then ?c else entry_Size (heap s a))"
    "eValue (heap t a) = (if a = e then v else eValue (heap s a))"
    "eExpireAt (heap t a) = (if a = e then x else eExpireAt (heap s a))"
    "entries t = entries s" "slots t = slots s" "nextAddr t = nextAddr s" for a
    by (auto simp: t o shard_frame upd_entry_def entry_touch_def entry_Size_def cost_fits_size [OF assms(3)])
  show m: "memBytes t = memBytes s + (?c - entry_Size (heap s e))"
    and "same_config t s" "evicted t = evicted s" "length (slots t) = length (slots s)"
    by (simp_all add: t o shard_frame upd_entry_def)
  have "wf_ttl ?v"
    by (rule switch_ttl_wf [OF assms(1) ke(2)]) (auto simp: upd_entry_def entry_touch_def)
  then have "wf_ttl t" by (simp add: wf_ttl_def t o shard_frame)
  moreover have "wf_map t" "wf_slots t"
    using w by (simp_all add: F wf_map_def wf_slots_def)
  moreover have "wf_mem t"
    using w(4) m ke sum.remove [of "set (slots s)" e "\<lambda>a. entry_Size (heap s a)"]
      sum.remove [of "set (slots s)" e "\<lambda>a. entry_Size (heap t a)"]
    by (auto simp: wf_mem_def F)
  moreover have "wf_lru t"
  proof (cases "exactLRU s")
    case True
    then obtain xs where xs: "lru_list s xs" "set xs = set (slots s)" using w(5) by (auto simp: wf_lru_def)
    have "linked (heap ?v) None xs None = linked (heap s) None xs None"
      by (rule linked_cong) (simp add: shard_frame upd_entry_def entry_touch_def)
    then have "lru_list ?v xs" using xs(1) by (simp add: lru_list_def shard_frame upd_entry_def)
    from lru_move [OF this, of e] have "lru_list t (e # remove1 e xs)"
      using xs(2) ke(2) True by (simp add: t o lru_list_def)
    moreover have "set (e # remove1 e xs) = set (slots t)"
      using xs ke(2) by (auto simp: F lru_list_def)
    ultimately show ?thesis unfolding wf_lru_def by blast
  qed (simp add: wf_lru_def \<open>same_config t s\<close>)
  ultimately show "wf_shard t" by (simp add: wf_shard_def)
  show "shard_abs t = (shard_abs s)(k \<mapsto> (v, x))"
    using shard_abs_upd [OF w(1) assms(2), of t] by (simp add: F)
qed

lemma alist_update_new: "map_of es k = None \<Longrightarrow> AList.update k e es = es @ [(k, e)]"
  by (induction es) (auto split: if_splits)

lemma insert_wf:
  assumes "wf_shard s" "map_of (entries s) k = None" "cost_fits k v" "length (slots s) < 2 ^ 31 - 1"
    and t: "t = (insert_entry k v x now (EntryCost (length k) (length v)) s)
              \<lparr>memBytes := memBytes (insert_entry k v x now (EntryCost (length k) (length v)) s)
                 + EntryCost (length k) (length v)\<rparr>"
  shows "wf_shard t" "shard_abs t = (shard_abs s)(k \<mapsto> (v, x))"
    "evicted t = evicted s" "memBytes t = memBytes s + EntryCost (length k) (length v)"
    "budget t = budget s" "length (slots t) = Suc (length (slots s))"
proof -
  note w = wf_shardD [OF assms(1)]
  let ?c = "EntryCost (length k) (length v)" and ?e = "nextAddr s"
  let ?u = "s\<lparr>heap := (heap s)(?e := entry_touch now
              \<lparr>eKey = k, eValue = v, eExpireAt = x, eLastAccess = 0, eSize = word_of_int ?c,
               eSlot = - 1, eTtlSlot = - 1, ePrev = None, eNext = None\<rparr>),
            nextAddr := Suc ?e, entries := AList.update k ?e (entries s)\<rparr>"
  let ?v = "addSlotLocked ?e ?u"
  have new: "?e \<notin> set (slots s)" using w(2) by (auto simp: wf_slots_def)
  have o: "insert_entry k v x now ?c s = (if exactLRU s then lruPushFrontLocked ?e ?v else ?v)"
    by (simp add: insert_entry_def Let_def shard_frame)
  have F: "eKey (heap t a) = (if a = ?e then k else eKey (heap s a))"
    "entry_Size (heap t a) = (if a = ?e then ?c else entry_Size (heap s a))"
    "eValue (heap t a) = (if a = ?e then v else eValue (heap s a))"
    "eExpireAt (heap t a) = (if a = ?e then x else eExpireAt (heap s a))"
    "entries t = AList.update k ?e (entries s)" "slots t = slots s @ [?e]" "nextAddr t = Suc ?e" for a
    by (auto simp: t o shard_frame entry_touch_def entry_Size_def cost_fits_size [OF assms(3)])
  have S: "eSlot (heap t a) = (if a = ?e then int (length (slots s)) else eSlot (heap s a))"
    "eTtlSlot (heap t a) = (if a = ?e then if x = 0 then - 1 else to_int32 (length (ttlSlots s)) else eTtlSlot (heap s a))"
    "ttlSlots t = (if x = 0 then ttlSlots s else ttlSlots s @ [?e])" for a
    using assms(4)
    by (auto simp: t o shard_frame addSlotLocked_def upd_entry_def Let_def entry_touch_def to_int32_small)
  show m: "memBytes t = memBytes s + ?c" and "evicted t = evicted s" "budget t = budget s"
    "length (slots t) = Suc (length (slots s))"
    by (simp_all add: t o shard_frame)
  have x: "exactLRU t = exactLRU s" by (simp add: t o shard_frame)
  have "wf_slots t"
    using w(2) idx_ok_snoc [OF _ new, of "\<lambda>a. eSlot (heap s a)"] assms(4)
    by (auto simp: wf_slots_def F S fun_upd_def less_Suc_eq)
  moreover have "wf_mem t"
    using w(4) m new by (auto simp: wf_mem_def F intro!: sum.cong)
  moreover have "wf_ttl t"
  proof -
    have n: "?e \<notin> set (ttlSlots s)" and i: "idx_ok (\<lambda>a. eTtlSlot (heap s a)) (ttlSlots s)"
      and ts: "set (ttlSlots s) = {a \<in> set (slots s). eExpireAt (heap s a) \<noteq> 0}"
      and tn: "\<forall>a \<in> set (slots s). eExpireAt (heap s a) = 0 \<longrightarrow> eTtlSlot (heap s a) = - 1"
      using w(3) new by (auto simp: wf_ttl_def)
    have "length (ttlSlots s) \<le> length (slots s)"
      using card_mono [of "set (slots s)" "set (ttlSlots s)"] ts
        distinct_card [OF idx_ok_distinct [OF i]] card_length [of "slots s"] by (auto intro: order_trans)
    then have c: "to_int32 (length (ttlSlots s)) = int (length (ttlSlots s))"
      using assms(4) by (intro to_int32_small) simp
    have "idx_ok (\<lambda>a. eTtlSlot (heap t a)) (ttlSlots t)"
    proof (cases "x = 0")
      case True
      have "idx_ok (\<lambda>a. eTtlSlot (heap t a)) (ttlSlots s) = idx_ok (\<lambda>a. eTtlSlot (heap s a)) (ttlSlots s)"
        using n by (intro idx_ok_cong) (auto simp: S)
      then show ?thesis using i True by (simp add: S(3))
    next
      case False
      then show ?thesis using idx_ok_snoc [OF i n] by (simp add: S c fun_upd_def if_distrib cong: if_cong)
    qed
    then show ?thesis using ts tn new by (auto simp: wf_ttl_def F S)
  qed
  moreover have "wf_map t"
  proof -
    have "snd ` set (entries t) = set (slots t)" "distinct (map fst (entries t))"
      using wf_mapD(1,2) [OF w(1)] assms(2) by (auto simp: F alist_update_new map_of_eq_None_iff)
    moreover have "eKey (heap t (snd y)) = fst y" if y: "y \<in> set (entries t)" for y
    proof (cases "y = (k, ?e)")
      case False
      then have ye: "y \<in> set (entries s)" using y assms(2) by (simp add: F alist_update_new)
      then have "snd y \<in> set (slots s)" using wf_mapD(2) [OF w(1)] by blast
      then show ?thesis using ye new w(1) by (auto simp: F wf_map_def)
    qed (simp add: F)
    ultimately show ?thesis by (simp add: wf_map_def)
  qed
  moreover have "wf_lru t"
  proof (cases "exactLRU s")
    case True
    then obtain xs where xs: "lru_list s xs" "set xs = set (slots s)" using w(5) by (auto simp: wf_lru_def)
    have "linked (heap ?v) None xs None = linked (heap s) None xs None"
      using xs(2) new by (intro linked_cong) (auto simp: shard_frame)
    then have "lru_list ?v xs" using xs(1) by (simp add: lru_list_def shard_frame)
    from lru_push [OF this, of ?e] have "lru_list t (?e # xs)"
      using xs(2) new True by (simp add: t o lru_list_def)
    moreover have "set (?e # xs) = set (slots t)"
      using xs by (auto simp: F)
    ultimately show ?thesis unfolding wf_lru_def by blast
  qed (simp add: wf_lru_def x)
  ultimately show "wf_shard t" by (simp add: wf_shard_def)
  show "shard_abs t = (shard_abs s)(k \<mapsto> (v, x))"
  proof
    fix k'
    have "b \<noteq> ?e" if "map_of (entries s) k' = Some b" for b
      using wf_key(2) [OF w(1) that] new by auto
    then show "shard_abs t k' = ((shard_abs s)(k \<mapsto> (v, x))) k'"
      by (cases "map_of (entries s) k'") (auto simp: shard_abs_def F AList.update_conv')
  qed
qed

lemma shrinks_lookup:
  assumes "wf_shard s" "shrinks s u L" "k \<notin> fst ` set L"
  shows "map_of (entries u) k = map_of (entries s) k"
proof (cases "map_of (entries u) k")
  case None
  then have "shard_abs u k = None" by (simp add: shard_abs_def)
  then have "shard_abs s k = None" using assms(2,3) by (simp add: shrinks_def restrict_map_def)
  then show ?thesis using None by (simp add: shard_abs_def)
next
  case (Some e)
  have w: "wf_shard u" and sub: "set (slots u) \<subseteq> set (slots s)" and d: "eKey (heap u e) = eKey (heap s e)"
    using assms(2) by (simp_all add: shrinks_def)
  note k = wf_key [OF wf_shardD(1) [OF w] Some]
  then show ?thesis
    using wf_slot_key [OF wf_shardD(1) [OF assms(1)], of e] Some sub d by auto
qed

definition set_effect :: "bytes \<Rightarrow> bytes \<Rightarrow> u64 \<Rightarrow> bool \<Rightarrow> shard \<Rightarrow> shard \<Rightarrow> (bytes \<times> EvictReason) list \<Rightarrow> bool" where
  "set_effect k v x ok s t L \<longleftrightarrow> evicted t = evicted s @ L
     \<and> (\<forall>(k', r) \<in> set L. k' \<noteq> k \<and> r = ReasonEvicted \<and> k' \<in> dom (shard_abs s))
     \<and> shard_abs t = (if ok then (shard_abs s |` (- (fst ` set L)))(k \<mapsto> (v, x))
                       else shard_abs s |` (- (fst ` set L)))
     \<and> (0 < budget s \<and> ok \<longrightarrow> memBytes t \<le> max (memBytes s) (budget s))
     \<and> (\<not> ok \<longrightarrow> memBytes t \<le> memBytes s) \<and> (budget s \<le> 0 \<longrightarrow> ok \<and> L = []) \<and> budget t = budget s
     \<and> length (slots t) \<le> Suc (length (slots s))"

lemma admit_effect:
  assumes "wf_shard s" "admitLocked d k s = (ok, u)"
  obtains L where "shrinks s u L" "k \<notin> fst ` set L"
    "set_effect k v x False s u L \<or> ok" "budget s \<le> 0 \<longrightarrow> ok \<and> L = []"
    "\<forall>(k', r) \<in> set L. k' \<noteq> k \<and> r = ReasonEvicted \<and> k' \<in> dom (shard_abs s)"
    "ok \<and> 0 < budget s \<longrightarrow> d \<le> 0 \<or> memBytes u + d \<le> budget s"
proof (cases "budget s \<le> 0")
  case True
  then show ?thesis using assms shrinks_refl [OF assms(1)] by (intro that [of "[]"]) (auto simp: admitLocked_def)
next
  case False
  obtain L where L: "shrinks s u L" "\<forall>(k', r) \<in> set L. k' \<noteq> k \<and> r = ReasonEvicted"
    "ok \<longleftrightarrow> budget s \<le> 0 \<or> d \<le> 0 \<or> memBytes u + d \<le> budget s"
    by (rule admitLocked_spec [OF assms])
  moreover have "fst ` set L \<subseteq> dom (shard_abs s)" using L(1) by (simp add: shrinks_def)
  ultimately have M: "\<forall>(k', r) \<in> set L. k' \<noteq> k \<and> r = ReasonEvicted \<and> k' \<in> dom (shard_abs s)"
    by (fastforce simp: image_subset_iff)
  show ?thesis
    using False L M by (intro that [of L]) (force simp: shrinks_def set_effect_def)+
qed

lemma setLocked_spec:
  assumes "wf_shard s" "cost_fits k v" "length (slots s) < 2 ^ 31 - 1" "setLocked k v x now s = (ok, t)"
  shows "wf_shard t" "\<exists>L. set_effect k v x ok s t L"
proof -
  let ?c = "EntryCost (length k) (length v)"
  define d where "d = (case map_of (entries s) k of Some e \<Rightarrow> ?c - entry_Size (heap s e) | None \<Rightarrow> ?c)"
  obtain ok' u where a: "admitLocked d k s = (ok', u)" by force
  obtain L where L: "shrinks s u L" "k \<notin> fst ` set L"
    "set_effect k v x False s u L \<or> ok'" "budget s \<le> 0 \<longrightarrow> ok' \<and> L = []"
    "\<forall>(k', r) \<in> set L. k' \<noteq> k \<and> r = ReasonEvicted \<and> k' \<in> dom (shard_abs s)"
    "ok' \<and> 0 < budget s \<longrightarrow> d \<le> 0 \<or> memBytes u + d \<le> budget s"
    by (rule admit_effect [OF assms(1) a, of v x])
  have ok: "ok = ok'"
    using assms(4) a by (auto simp: setLocked_def d_def Let_def split: option.splits if_splits)
  note lk = shrinks_lookup [OF assms(1) L(1,2)]
  have wu: "wf_shard u" and su: "length (slots u) \<le> length (slots s)" and eu: "evicted u = evicted s @ L"
    and au: "shard_abs u = shard_abs s |` (- (fst ` set L))" and bu: "budget u = budget s"
    and mu: "memBytes u \<le> memBytes s" and du: "\<And>a. entry_Size (heap u a) = entry_Size (heap s a)"
    using L(1) by (simp_all add: shrinks_def entry_Size_def)
  have "wf_shard t \<and> set_effect k v x ok s t L"
  proof (cases ok)
    case False
    then have "t = u" using assms(4) a ok by (auto simp: setLocked_def d_def Let_def split: option.splits)
    then show ?thesis using wu L(3) ok False by simp
  next
    case True
    have "wf_shard t \<and> shard_abs t = (shard_abs u)(k \<mapsto> (v, x)) \<and> evicted t = evicted u \<and> memBytes t = memBytes u + d
       \<and> budget t = budget u \<and> length (slots t) \<le> Suc (length (slots s))"
    proof (cases "map_of (entries s) k")
      case None
      then have t: "t = (insert_entry k v x now ?c u)\<lparr>memBytes := memBytes (insert_entry k v x now ?c u) + ?c\<rparr>"
        using assms(4) a ok True by (auto simp: setLocked_def d_def Let_def)
      have "length (slots u) < 2 ^ 31 - 1" using su assms(3) by simp
      from insert_wf [OF wu _ assms(2) this t] None lk su show ?thesis by (simp add: d_def)
    next
      case (Some e)
      then have t: "t = (overwrite_entry e v x now ?c u)
          \<lparr>memBytes := memBytes (overwrite_entry e v x now ?c u) + (?c - entry_Size (heap u e))\<rparr>"
        using assms(4) a ok True by (auto simp: setLocked_def d_def Let_def du)
      from overwrite_wf [OF wu _ assms(2) t] Some lk su show ?thesis by (simp add: d_def du)
    qed
    then show ?thesis
      using True ok L(4,5,6) eu au bu mu by (auto simp: set_effect_def)
  qed
  then show "wf_shard t" "\<exists>L. set_effect k v x ok s t L" by blast+
qed

section \<open>Reads, deletes and flush\<close>

lemma getLocked_sim: "shard_sim (snd (getLocked k nowMs nowMono s)) s"
  by (auto simp: getLocked_def Let_def shard_sim_def upd_entry_def entry_touch_def split: option.splits)

lemma getLocked_result:
  "fst (getLocked k nowMs nowMono s) = (case map_of (entries s) k of
      None \<Rightarrow> (None, False, False)
    | Some e \<Rightarrow> if expired_at (eExpireAt (heap s e)) nowMs then (None, False, True) else (Some e, True, False))"
  by (auto simp: getLocked_def Let_def entry_Expired_def split: option.splits)

lemma getLocked_evicted: "evicted (snd (getLocked k nowMs nowMono s)) = evicted s"
  by (auto simp: getLocked_def Let_def upd_entry_def split: option.splits)

lemma delLocked_spec:
  assumes "wf_shard s" "delLocked k s = (ok, t)"
  shows "wf_shard t" "shard_abs t = (shard_abs s)(k := None)" "ok \<longleftrightarrow> k \<in> dom (shard_abs s)"
    "evicted t = evicted s" "same_config t s" "length (slots t) \<le> length (slots s)"
proof -
  have "wf_shard t \<and> shard_abs t = (shard_abs s)(k := None) \<and> (ok \<longleftrightarrow> k \<in> dom (shard_abs s))
    \<and> evicted t = evicted s \<and> same_config t s \<and> length (slots t) \<le> length (slots s)"
  proof (cases "map_of (entries s) k")
    case None
    then show ?thesis using assms by (auto simp: delLocked_def shard_abs_def fun_eq_iff)
  next
    case (Some e)
    note k = wf_key [OF wf_shardD(1) [OF assms(1)] Some]
    then show ?thesis
      using assms Some removeEntry_wf [OF assms(1) k(2)] removeEntry_abs [of e s] removeEntry_slots(2) [OF assms(1) k(2)]
      by (auto simp: delLocked_def shard_abs_def shard_frame)
  qed
  then show "wf_shard t" "shard_abs t = (shard_abs s)(k := None)" "ok \<longleftrightarrow> k \<in> dom (shard_abs s)"
    "evicted t = evicted s" "same_config t s" "length (slots t) \<le> length (slots s)" by blast+
qed

lemma flushLocked_spec:
  "wf_shard (flushLocked s)" "shard_abs (flushLocked s) = Map.empty"
  by (auto simp: flushLocked_def wf_shard_def wf_defs idx_ok_def lru_list_def shard_abs_def)

lemma newShard_wf: "wf_shard (newShard k bm seed exact pol)"
  by (auto simp: newShard_def wf_shard_def wf_defs idx_ok_def lru_list_def)

section \<open>Expiry\<close>

text \<open>The keys a reader at time \<open>now\<close> can see.\<close>

definition live :: "u64 \<Rightarrow> (bytes \<Rightarrow> (bytes \<times> u64) option) \<Rightarrow> bytes \<Rightarrow> (bytes \<times> u64) option" where
  "live now m k = (case m k of None \<Rightarrow> None | Some (v, x) \<Rightarrow> if expired_at x now then None else Some (v, x))"

definition expires :: "u64 \<Rightarrow> shard \<Rightarrow> shard \<Rightarrow> (bytes \<times> EvictReason) list \<Rightarrow> bool" where
  "expires now s t L \<longleftrightarrow> shrinks s t L
     \<and> (\<forall>(k, r) \<in> set L. r = ReasonExpired \<and> (\<exists>v x. shard_abs s k = Some (v, x) \<and> expired_at x now))"

lemma expires_shrinks: "expires now s t L \<Longrightarrow> shrinks s t L"
  by (simp add: expires_def)

lemma expires_refl: "wf_shard s \<Longrightarrow> expires now s s []"
  by (simp add: expires_def shrinks_refl)

lemma expires_trans:
  assumes "expires now s t L" "expires now t u M"
  shows "expires now s u (L @ M)"
proof -
  have "shard_abs t = shard_abs s |` (- (fst ` set L))" using assms(1) by (simp add: expires_def shrinks_def)
  then have "shard_abs t k = Some y \<Longrightarrow> shard_abs s k = Some y" for k y
    by (auto simp: restrict_map_def split: if_splits)
  then show ?thesis
    using assms shrinks_trans unfolding expires_def by fastforce
qed

lemma expires_live: "expires now s t L \<Longrightarrow> live now (shard_abs t) = live now (shard_abs s)"
  by (rule ext) (force simp: expires_def shrinks_def live_def restrict_map_def split: option.splits)

lemma expire_remove_expires:
  assumes "wf_shard s" "e \<in> set (slots s)" "entry_Expired (heap s e) now"
  shows "expires now s (expire_remove e s) [(eKey (heap s e), ReasonExpired)]"
  using expire_remove_shrinks [OF assms(1,2)] slots_dom [OF assms(1,2)] assms(3)
  by (simp add: expires_def entry_Expired_def)

lemma reapLocked_spec:
  assumes "wf_shard s" "reapLocked k now s = (ok, t)"
  obtains L where "expires now s t L" "ok \<longleftrightarrow> L \<noteq> []" "fst ` set L \<subseteq> {k}"
    "ok \<longleftrightarrow> (\<exists>v x. shard_abs s k = Some (v, x) \<and> expired_at x now)"
proof (cases "map_of (entries s) k")
  case None
  then show ?thesis using assms expires_refl [OF assms(1)]
    by (intro that [of "[]"]) (auto simp: reapLocked_def shard_abs_def)
next
  case (Some e)
  note k = wf_key [OF wf_shardD(1) [OF assms(1)] Some]
  show ?thesis
  proof (cases "entry_Expired (heap s e) now")
    case True
    then show ?thesis
      using assms Some k expire_remove_expires [OF assms(1) k(2) True]
      by (intro that [of "[(k, ReasonExpired)]"]) (auto simp: reapLocked_def shard_abs_def entry_Expired_def)
  next
    case False
    then show ?thesis
      using assms Some expires_refl [OF assms(1)]
      by (intro that [of "[]"]) (auto simp: reapLocked_def shard_abs_def entry_Expired_def)
  qed
qed

lemma sweep_sample_spec:
  assumes "wf_shard s" "ttlSlots s \<noteq> []" "sweep_sample n now s = (vs, t)"
  shows "\<exists>r. t = s\<lparr>rng := r\<rparr>" "length vs \<le> n"
    "\<forall>e \<in> set vs. e \<in> set (slots s) \<and> entry_Expired (heap s e) now"
proof -
  have sub: "set (ttlSlots s) \<subseteq> set (slots s)" and d: "distinct (ttlSlots s)" "length (slots s) < 2 ^ 31"
    using assms(1) idx_ok_distinct by (auto simp: wf_shard_def wf_ttl_def wf_slots_def)
  have "length (ttlSlots s) < 2 ^ 64"
    using card_mono [OF _ sub] distinct_card [OF d(1)] card_length [of "slots s"] d(2) by simp
  then have i: "ttlSlots s ! fst (intn st (length (ttlSlots s))) \<in> set (slots s)" for st
    using sub fst_intn_less [of "length (ttlSlots s)" st] assms(2) by (auto intro: nth_mem)
  have "(\<exists>r. t = s\<lparr>rng := r\<rparr>) \<and> length vs \<le> n \<and> (\<forall>e \<in> set vs. e \<in> set (slots s) \<and> entry_Expired (heap s e) now)"
    if "sweep_sample n now (s\<lparr>rng := q\<rparr>) = (vs, t)" for q
    using that
  proof (induction n arbitrary: q vs)
    case (Suc n)
    let ?r = "snd (intn q (length (ttlSlots s)))" and ?e = "ttlSlots s ! fst (intn q (length (ttlSlots s)))"
    obtain ws u where ws: "sweep_sample n now (s\<lparr>rng := ?r\<rparr>) = (ws, u)" by force
    then have "u = t" "vs = (if entry_Expired (heap s ?e) now then ?e # ws else ws)"
      using Suc.prems by (auto simp: Let_def split_beta split: if_splits)
    then show ?case using Suc.IH [of ?r ws] ws i [of q] by auto
  qed auto
  from this [of "rng s"] assms(3)
  show "\<exists>r. t = s\<lparr>rng := r\<rparr>" "length vs \<le> n"
    "\<forall>e \<in> set vs. e \<in> set (slots s) \<and> entry_Expired (heap s e) now" by auto
qed

lemma expire_remove_eSlot:
  assumes "wf_shard s" "e \<in> set (slots s)"
  shows "eSlot (heap (expire_remove e s) e) < 0"
    and "a \<notin> set (slots s) \<Longrightarrow> eSlot (heap (expire_remove e s) a) = eSlot (heap s a)"
    and "a \<in> set (slots s) \<Longrightarrow> a \<noteq> e \<Longrightarrow> a \<in> set (slots (expire_remove e s))"
    and "entry_Expired (heap (expire_remove e s) a) now = entry_Expired (heap s a) now"
proof -
  have f: "eSlot (heap (expire_remove e s) a) = eSlot (heap (removeEntryLocked e s) a)"
    "slots (expire_remove e s) = slots (removeEntryLocked e s)"
    "eExpireAt (heap (expire_remove e s) a) = eExpireAt (heap s a)" for a
    by (simp_all add: expire_remove_def fire_onEvict_def Let_def shard_frame)
  show "eSlot (heap (expire_remove e s) e) < 0"
    "a \<in> set (slots s) \<Longrightarrow> a \<noteq> e \<Longrightarrow> a \<in> set (slots (expire_remove e s))"
    "entry_Expired (heap (expire_remove e s) a) now = entry_Expired (heap s a) now"
    using removeEntry_slots [OF assms] by (simp_all add: f entry_Expired_def shard_frame)
  have ix: "idx_ok (\<lambda>a. eSlot (heap s a)) (slots s)" using assms(1) by (simp add: wf_shard_def wf_slots_def)
  have "slots s ! (length (slots s) - 1) \<in> set (slots s)" using idx_ok_memD(2) [OF ix assms(2)] by (auto intro: nth_mem)
  then show "eSlot (heap (expire_remove e s) a) = eSlot (heap s a)" if "a \<notin> set (slots s)"
    using that assms(2) unfolding f
    by (auto simp: removeEntryLocked_def removeSlotLocked_def Let_def shard_frame upd_entry_def)
qed

lemma sweep_remove_spec:
  assumes "wf_shard s"
    "\<forall>e \<in> set vs. eSlot (heap s e) < 0 \<and> e \<notin> set (slots s) \<or> e \<in> set (slots s) \<and> entry_Expired (heap s e) now"
  shows "\<exists>L. expires now s (sweep_remove vs s) L \<and> length L \<le> length vs"
  using assms
proof (induction vs arbitrary: s)
  case Nil
  then show ?case using expires_refl by (intro exI [of _ "[]"]) auto
next
  case (Cons e vs)
  show ?case
  proof (cases "e \<in> set (slots s)")
    case False
    then show ?thesis using Cons.IH [OF Cons.prems(1)] Cons.prems(2) by (auto intro: le_SucI)
  next
    case True
    then have ex: "entry_Expired (heap s e) now" using Cons.prems(2) by auto
    have ix: "idx_ok (\<lambda>a. eSlot (heap s a)) (slots s)"
      using Cons.prems(1) by (simp add: wf_shard_def wf_slots_def)
    note E = expire_remove_expires [OF Cons.prems(1) True ex]
    note S = expire_remove_eSlot [OF Cons.prems(1) True]
    have w: "wf_shard (expire_remove e s)" using E by (simp add: expires_def shrinks_def)
    have sub: "set (slots (expire_remove e s)) = set (slots s) - {e}"
      using removeEntry_slots(1) [OF Cons.prems(1) True] by (simp add: expire_remove_def fire_onEvict_def Let_def)
    have "\<forall>a \<in> set vs. eSlot (heap (expire_remove e s) a) < 0 \<and> a \<notin> set (slots (expire_remove e s))
        \<or> a \<in> set (slots (expire_remove e s)) \<and> entry_Expired (heap (expire_remove e s) a) now"
      using Cons.prems(2) S sub by (metis Diff_iff insertCI insert_iff list.set_intros(2))
    from Cons.IH [OF w this] obtain L where L: "expires now (expire_remove e s) (sweep_remove vs (expire_remove e s)) L"
      "length L \<le> length vs" by blast
    moreover have "\<not> eSlot (heap s e) < 0" using idx_ok_memD(1) [OF ix True] by simp
    ultimately show ?thesis
      using expires_trans [OF E L(1)] by (intro exI [of _ "(eKey (heap s e), ReasonExpired) # L"]) simp
  qed
qed

lemma sweepLocked_spec:
  assumes "wf_shard s" "sweepLocked now n s = ((sm, cnt), t)"
  obtains L where "expires now s t L" "length L \<le> cnt" "cnt \<le> sm" "sm = min n (length (ttlSlots s))"
proof (cases "ttlSlots s = []")
  case True
  then show ?thesis using assms expires_refl [OF assms(1)] by (intro that [of "[]"]) (auto simp: sweepLocked_def)
next
  case False
  obtain vs u where vu: "sweep_sample (min n (length (ttlSlots s))) now s = (vs, u)" by force
  note V = sweep_sample_spec [OF assms(1) False vu]
  then obtain r where u: "u = s\<lparr>rng := r\<rparr>" by blast
  have w: "wf_shard u" "expires now s u []"
    using shrinks_rng [OF assms(1), of r] by (simp_all add: u expires_def shrinks_def)
  obtain L where L: "expires now u (sweep_remove vs u) L" "length L \<le> length vs"
    using sweep_remove_spec [OF w(1), of vs now] V(3) u by auto
  from expires_trans [OF w(2) L(1)] L(2) V(2) show ?thesis
    using assms(2) False vu by (intro that [of L]) (auto simp: sweepLocked_def Let_def)
qed

section \<open>Every sequence of operations\<close>

datatype shard_op =
    GetOp bytes u64 u64
  | SetOp bytes bytes u64 u64
  | DelOp bytes
  | ExpireOp bytes u64
  | ReapOp bytes u64
  | SweepOp u64 nat
  | EvictOp int bytes
  | FlushOp
  | LimitOp int int

fun shard_exec :: "shard_op \<Rightarrow> shard \<Rightarrow> shard" where
  "shard_exec (GetOp k nowMs nowMono) s = snd (getLocked k nowMs nowMono s)"
| "shard_exec (SetOp k v x nowMono) s = snd (setLocked k v x nowMono s)"
| "shard_exec (DelOp k) s = snd (delLocked k s)"
| "shard_exec (ExpireOp k x) s = snd (expireLocked k x s)"
| "shard_exec (ReapOp k nowMs) s = snd (reapLocked k nowMs s)"
| "shard_exec (SweepOp nowMs n) s = snd (sweepLocked nowMs n s)"
| "shard_exec (EvictOp target p) s = snd (evictLocked target p s)"
| "shard_exec FlushOp s = flushLocked s"
| "shard_exec (LimitOp b l) s = s\<lparr>budget := b, lowWater := l\<rparr>"

definition op_fits :: "shard \<Rightarrow> shard_op \<Rightarrow> bool" where
  "op_fits s op \<longleftrightarrow> (case op of SetOp k v x n \<Rightarrow> cost_fits k v \<and> length (slots s) < 2 ^ 31 - 1 | _ \<Rightarrow> True)"

inductive shard_reach :: "shard \<Rightarrow> bool" where
  new: "shard_reach (newShard k bm seed exact pol)"
| step: "shard_reach s \<Longrightarrow> op_fits s op \<Longrightarrow> shard_reach (shard_exec op s)"

lemma limits_wf: "wf_shard s \<Longrightarrow> wf_shard (s\<lparr>budget := b, lowWater := l\<rparr>)"
  by (auto simp: wf_shard_def wf_defs lru_list_def)

lemma shard_exec_wf:
  assumes "wf_shard s" "op_fits s op"
  shows "wf_shard (shard_exec op s)"
proof (cases op)
  case (GetOp k nowMs nowMono)
  then show ?thesis using shard_sim_wf [OF getLocked_sim assms(1)] by simp
next
  case (SetOp k v x n)
  then show ?thesis using setLocked_spec(1) [OF assms(1), of k v x n] assms(2)
    by (cases "setLocked k v x n s") (simp add: op_fits_def)
next
  case (DelOp k)
  then show ?thesis using delLocked_spec(1) [OF assms(1)] by (cases "delLocked k s") simp
next
  case (ExpireOp k x)
  then show ?thesis using expireLocked_Some(2) [OF assms(1)] expireLocked_None [of s k x] assms(1)
    by (cases "expireLocked k x s"; cases "map_of (entries s) k") auto
next
  case (ReapOp k now)
  obtain ok t where "reapLocked k now s = (ok, t)" by force
  with assms(1) ReapOp show ?thesis
    by (auto simp: expires_def shrinks_def elim!: reapLocked_spec)
next
  case (SweepOp now n)
  obtain sm c t where "sweepLocked now n s = ((sm, c), t)" by (metis prod.exhaust)
  with assms(1) SweepOp show ?thesis
    by (auto simp: expires_def shrinks_def elim!: sweepLocked_spec)
next
  case (EvictOp target p)
  then show ?thesis using evictLocked_spec [OF assms(1), of target p]
    by (cases "evictLocked target p s") (auto simp: shrinks_def)
next
  case FlushOp
  then show ?thesis by (simp add: flushLocked_spec)
next
  case (LimitOp b l)
  then show ?thesis using limits_wf [OF assms(1)] by simp
qed

lemma shard_reach_wf: "shard_reach s \<Longrightarrow> wf_shard s"
  by (induction rule: shard_reach.induct) (simp_all add: newShard_wf shard_exec_wf)

lemma mem_bound:
  assumes "wf_shard s"
  shows "0 \<le> memBytes s" "memBytes s < 2 ^ 63"
proof -
  have "entry_Size e \<le> 2 ^ 32 - 1" for e
    using uint_lt2p [of "eSize e"] by (simp add: entry_Size_def)
  then have "(\<Sum>a \<in> set (slots s). entry_Size (heap s a)) \<le> of_nat (card (set (slots s))) * (2 ^ 32 - 1)"
    by (intro sum_bounded_above) auto
  moreover have "card (set (slots s)) < 2 ^ 31"
    using card_length [of "slots s"] wf_shardD(2) [OF assms] by (simp add: wf_slots_def)
  moreover have m: "memBytes s = (\<Sum>a \<in> set (slots s). entry_Size (heap s a))"
    using wf_shardD(4) [OF assms] unfolding wf_mem_def by blast
  ultimately show "memBytes s < 2 ^ 63" by simp
  show "0 \<le> memBytes s"
    unfolding m by (rule sum_nonneg) simp
qed

section \<open>Properties\<close>

text \<open>
  C10. Whatever operations a shard executes, its indexes agree: the key map and the sampling slice
  hold the same entries, every entry knows its own position in \<^verbatim>\<open>slots\<close> and
  \<^verbatim>\<open>ttlSlots\<close>, the latter holds exactly the entries with a deadline, the memory counter is the
  sum of the entries' costs (and fits an int64), and with exact LRU the intrusive list is a
  well-linked permutation of the entries.
\<close>

theorem shard_invariant:
  assumes "shard_reach s"
  shows "wf_shard s \<and> length (entries s) = length (slots s)
    \<and> (\<forall>i < length (slots s). eSlot (heap s (slots s ! i)) = int i)
    \<and> (\<forall>i < length (ttlSlots s). eTtlSlot (heap s (ttlSlots s ! i)) = int i)
    \<and> memBytes s = (\<Sum>a \<in> set (slots s). EntryCost (length (eKey (heap s a))) (length (eValue (heap s a))))
    \<and> memBytes s < 2 ^ 63"
proof -
  note w = shard_reach_wf [OF assms]
  have "memBytes s = (\<Sum>a \<in> set (slots s). EntryCost (length (eKey (heap s a))) (length (eValue (heap s a))))"
    using wf_shardD(4) [OF w] by (auto simp: wf_mem_def)
  then show ?thesis
    using w wf_len [OF wf_shardD(1,2) [OF w]] mem_bound(2) [OF w] wf_shardD(2,3) [OF w]
    by (auto simp: wf_slots_def wf_ttl_def idx_ok_def)
qed

theorem shard_invariant_witness:
  "wf_shard (shard_exec (SetOp [107] [1, 2] 9 0) (newShard 5 200 1 True policyAllKeysLRU))
   \<and> memBytes (shard_exec (SetOp [107] [1, 2] 9 0) (newShard 5 200 1 True policyAllKeysLRU)) < 2 ^ 63"
proof -
  have "shard_reach (shard_exec (SetOp [107] [1, 2] 9 0) (newShard 5 200 1 True policyAllKeysLRU))"
    by (intro shard_reach.intros) (simp add: op_fits_def cost_fits_def EntryCost_def newShard_def)
  from shard_invariant [OF this] show ?thesis by blast
qed

text \<open>
  C9. A write either fails and changes nothing but the evictions it made, or binds the key to
  the new value and deadline. The only other keys that disappear are the ones reported to
  \<^verbatim>\<open>onEvict\<close>, never the written key; with no memory limit nothing is evicted and the write
  succeeds; with a limit an admitted write leaves the counter within the budget unless it was
  already above it, in which case it does not grow.
\<close>

theorem setLocked_correct:
  assumes "wf_shard s" "cost_fits k v" "length (slots s) < 2 ^ 31 - 1" "setLocked k v x now s = (ok, t)"
  shows "wf_shard t \<and> (\<exists>L. evicted t = evicted s @ L
     \<and> (\<forall>(k', r) \<in> set L. k' \<noteq> k \<and> r = ReasonEvicted \<and> k' \<in> dom (shard_abs s))
     \<and> shard_abs t = (if ok then (shard_abs s |` (- (fst ` set L)))(k \<mapsto> (v, x))
                       else shard_abs s |` (- (fst ` set L)))
     \<and> (0 < budget s \<and> ok \<longrightarrow> memBytes t \<le> max (memBytes s) (budget s))
     \<and> (\<not> ok \<longrightarrow> memBytes t \<le> memBytes s) \<and> (budget s \<le> 0 \<longrightarrow> ok \<and> L = []))"
  using setLocked_spec [OF assms] unfolding set_effect_def by blast

theorem setLocked_correct_witness:
  "shard_abs (snd (setLocked [107] [1, 2] 9 0 (newShard 5 200 1 True policyAllKeysLRU))) [107] = Some ([1, 2], 9)"
proof -
  obtain ok t where t: "setLocked [107] [1, 2] 9 0 (newShard 5 200 1 True policyAllKeysLRU) = (ok, t)" by force
  have "cost_fits [107] [1, 2]" "length (slots (newShard 5 200 1 True policyAllKeysLRU)) < 2 ^ 31 - 1"
    by (simp_all add: cost_fits_def EntryCost_def newShard_def)
  from setLocked_correct [OF newShard_wf this t] t show ?thesis by (auto simp: newShard_def)
qed

text \<open>
  Eviction ends in one of the intended ways: the counter is at or below the target, the
  batch limit is used up, or no entry may be evicted (with the volatile policy only keys with a
  deadline may). It reports every removed key, never removes the protected key, and leaves the
  values and deadlines of the remaining keys alone.
\<close>

theorem evictLocked_correct:
  assumes "wf_shard s" "policy s \<noteq> policyNoEviction" "evictLocked target p s = (n, t)"
  shows "wf_shard t \<and> n \<le> batchMax s \<and>
    (memBytes t \<le> target \<or> n = batchMax s \<or> (\<forall>a \<in> set (slots t). \<not> evictable t p a)) \<and>
    (\<exists>L. evicted t = evicted s @ L \<and> length L = n \<and> shard_abs t = shard_abs s |` (- (fst ` set L))
       \<and> p \<notin> fst ` set L)"
proof -
  obtain L where "shrinks s t L" "length L = n" "n \<le> batchMax s" "\<forall>(k, r) \<in> set L. k \<noteq> p \<and> r = ReasonEvicted"
    "memBytes t \<le> target \<or> n = batchMax s \<or> (\<forall>a \<in> set (slots t). \<not> evictable t p a)"
    using evictLocked_spec [OF assms(1,3)] assms(2) by blast
  then show ?thesis by (auto simp: shrinks_def intro!: exI [of _ L])
qed

definition one_key_shard :: shard where
  "one_key_shard = snd (setLocked [107] [1, 2] 9 3 (newShard 1 1 1 False policyAllKeysLRU))"

lemma one_key_shard_wf: "wf_shard one_key_shard"
proof -
  have "cost_fits [107] [1, 2]" "length (slots (newShard 1 1 1 False policyAllKeysLRU)) < 2 ^ 31 - 1"
    by (simp_all add: cost_fits_def EntryCost_def newShard_def)
  from setLocked_spec(1) [OF newShard_wf this, of 9 3 "fst (setLocked [107] [1, 2] 9 3 (newShard 1 1 1 False policyAllKeysLRU))"]
  show ?thesis unfolding one_key_shard_def by (metis prod.collapse)
qed

theorem evictLocked_correct_witness:
  "fst (evictLocked 0 [] one_key_shard) \<le> 1 \<and> wf_shard (snd (evictLocked 0 [] one_key_shard))"
proof -
  have c: "batchMax one_key_shard = 1" "policy one_key_shard \<noteq> policyNoEviction" by code_simp+
  obtain n t where e: "evictLocked 0 [] one_key_shard = (n, t)" by force
  from evictLocked_correct [OF one_key_shard_wf c(2) e] c(1) e show ?thesis by simp
qed

text \<open>
  Sampled LRU: the victim is evictable, and whenever at least one of the K drawn candidates
  is not the protected key, the victim is a drawn candidate whose last access is the oldest of
  the drawn candidates other than the protected key.
\<close>

theorem pickVictim_sampled_oldest:
  assumes "wf_shard s" "\<not> exactLRU s" "fst (pickVictimLocked p s) = Some v"
  defines "cands \<equiv> filter (\<lambda>c. eKey (heap s c) \<noteq> p) (drawn (sampleK s) (evict_pool s) (rng s))"
  shows "v \<in> set (slots s) \<and> evictable s p v \<and>
    (cands \<noteq> [] \<longrightarrow> v \<in> set cands \<and> (\<forall>c \<in> set cands. eLastAccess (heap s v) \<le> eLastAccess (heap s c)))"
proof -
  let ?d = "drawn (sampleK s) (evict_pool s) (rng s)"
  have "evict_pool s \<noteq> []" using assms(2,3) by (auto simp: pickVictimLocked_def)
  note P = pickVictim_sampled [OF assms(1,2) this, of p]
  have "v \<in> set cands \<and> (\<forall>c \<in> set cands. eLastAccess (heap s v) \<le> eLastAccess (heap s c))" if "cands \<noteq> []"
  proof -
    have "fold (better (heap s) p) ?d None \<noteq> None"
      using that fold_better_None [of "heap s" p ?d None] by (auto simp: cands_def filter_empty_conv)
    then obtain b a where ba: "fold (better (heap s) p) ?d None = Some (b, a)" by auto
    then have "v = b" using P assms(3) by simp
    then show ?thesis
      using fold_better_origin [OF ba] fold_better_min [OF ba] by (auto simp: cands_def)
  qed
  then show ?thesis using pickVictim_Some [OF assms(1,3)] by blast
qed

theorem pickVictim_sampled_oldest_witness:
  "fst (pickVictimLocked [] one_key_shard) = Some 0 \<and> evictable one_key_shard [] 0"
proof -
  have p: "\<not> exactLRU one_key_shard" "fst (pickVictimLocked [] one_key_shard) = Some 0" by code_simp+
  from pickVictim_sampled_oldest [OF one_key_shard_wf p] p show ?thesis by blast
qed

text \<open>
  A sampled expiry round removes only entries whose deadline has passed, reports each of
  them, and so changes nothing a reader at that time can see; it takes at most the requested
  number of samples.
\<close>

theorem sweepLocked_correct:
  assumes "wf_shard s" "sweepLocked now n s = ((sampled, cnt), t)"
  shows "wf_shard t \<and> live now (shard_abs t) = live now (shard_abs s) \<and> sampled \<le> n \<and> cnt \<le> sampled
    \<and> (\<exists>L. evicted t = evicted s @ L \<and> length L \<le> cnt \<and> shard_abs t = shard_abs s |` (- (fst ` set L))
        \<and> (\<forall>(k, r) \<in> set L. r = ReasonExpired \<and> (\<exists>v x. shard_abs s k = Some (v, x) \<and> expired_at x now)))"
proof -
  obtain L where L: "expires now s t L" "length L \<le> cnt" "cnt \<le> sampled" "sampled = min n (length (ttlSlots s))"
    by (rule sweepLocked_spec [OF assms])
  then show ?thesis
    using expires_live [OF L(1)] by (auto simp: expires_def shrinks_def intro!: exI [of _ L])
qed

theorem sweepLocked_correct_witness:
  "live 5 (shard_abs (snd (sweepLocked 5 20 (newShard 5 200 1 False policyAllKeysLRU)))) = Map.empty"
proof -
  have r: "sweepLocked 5 20 (newShard 5 200 1 False policyAllKeysLRU) = ((0, 0), newShard 5 200 1 False policyAllKeysLRU)"
    by (simp add: sweepLocked_def newShard_def)
  have "shard_abs (newShard 5 200 1 False policyAllKeysLRU) = Map.empty" by (simp add: newShard_def shard_abs_def fun_eq_iff)
  with sweepLocked_correct [OF newShard_wf r] r show ?thesis by (simp add: live_def fun_eq_iff)
qed

text \<open>
  With exact LRU the victim does not depend on reads: looking a key up moves no entry in the
  list, so a key that is read constantly but not written is evicted first all the same.
\<close>

theorem exact_lru_ignores_reads:
  assumes "exactLRU s"
  shows "fst (pickVictimLocked p (snd (getLocked k nowMs nowMono s))) = fst (pickVictimLocked p s)"
proof -
  let ?t = "snd (getLocked k nowMs nowMono s)"
  note sm = getLocked_sim [of k nowMs nowMono s]
  note F = shard_sim_fields [OF sm] shard_simD [OF sm]
  have ev: "evictable ?t p a = evictable s p a" for a
    by (simp add: evictable_def F)
  have "lru_walk n p ?t q = lru_walk n p s q" for n q
  proof (induction n arbitrary: q)
    case (Suc n)
    then show ?case by (cases q) (simp_all add: ev F)
  qed simp
  then show ?thesis using assms by (simp add: pickVictimLocked_def F)
qed

theorem exact_lru_ignores_reads_witness:
  "fst (pickVictimLocked [] (snd (getLocked [107] 0 9 (newShard 5 200 1 True policyAllKeysLRU)))) = None"
  using exact_lru_ignores_reads [of "newShard 5 200 1 True policyAllKeysLRU" "[]" "[107]" 0 9]
  by (simp add: newShard_def pickVictimLocked_def)

end
