(* ===== verification/Reference.thy ===== *)
theory Reference
  imports Shard "HOL-Library.AList"
begin

text \<open>
  \<^verbatim>\<open>internal/store/reference.go\<close>: the naive store (one map, no shards, no memory limit) that the
  repository compares the real store against. The clock reading an operation takes is its
  argument. Iteration over the Go map visits the keys in the association list's order, one of the
  orders Go may choose.
\<close>

record refEntry =
  rValue :: bytes
  rExpireAt :: u64

type_synonym Reference = "(bytes \<times> refEntry) list"

definition NewReference :: Reference where
  "NewReference = []"

definition ref_live :: "bytes \<Rightarrow> u64 \<Rightarrow> Reference \<Rightarrow> refEntry option \<times> Reference" where
  "ref_live k nowMs r = (case map_of r k of
       None \<Rightarrow> (None, r)
     | Some e \<Rightarrow> if rExpireAt e \<noteq> 0 \<and> rExpireAt e \<le> nowMs then (None, AList.delete k r) else (Some e, r))"

definition ref_Get :: "bytes \<Rightarrow> u64 \<Rightarrow> Reference \<Rightarrow> (bytes \<times> bool) \<times> Reference" where
  "ref_Get key now r = (case ref_live key now r of
       (None, r) \<Rightarrow> (([], False), r)
     | (Some e, r) \<Rightarrow> ((rValue e, True), r))"

definition ref_Set :: "bytes \<Rightarrow> bytes \<Rightarrow> u64 \<Rightarrow> Reference \<Rightarrow> Reference" where
  "ref_Set key val expireAt r = AList.update key \<lparr>rValue = val, rExpireAt = expireAt\<rparr> r"

definition ref_Delete :: "bytes \<Rightarrow> u64 \<Rightarrow> Reference \<Rightarrow> bool \<times> Reference" where
  "ref_Delete key now r = (let (e, r) = ref_live key now r in (e \<noteq> None, AList.delete key r))"

definition ref_Exists :: "bytes \<Rightarrow> u64 \<Rightarrow> Reference \<Rightarrow> bool \<times> Reference" where
  "ref_Exists key now r = (let (e, r) = ref_live key now r in (e \<noteq> None, r))"

definition ref_Expire :: "bytes \<Rightarrow> u64 \<Rightarrow> u64 \<Rightarrow> Reference \<Rightarrow> bool \<times> Reference" where
  "ref_Expire key expireAt now r = (case ref_live key now r of
       (None, r) \<Rightarrow> (False, r)
     | (Some e, r) \<Rightarrow> (True, AList.update key (e\<lparr>rExpireAt := expireAt\<rparr>) r))"

text \<open>\<open>int64(a) - int64(b)\<close> with the wrap-around of 64-bit subtraction, cut off at 0.\<close>

definition remaining_ms :: "u64 \<Rightarrow> u64 \<Rightarrow> int" where
  "remaining_ms expireAt now = (let ms = sint (expireAt - now) in if ms < 0 then 0 else ms)"

definition ref_TTL :: "bytes \<Rightarrow> u64 \<Rightarrow> Reference \<Rightarrow> (int \<times> bool) \<times> Reference" where
  "ref_TTL key now r = (case ref_live key now r of
       (None, r) \<Rightarrow> ((0, False), r)
     | (Some e, r) \<Rightarrow> (if rExpireAt e = 0 then ((- 1, True), r) else ((remaining_ms (rExpireAt e) now, True), r)))"

definition ref_Len :: "u64 \<Rightarrow> Reference \<Rightarrow> nat \<times> Reference" where
  "ref_Len now r = (let r = fold (\<lambda>k r. snd (ref_live k now r)) (map fst r) r in (length r, r))"

definition ref_Flush :: "Reference \<Rightarrow> Reference" where
  "ref_Flush r = []"

fun ref_keys_loop :: "bytes list \<Rightarrow> u64 \<Rightarrow> bytes list \<Rightarrow> Reference \<Rightarrow> bytes list \<times> Reference" where
  "ref_keys_loop [] now out r = (out, r)"
| "ref_keys_loop (k # ks) now out r =
     (case ref_live k now r of
        (None, r) \<Rightarrow> ref_keys_loop ks now out r
      | (Some e, r) \<Rightarrow> ref_keys_loop ks now (out @ [k]) r)"

definition ref_Keys :: "u64 \<Rightarrow> Reference \<Rightarrow> bytes list \<times> Reference" where
  "ref_Keys now r = ref_keys_loop (map fst r) now [] r"

section \<open>The map a reference store denotes\<close>

definition ref_abs :: "Reference \<Rightarrow> bytes \<Rightarrow> (bytes \<times> u64) option" where
  "ref_abs r k = map_option (\<lambda>e. (rValue e, rExpireAt e)) (map_of r k)"

definition reap_key :: "bytes \<Rightarrow> u64 \<Rightarrow> (bytes \<Rightarrow> (bytes \<times> u64) option) \<Rightarrow> bytes \<Rightarrow> (bytes \<times> u64) option" where
  "reap_key k now m = (case m k of None \<Rightarrow> m | Some (v, x) \<Rightarrow> if expired_at x now then m(k := None) else m)"

lemma ref_live_spec:
  assumes "ref_live k now r = (e, r')"
  shows "ref_abs r' = reap_key k now (ref_abs r)"
    "map_option (\<lambda>e. (rValue e, rExpireAt e)) e = reap_key k now (ref_abs r) k"
    "map_of r' k = e"
proof -
  have "ref_abs r' = reap_key k now (ref_abs r) \<and>
    map_option (\<lambda>e. (rValue e, rExpireAt e)) e = reap_key k now (ref_abs r) k \<and> map_of r' k = e"
  proof (cases "map_of r k")
    case None
    then show ?thesis using assms by (auto simp: ref_live_def reap_key_def ref_abs_def)
  next
    case (Some x)
    show ?thesis
    proof (cases "expired_at (rExpireAt x) now")
      case True
      then have "e = None" "r' = AList.delete k r"
        using Some assms by (simp_all add: ref_live_def expired_at_def)
      then show ?thesis
        using Some True by (auto simp: reap_key_def ref_abs_def AList.delete_conv' fun_eq_iff)
    next
      case False
      then have "e = Some x" "r' = r"
        using Some assms by (auto simp: ref_live_def expired_at_def split: if_splits)
      then show ?thesis using Some False by (simp add: reap_key_def ref_abs_def)
    qed
  qed
  then show "ref_abs r' = reap_key k now (ref_abs r)"
    "map_option (\<lambda>e. (rValue e, rExpireAt e)) e = reap_key k now (ref_abs r) k" "map_of r' k = e"
    by blast+
qed

end
