(* ===== verification/Store.thy ===== *)
theory Store
  imports Shard_Spec Reference
begin

text \<open>
  \<^verbatim>\<open>internal/store/store.go\<close>, \<^verbatim>\<open>memory.go\<close> and \<^verbatim>\<open>expiry.go\<close>: the sharded store. A key is routed to one
  shard by its hash; an operation runs a function on that shard with the shard's lock held (or in
  the shard's actor), so one operation is one state change, or two for a read that finds an
  expired entry: the read and the separate reaping pass. The readings of the clock an operation
  takes are its arguments. Calls of the registered callbacks are recorded in \<open>firedEvict\<close> and
  \<open>firedTTL\<close>, oldest first.
\<close>

section \<open>Options\<close>

abbreviation EngineSharded :: string where "EngineSharded \<equiv> ''sharded''"
abbreviation EngineGlobal :: string where "EngineGlobal \<equiv> ''global''"
abbreviation EngineActor :: string where "EngineActor \<equiv> ''actor''"

abbreviation EvictAllKeysLRU :: string where "EvictAllKeysLRU \<equiv> ''allkeys-lru''"
abbreviation EvictVolatile :: string where "EvictVolatile \<equiv> ''volatile-lru''"
abbreviation EvictNone :: string where "EvictNone \<equiv> ''noeviction''"

record Options =
  oEngine :: string
  oShards :: int
  oSeed :: u64
  oMaxMemory :: int
  oLowWater :: int
  oPolicy :: string
  oExactLRU :: bool
  oEvictSampleK :: int
  oEvictBatch :: int
  oActorQueue :: int

text \<open>
  Float64 products of an integer and a constant \<open>c / 2 ^ e\<close> (\<open>c\<close> of 53 bits), truncated to an
  integer: the integer is rounded to 53 bits, the exact product is rounded to 53 bits, ties to even.
\<close>

fun bit_length :: "nat \<Rightarrow> nat" where
  "bit_length n = (if n = 0 then 0 else Suc (bit_length (n div 2)))"

declare bit_length.simps [simp del]

definition round53 :: "nat \<Rightarrow> nat" where
  "round53 n = (let k = bit_length n - 53; q = n div 2 ^ k; r = 2 * (n mod 2 ^ k)
     in if k = 0 then n
        else (if r > 2 ^ k \<or> r = 2 ^ k \<and> odd q then q + 1 else q) * 2 ^ k)"

definition float_scale :: "int \<Rightarrow> nat \<Rightarrow> nat \<Rightarrow> int" where
  "float_scale m c e = sgn m * int (round53 (round53 (nat \<bar>m\<bar>) * c) div 2 ^ e)"

definition withDefaults :: "bytes option \<Rightarrow> Options \<Rightarrow> Options" where
  "withDefaults entropy o0 =
     (let o1 = (if oEngine o0 = '''' then o0\<lparr>oEngine := EngineSharded\<rparr> else o0);
          o1 = (if oEngine o1 = EngineGlobal then o1\<lparr>oShards := 1\<rparr> else o1);
          o1 = (if oShards o1 \<le> 0 then o1\<lparr>oShards := 16\<rparr> else o1);
          o1 = (if oSeed o1 = 0 then o1\<lparr>oSeed := NewSeed entropy\<rparr> else o1);
          o1 = (if oEvictSampleK o1 \<le> 0 then o1\<lparr>oEvictSampleK := 5\<rparr> else o1);
          o1 = (if oEvictBatch o1 \<le> 0 then o1\<lparr>oEvictBatch := 200\<rparr> else o1);
          o1 = (if oActorQueue o1 \<le> 0 then o1\<lparr>oActorQueue := 1024\<rparr> else o1);
          o1 = (if oPolicy o1 = '''' then o1\<lparr>oPolicy := EvictAllKeysLRU\<rparr> else o1)
      in if oMaxMemory o1 > 0 \<and> oLowWater o1 \<le> 0
         then o1\<lparr>oLowWater := float_scale (oMaxMemory o1) 8556839292003942 53\<rparr> else o1)"

section \<open>The store\<close>

record Store =
  opts :: Options
  shards :: "shard list"
  mask :: u64
  seed :: u64
  onEvictSet :: bool
  onTTLSet :: bool
  firedEvict :: "(bytes \<times> EvictReason) list"
  firedTTL :: "(bytes \<times> u64) list"

definition shard_policy :: "string \<Rightarrow> evictPolicy" where
  "shard_policy p = (if p = EvictVolatile then policyVolatileLRU
     else if p = EvictNone then policyNoEviction else policyAllKeysLRU)"

definition new_shard_i :: "Options \<Rightarrow> nat \<Rightarrow> shard" where
  "new_shard_i o1 i =
     (let sh = newShard (nat (oEvictSampleK o1)) (nat (oEvictBatch o1))
                 (oSeed o1 + word_of_nat i * 0x9E3779B97F4A7C15) (oExactLRU o1) (shard_policy (oPolicy o1))
      in if oMaxMemory o1 > 0
         then let b = oMaxMemory o1 div oShards o1
              in sh\<lparr>budget := (if b < 1 then 1 else b), lowWater := oLowWater o1 div oShards o1\<rparr>
         else sh)"

definition store_New :: "bytes option \<Rightarrow> Options \<Rightarrow> Store" where
  "store_New entropy o0 =
     (let o1 = withDefaults entropy o0
      in \<lparr>opts = o1, shards = map (new_shard_i o1) [0..<nat (oShards o1)],
          mask = word_of_int (oShards o1 - 1), seed = oSeed o1,
          onEvictSet = False, onTTLSet = False, firedEvict = [], firedTTL = []\<rparr>)"

definition SetOnEvict :: "bool \<Rightarrow> Store \<Rightarrow> Store" where
  "SetOnEvict registered s = s\<lparr>onEvictSet := registered\<rparr>"

definition SetOnTTL :: "bool \<Rightarrow> Store \<Rightarrow> Store" where
  "SetOnTTL registered s = s\<lparr>onTTLSet := registered\<rparr>"

definition fireEvict :: "(bytes \<times> EvictReason) list \<Rightarrow> Store \<Rightarrow> Store" where
  "fireEvict calls s = (if onEvictSet s then s\<lparr>firedEvict := firedEvict s @ calls\<rparr> else s)"

definition fireTTL :: "bytes \<Rightarrow> u64 \<Rightarrow> Store \<Rightarrow> Store" where
  "fireTTL key expireAt s =
     (if expireAt = 0 then s
      else if onTTLSet s then s\<lparr>firedTTL := firedTTL s @ [(key, expireAt)]\<rparr> else s)"

definition shardFor :: "Store \<Rightarrow> bytes \<Rightarrow> nat" where
  "shardFor s key = (if length (shards s) = 1 then 0 else unat (Hash64 (seed s) key AND mask s))"

text \<open>
  Running \<open>fn\<close> on shard \<open>i\<close>. The shard's \<^verbatim>\<open>onEvict\<close> is \<^verbatim>\<open>Store.fireEvict\<close>, so the calls \<open>fn\<close>
  makes are handed on in their order.
\<close>

definition withWrite :: "nat \<Rightarrow> (shard \<Rightarrow> 'r \<times> shard) \<Rightarrow> Store \<Rightarrow> 'r \<times> Store" where
  "withWrite i fn s =
     (let (r, sh) = fn ((shards s ! i)\<lparr>evicted := []\<rparr>)
      in (r, fireEvict (evicted sh) (s\<lparr>shards := (shards s)[i := sh\<lparr>evicted := []\<rparr>]\<rparr>)))"

definition withRead :: "nat \<Rightarrow> (shard \<Rightarrow> 'r \<times> shard) \<Rightarrow> Store \<Rightarrow> 'r \<times> Store" where
  "withRead i fn s =
     (let (r, sh) = fn ((shards s ! i)\<lparr>evicted := []\<rparr>)
      in (r, fireEvict (evicted sh) (s\<lparr>shards := (shards s)[i := sh\<lparr>evicted := []\<rparr>]\<rparr>)))"

section \<open>Key operations\<close>

definition reap_if :: "bool \<Rightarrow> nat \<Rightarrow> bytes \<Rightarrow> u64 \<Rightarrow> Store \<Rightarrow> Store" where
  "reap_if reap i k nowMs s = (if reap then snd (withWrite i (reapLocked k nowMs) s) else s)"

definition store_Get :: "bytes \<Rightarrow> u64 \<Rightarrow> u64 \<Rightarrow> Store \<Rightarrow> (bytes \<times> bool) \<times> Store" where
  "store_Get key nowMs nowMono s =
     (let i = shardFor s key;
          ((out, ok, reap), s) = withRead i (\<lambda>sh.
             let ((e, found, needsReap), sh) = getLocked key nowMs nowMono sh;
                 out = (case e of Some a \<Rightarrow> eValue (heap sh a) | None \<Rightarrow> [])
             in ((out, found, needsReap), sh)) s
      in ((out, ok), reap_if reap i key nowMs s))"

definition store_Set :: "bytes \<Rightarrow> bytes \<Rightarrow> u64 \<Rightarrow> u64 \<Rightarrow> Store \<Rightarrow> bool \<times> Store" where
  "store_Set key val expireAt nowMono s =
     (let (ok, s) = withWrite (shardFor s key) (setLocked key val expireAt nowMono) s
      in if ok then (True, fireTTL key expireAt s) else (False, s))"

definition delete_live :: "bytes \<Rightarrow> u64 \<Rightarrow> shard \<Rightarrow> bool \<times> shard" where
  "delete_live k nowMs sh = (case map_of (entries sh) k of
       Some e \<Rightarrow> if entry_Expired (heap sh e) nowMs then (False, removeEntryLocked e sh) else delLocked k sh
     | None \<Rightarrow> delLocked k sh)"

definition store_Delete :: "bytes \<Rightarrow> u64 \<Rightarrow> Store \<Rightarrow> bool \<times> Store" where
  "store_Delete key nowMs s = withWrite (shardFor s key) (delete_live key nowMs) s"

definition store_Exists :: "bytes \<Rightarrow> u64 \<Rightarrow> u64 \<Rightarrow> Store \<Rightarrow> bool \<times> Store" where
  "store_Exists key nowMs nowMono s =
     (let i = shardFor s key;
          ((ok, reap), s) = withRead i (\<lambda>sh.
             let ((e, found, needsReap), sh) = getLocked key nowMs nowMono sh
             in ((found, needsReap), sh)) s
      in (ok, reap_if reap i key nowMs s))"

definition expire_live :: "bytes \<Rightarrow> u64 \<Rightarrow> u64 \<Rightarrow> shard \<Rightarrow> bool \<times> shard" where
  "expire_live k expireAt nowMs sh = (case map_of (entries sh) k of
       Some e \<Rightarrow> if entry_Expired (heap sh e) nowMs then (False, snd (reapLocked k nowMs sh))
                  else expireLocked k expireAt sh
     | None \<Rightarrow> expireLocked k expireAt sh)"

definition store_Expire :: "bytes \<Rightarrow> u64 \<Rightarrow> u64 \<Rightarrow> Store \<Rightarrow> bool \<times> Store" where
  "store_Expire key expireAt nowMs s =
     (let (ok, s) = withWrite (shardFor s key) (expire_live key expireAt nowMs) s
      in (ok, if ok then fireTTL key expireAt s else s))"

definition store_TTL :: "bytes \<Rightarrow> u64 \<Rightarrow> u64 \<Rightarrow> Store \<Rightarrow> (int \<times> bool) \<times> Store" where
  "store_TTL key nowMs nowMono s =
     (let i = shardFor s key;
          ((ms, ok, reap), s) = withRead i (\<lambda>sh.
             let ((e, found, needsReap), sh) = getLocked key nowMs nowMono sh;
                 ms = (case e of Some a \<Rightarrow> if eExpireAt (heap sh a) = 0 then - 1
                                           else remaining_ms (eExpireAt (heap sh a)) nowMs
                       | None \<Rightarrow> 0)
             in ((ms, found, needsReap), sh)) s
      in ((ms, ok), reap_if reap i key nowMs s))"

section \<open>Scans\<close>

fun hasPrefix :: "bytes \<Rightarrow> bytes \<Rightarrow> bool" where
  "hasPrefix b [] = True"
| "hasPrefix [] (p # ps) = False"
| "hasPrefix (c # cs) (p # ps) = (c = p \<and> hasPrefix cs ps)"

fun keys_slots :: "nat \<Rightarrow> u64 \<Rightarrow> bytes \<Rightarrow> (addr \<Rightarrow> entry) \<Rightarrow> addr list \<Rightarrow> bytes list \<Rightarrow> bytes list" where
  "keys_slots limit nowMs prefix h [] out = out"
| "keys_slots limit nowMs prefix h (a # as) out =
     (if length out \<ge> limit then out
      else if entry_Expired (h a) nowMs then keys_slots limit nowMs prefix h as out
      else if prefix \<noteq> [] \<and> \<not> hasPrefix (eKey (h a)) prefix then keys_slots limit nowMs prefix h as out
      else keys_slots limit nowMs prefix h as (out @ [eKey (h a)]))"

fun keys_shards :: "nat \<Rightarrow> u64 \<Rightarrow> bytes \<Rightarrow> shard list \<Rightarrow> bytes list \<Rightarrow> bytes list" where
  "keys_shards limit nowMs prefix [] out = out"
| "keys_shards limit nowMs prefix (sh # shs) out =
     (if length out \<ge> limit then out
      else keys_shards limit nowMs prefix shs (keys_slots limit nowMs prefix (heap sh) (slots sh) out))"

definition store_Keys :: "bytes \<Rightarrow> int \<Rightarrow> u64 \<Rightarrow> Store \<Rightarrow> bytes list" where
  "store_Keys prefix limit nowMs s =
     keys_shards (nat (if limit \<le> 0 then 100 else limit)) nowMs prefix (shards s) []"

definition store_Flush :: "Store \<Rightarrow> Store" where
  "store_Flush s = fold (\<lambda>i s. snd (withWrite i (\<lambda>sh. ((), flushLocked sh)) s)) [0..<length (shards s)] s"

definition store_Len :: "Store \<Rightarrow> nat" where
  "store_Len s = sum_list (map (\<lambda>sh. length (entries sh)) (shards s))"

definition store_MemoryBytes :: "Store \<Rightarrow> int" where
  "store_MemoryBytes s = sum_list (map memBytes (shards s))"

text \<open>
  \<^verbatim>\<open>Range\<close> with a callback that carries a state and says whether to go on. Between two batches the
  lock is released; the model has no other operation run there.
\<close>

fun range_calls :: "(entry \<Rightarrow> 'c \<Rightarrow> bool \<times> 'c) \<Rightarrow> entry list \<Rightarrow> 'c \<Rightarrow> bool \<times> 'c" where
  "range_calls fn [] c = (True, c)"
| "range_calls fn (e # es) c = (case fn e c of (False, c) \<Rightarrow> (False, c) | (True, c) \<Rightarrow> range_calls fn es c)"

definition range_batch :: "nat \<Rightarrow> u64 \<Rightarrow> shard \<Rightarrow> entry list" where
  "range_batch offset nowMs sh =
     take 256 (map (\<lambda>a. entry_Clone (heap sh a)) (filter (\<lambda>a. \<not> entry_Expired (heap sh a) nowMs) (drop offset (slots sh))))"

function range_shard :: "(entry \<Rightarrow> 'c \<Rightarrow> bool \<times> 'c) \<Rightarrow> u64 \<Rightarrow> shard \<Rightarrow> nat \<Rightarrow> 'c \<Rightarrow> bool \<times> 'c" where
  "range_shard fn nowMs sh offset c =
     (let batch = range_batch offset nowMs sh;
          total = length (slots sh);
          scanned = min 256 (total - offset)
      in if scanned = 0 then (True, c)
         else case range_calls fn batch c of
                (False, c) \<Rightarrow> (False, c)
              | (True, c) \<Rightarrow> if offset + scanned \<ge> total then (True, c)
                              else range_shard fn nowMs sh (offset + scanned) c)"
  by pat_completeness auto
termination
  by (relation "measure (\<lambda>(_, _, sh, offset, _). length (slots sh) - offset)") auto

declare range_shard.simps [simp del]

fun range_shards :: "(entry \<Rightarrow> 'c \<Rightarrow> bool \<times> 'c) \<Rightarrow> u64 \<Rightarrow> shard list \<Rightarrow> 'c \<Rightarrow> 'c" where
  "range_shards fn nowMs [] c = c"
| "range_shards fn nowMs (sh # shs) c =
     (case range_shard fn nowMs sh 0 c of (False, c) \<Rightarrow> c | (True, c) \<Rightarrow> range_shards fn nowMs shs c)"

definition store_Range :: "(entry \<Rightarrow> 'c \<Rightarrow> bool \<times> 'c) \<Rightarrow> u64 \<Rightarrow> Store \<Rightarrow> 'c \<Rightarrow> 'c" where
  "store_Range fn nowMs s c = range_shards fn nowMs (shards s) c"

section \<open>Transactions\<close>

record Txn =
  tShard :: shard
  tNowMs :: u64
  tNowMono :: u64

definition txn_Set :: "bytes \<Rightarrow> bytes \<Rightarrow> u64 \<Rightarrow> Txn \<Rightarrow> bool \<times> Txn" where
  "txn_Set key val expireAt t =
     (let (ok, sh) = setLocked key val expireAt (tNowMono t) (tShard t) in (ok, t\<lparr>tShard := sh\<rparr>))"

definition txn_Delete :: "bytes \<Rightarrow> Txn \<Rightarrow> bool \<times> Txn" where
  "txn_Delete key t = (let (ok, sh) = delete_live key (tNowMs t) (tShard t) in (ok, t\<lparr>tShard := sh\<rparr>))"

definition txn_Expire :: "bytes \<Rightarrow> u64 \<Rightarrow> Txn \<Rightarrow> bool \<times> Txn" where
  "txn_Expire key expireAt t = (let (ok, sh) = expire_live key expireAt (tNowMs t) (tShard t) in (ok, t\<lparr>tShard := sh\<rparr>))"

definition txn_Exists :: "bytes \<Rightarrow> Txn \<Rightarrow> bool" where
  "txn_Exists key t = (case map_of (entries (tShard t)) key of
       Some e \<Rightarrow> \<not> entry_Expired (heap (tShard t) e) (tNowMs t) | None \<Rightarrow> False)"

definition store_WithKey :: "bytes \<Rightarrow> u64 \<Rightarrow> u64 \<Rightarrow> (Txn \<Rightarrow> 'r \<times> Txn) \<Rightarrow> Store \<Rightarrow> 'r \<times> Store" where
  "store_WithKey key nowMs nowMono fn s =
     withWrite (shardFor s key) (\<lambda>sh.
       let (r, t) = fn \<lparr>tShard = sh, tNowMs = nowMs, tNowMono = nowMono\<rparr> in (r, tShard t)) s"

section \<open>Memory control\<close>

definition limit_shard :: "int \<Rightarrow> int \<Rightarrow> int \<Rightarrow> shard \<Rightarrow> shard" where
  "limit_shard maxMemory low n sh =
     (if maxMemory \<le> 0 then sh\<lparr>budget := 0, lowWater := 0\<rparr>
      else let b = maxMemory div n in sh\<lparr>budget := (if b < 1 then 1 else b), lowWater := low div n\<rparr>)"

definition SetMemoryLimit :: "int \<Rightarrow> nat \<times> nat \<Rightarrow> Store \<Rightarrow> Store" where
  "SetMemoryLimit maxMemory ratio s =
     (let low = float_scale maxMemory (fst ratio) (snd ratio);
          s = s\<lparr>opts := (opts s)\<lparr>oMaxMemory := maxMemory, oLowWater := low\<rparr>\<rparr>;
          n = int (length (shards s))
      in fold (\<lambda>i s. snd (withWrite i (\<lambda>sh. ((), limit_shard maxMemory low n sh)) s)) [0..<length (shards s)] s)"

definition evict_to_budget :: "shard \<Rightarrow> nat \<times> shard" where
  "evict_to_budget sh =
     (if budget sh \<le> 0 \<or> memBytes sh \<le> budget sh then (0, sh) else evictLocked (lowWater sh) [] sh)"

definition EvictToLimit :: "Store \<Rightarrow> nat \<times> Store" where
  "EvictToLimit s = fold (\<lambda>i (total, s). let (n, s) = withWrite i evict_to_budget s in (total + n, s))
     [0..<length (shards s)] (0, s)"

record Stats =
  stShards :: nat
  stKeys :: nat
  stKeysWithTTL :: nat
  stLogicalBytes :: int
  stMaxMemory :: int
  stLowWater :: int
  stHits :: u64
  stMisses :: u64
  stEvictions :: u64
  stExpired :: u64
  stShardKeys :: "nat list"
  stShardBytes :: "int list"

definition store_Stats :: "Store \<Rightarrow> Stats" where
  "store_Stats s =
     \<lparr>stShards = length (shards s),
      stKeys = sum_list (map (\<lambda>sh. length (entries sh)) (shards s)),
      stKeysWithTTL = sum_list (map (\<lambda>sh. length (ttlSlots sh)) (shards s)),
      stLogicalBytes = sum_list (map memBytes (shards s)),
      stMaxMemory = oMaxMemory (opts s), stLowWater = oLowWater (opts s),
      stHits = sum_list (map hits (shards s)), stMisses = sum_list (map misses (shards s)),
      stEvictions = sum_list (map evictions (shards s)), stExpired = sum_list (map expired (shards s)),
      stShardKeys = map (\<lambda>sh. length (entries sh)) (shards s),
      stShardBytes = map memBytes (shards s)\<rparr>"

section \<open>Active expiry\<close>

text \<open>One locked pass of \<^verbatim>\<open>PurgeExpired\<close>: \<^verbatim>\<open>ttlSlots\<close> from the end, at most 1024 removals.\<close>

fun purge_pass :: "nat \<Rightarrow> u64 \<Rightarrow> nat \<Rightarrow> shard \<Rightarrow> nat \<times> shard" where
  "purge_pass 0 nowMs removed sh = (removed, sh)"
| "purge_pass (Suc j) nowMs removed sh =
     (if removed < 1024
      then let e = ttlSlots sh ! j
           in if entry_Expired (heap sh e) nowMs then purge_pass j nowMs (removed + 1) (expire_remove e sh)
              else purge_pass j nowMs removed sh
      else (removed, sh))"

fun purge_shard :: "nat \<Rightarrow> nat \<Rightarrow> u64 \<Rightarrow> nat \<Rightarrow> Store \<Rightarrow> (nat \<times> Store) option" where
  "purge_shard 0 i nowMs tot s = None"
| "purge_shard (Suc fuel) i nowMs tot s =
     (let (removed, s) = withWrite i (\<lambda>sh. purge_pass (length (ttlSlots sh)) nowMs 0 sh) s
      in if removed < 1024 then Some (tot + removed, s)
         else purge_shard fuel i nowMs (tot + removed) s)"

fun purge_shards :: "nat list \<Rightarrow> u64 \<Rightarrow> nat \<Rightarrow> Store \<Rightarrow> (nat \<times> Store) option" where
  "purge_shards [] nowMs tot s = Some (tot, s)"
| "purge_shards (i # is) nowMs tot s =
     (case purge_shard (Suc (length (ttlSlots (shards s ! i)))) i nowMs tot s of
        None \<Rightarrow> None
      | Some (tot, s) \<Rightarrow> purge_shards is nowMs tot s)"

definition PurgeExpired :: "u64 \<Rightarrow> Store \<Rightarrow> (nat \<times> Store) option" where
  "PurgeExpired nowMs s = purge_shards [0..<length (shards s)] nowMs 0 s"

end
