(* ===== verification/KV_Interface.thy ===== *)
theory KV_Interface
  imports Store
begin

text \<open>
  The contract of a key-value store with deadlines, as a locale: what each operation returns and
  what it does to the finite map the store denotes. The naive reference store and the sharded store
  (without a memory limit) both satisfy it; a client that only uses the contract cannot tell them
  apart.
\<close>

section \<open>The abstract map\<close>

type_synonym kv = "bytes \<Rightarrow> (bytes \<times> u64) option"

definition spec_get :: "bytes \<Rightarrow> u64 \<Rightarrow> kv \<Rightarrow> bytes \<times> bool" where
  "spec_get k now m = (case live now m k of Some (v, x) \<Rightarrow> (v, True) | None \<Rightarrow> ([], False))"

definition spec_ttl :: "bytes \<Rightarrow> u64 \<Rightarrow> kv \<Rightarrow> int \<times> bool" where
  "spec_ttl k now m = (case live now m k of
       Some (v, x) \<Rightarrow> (if x = 0 then - 1 else remaining_ms x now, True) | None \<Rightarrow> (0, False))"

definition spec_expire :: "bytes \<Rightarrow> u64 \<Rightarrow> u64 \<Rightarrow> kv \<Rightarrow> kv" where
  "spec_expire k x now m = (case live now m k of
       Some (v, _) \<Rightarrow> m(k \<mapsto> (v, x)) | None \<Rightarrow> m(k := None))"

datatype cmd =
    CGet bytes u64 u64
  | CSet bytes bytes u64 u64
  | CDelete bytes u64
  | CExists bytes u64 u64
  | CExpire bytes u64 u64
  | CTTL bytes u64 u64
  | CFlush

datatype reply = RValue "bytes \<times> bool" | ROk bool | RTTL "int \<times> bool" | RDone

fun spec_step :: "cmd \<Rightarrow> kv \<Rightarrow> reply \<times> kv" where
  "spec_step (CGet k now nm) m = (RValue (spec_get k now m), reap_key k now m)"
| "spec_step (CSet k v x nm) m = (ROk True, m(k \<mapsto> (v, x)))"
| "spec_step (CDelete k now) m = (ROk (live now m k \<noteq> None), m(k := None))"
| "spec_step (CExists k now nm) m = (ROk (live now m k \<noteq> None), reap_key k now m)"
| "spec_step (CExpire k x now) m = (ROk (live now m k \<noteq> None), spec_expire k x now m)"
| "spec_step (CTTL k now nm) m = (RTTL (spec_ttl k now m), reap_key k now m)"
| "spec_step CFlush m = (RDone, Map.empty)"

fun run_cmds :: "(cmd \<Rightarrow> 's \<Rightarrow> reply \<times> 's) \<Rightarrow> cmd list \<Rightarrow> 's \<Rightarrow> reply list \<times> 's" where
  "run_cmds step [] s = ([], s)"
| "run_cmds step (c # cs) s = (let (r, s) = step c s; (rs, s) = run_cmds step cs s in (r # rs, s))"

fun cmd_fits :: "cmd \<Rightarrow> bool" where
  "cmd_fits (CSet k v x nm) = cost_fits k v"
| "cmd_fits _ = True"

section \<open>The interface\<close>

text \<open>
  \<open>room n s\<close>: \<open>s\<close> is well formed and can take \<open>n\<close> more writes before an index exceeds its
  width.
\<close>

locale kv_store =
  fixes lookup :: "'s \<Rightarrow> kv"
    and room :: "nat \<Rightarrow> 's \<Rightarrow> bool"
    and step :: "cmd \<Rightarrow> 's \<Rightarrow> reply \<times> 's"
  assumes step_reply: "room (Suc n) s \<Longrightarrow> cmd_fits c \<Longrightarrow> fst (step c s) = fst (spec_step c (lookup s))"
    and step_lookup: "room (Suc n) s \<Longrightarrow> cmd_fits c \<Longrightarrow> lookup (snd (step c s)) = snd (spec_step c (lookup s))"
    and step_room: "room (Suc n) s \<Longrightarrow> cmd_fits c \<Longrightarrow> room n (snd (step c s))"
begin

lemma run_replies:
  assumes "room (length cs) s" "list_all cmd_fits cs"
  shows "fst (run_cmds step cs s) = fst (run_cmds spec_step cs (lookup s))"
    and "lookup (snd (run_cmds step cs s)) = snd (run_cmds spec_step cs (lookup s))"
proof -
  have "fst (run_cmds step cs s) = fst (run_cmds spec_step cs (lookup s))
    \<and> lookup (snd (run_cmds step cs s)) = snd (run_cmds spec_step cs (lookup s))"
    using assms
  proof (induction cs arbitrary: s)
    case (Cons c cs)
    obtain r t where rt: "step c s = (r, t)" by force
    then have "room (length cs) t" "lookup t = snd (spec_step c (lookup s))" "r = fst (spec_step c (lookup s))"
      using Cons.prems step_reply [of "length cs" s c] step_lookup [of "length cs" s c] step_room [of "length cs" s c]
      by simp_all
    then show ?case using Cons.IH [of t] Cons.prems rt by (simp add: split_beta Let_def)
  qed simp
  then show "fst (run_cmds step cs s) = fst (run_cmds spec_step cs (lookup s))"
    "lookup (snd (run_cmds step cs s)) = snd (run_cmds spec_step cs (lookup s))" by blast+
qed

end

section \<open>The reference store implements it\<close>

fun ref_step :: "cmd \<Rightarrow> Reference \<Rightarrow> reply \<times> Reference" where
  "ref_step (CGet k now nm) r = apfst RValue (ref_Get k now r)"
| "ref_step (CSet k v x nm) r = (ROk True, ref_Set k v x r)"
| "ref_step (CDelete k now) r = apfst ROk (ref_Delete k now r)"
| "ref_step (CExists k now nm) r = apfst ROk (ref_Exists k now r)"
| "ref_step (CExpire k x now) r = apfst ROk (ref_Expire k x now r)"
| "ref_step (CTTL k now nm) r = apfst RTTL (ref_TTL k now r)"
| "ref_step CFlush r = (RDone, ref_Flush r)"

lemma reap_key_at: "reap_key k now m k = live now m k"
  by (simp add: reap_key_def live_def split: option.splits)

lemma ref_live_live:
  assumes "ref_live k now r = (e, r')"
  shows "ref_abs r' = reap_key k now (ref_abs r)" "map_of r' k = e"
    "live now (ref_abs r) k = map_option (\<lambda>e. (rValue e, rExpireAt e)) e"
  using ref_live_spec [OF assms] by (simp_all add: reap_key_at)

lemma ref_abs_delete: "ref_abs (AList.delete k r) = (ref_abs r)(k := None)"
  by (auto simp: ref_abs_def AList.delete_conv' fun_eq_iff)

lemma ref_abs_update: "ref_abs (AList.update k e r) = (ref_abs r)(k \<mapsto> (rValue e, rExpireAt e))"
  by (auto simp: ref_abs_def AList.update_conv' fun_eq_iff)

lemma reap_key_upd [simp]: "(reap_key k now m)(k := y) = m(k := y)"
  by (auto simp: reap_key_def split: option.splits)

lemma reap_key_dead: "live now m k = None \<Longrightarrow> reap_key k now m = m(k := None)"
  by (cases "m k") (auto simp: reap_key_def live_def fun_upd_idem split: if_splits)

lemma ref_step_spec:
  "fst (ref_step c r) = fst (spec_step c (ref_abs r))" "ref_abs (snd (ref_step c r)) = snd (spec_step c (ref_abs r))"
proof -
  have L: "(\<exists>r'. ref_live k now r = (None, r') \<and> ref_abs r' = reap_key k now (ref_abs r) \<and> live now (ref_abs r) k = None)
    \<or> (\<exists>e r'. ref_live k now r = (Some e, r') \<and> ref_abs r' = reap_key k now (ref_abs r)
          \<and> live now (ref_abs r) k = Some (rValue e, rExpireAt e))" for k now
  proof -
    obtain e r' where "ref_live k now r = (e, r')" by force
    then show ?thesis using ref_live_live [of k now r e r'] by (cases e) auto
  qed
  have "fst (ref_step c r) = fst (spec_step c (ref_abs r)) \<and> ref_abs (snd (ref_step c r)) = snd (spec_step c (ref_abs r))"
  proof (cases c)
    case (CGet k now nm)
    then show ?thesis using L [of k now]
      by (auto simp: ref_Get_def spec_get_def split: option.splits)
  next
    case (CSet k v x nm)
    then show ?thesis by (simp add: ref_Set_def ref_abs_update)
  next
    case (CDelete k now)
    then show ?thesis using L [of k now] by (auto simp: ref_Delete_def ref_abs_delete)
  next
    case (CExists k now nm)
    then show ?thesis using L [of k now] by (auto simp: ref_Exists_def)
  next
    case (CExpire k x now)
    then show ?thesis using L [of k now]
      by (auto simp: ref_Expire_def spec_expire_def ref_abs_update reap_key_dead split: option.splits)
  next
    case (CTTL k now nm)
    then show ?thesis using L [of k now]
      by (auto simp: ref_TTL_def spec_ttl_def split: option.splits)
  next
    case CFlush
    then show ?thesis by (auto simp: ref_Flush_def ref_abs_def)
  qed
  then show "fst (ref_step c r) = fst (spec_step c (ref_abs r))"
    "ref_abs (snd (ref_step c r)) = snd (spec_step c (ref_abs r))" by blast+
qed

interpretation ref_kv: kv_store ref_abs "\<lambda>_ _. True" ref_step
  by unfold_locales (simp_all add: ref_step_spec)

end
