(* ===== verification/Store_Spec.thy ===== *)
theory Store_Spec
  imports KV_Interface
begin

text \<open>
  Correctness of the sharded store: routing, the store invariant, and that without a memory limit
  every sequence of operations answers exactly as the reference store does; scans visit every live
  entry; purging removes every expired one; the memory limit holds.
\<close>

section \<open>Invariant and abstraction\<close>

abbreviation cell :: "Store \<Rightarrow> bytes \<Rightarrow> shard" where
  "cell s k \<equiv> shards s ! shardFor s k"

definition store_abs :: "Store \<Rightarrow> kv" where
  "store_abs s k = shard_abs (cell s k) k"

definition wf_store :: "Store \<Rightarrow> bool" where
  "wf_store s \<longleftrightarrow> shards s \<noteq> [] \<and> unat (mask s) = length (shards s) - 1
     \<and> (\<forall>sh \<in> set (shards s). wf_shard sh)
     \<and> (\<forall>i < length (shards s). dom (shard_abs (shards s ! i)) \<subseteq> {k. shardFor s k = i})"

definition store_room :: "nat \<Rightarrow> Store \<Rightarrow> bool" where
  "store_room n s \<longleftrightarrow> wf_store s \<and> (\<forall>sh \<in> set (shards s). budget sh \<le> 0 \<and> length (slots sh) + n < 2 ^ 31)"

lemma shardFor_less:
  assumes "shards s \<noteq> []" "unat (mask s) = length (shards s) - 1"
  shows "shardFor s k < length (shards s)"
proof -
  have "Hash64 (seed s) k AND mask s \<le> mask s" by (rule word_and_le1)
  then have "unat (Hash64 (seed s) k AND mask s) \<le> unat (mask s)" by (simp add: word_le_nat_alt)
  moreover have l: "0 < length (shards s)" using assms(1) by simp
  ultimately have "unat (Hash64 (seed s) k AND mask s) < length (shards s)" using assms(2) by linarith
  then show ?thesis using l by (simp add: shardFor_def)
qed

lemma wf_storeD:
  assumes "wf_store s"
  shows "shardFor s k < length (shards s)" "wf_shard (cell s k)"
    "i < length (shards s) \<Longrightarrow> wf_shard (shards s ! i)"
    "i < length (shards s) \<Longrightarrow> k \<in> dom (shard_abs (shards s ! i)) \<Longrightarrow> shardFor s k = i"
  using assms shardFor_less [of s k] by (auto simp: wf_store_def)

lemma wf_shard_evicted [simp]: "wf_shard (sh\<lparr>evicted := x\<rparr>) = wf_shard sh"
proof -
  have "shard_sim sh (sh\<lparr>evicted := x\<rparr>)" by (simp add: shard_sim_def)
  then show ?thesis using shard_sim_wf [of sh "sh\<lparr>evicted := x\<rparr>"] shard_sim_wf [of "sh\<lparr>evicted := x\<rparr>" sh] by auto
qed

lemma shard_abs_evicted [simp]: "shard_abs (sh\<lparr>evicted := x\<rparr>) = shard_abs sh"
  by (rule shard_sim_abs) (simp add: shard_sim_def)

lemma fireEvict_fields [simp]:
  "shards (fireEvict l s) = shards s" "mask (fireEvict l s) = mask s" "seed (fireEvict l s) = seed s"
  "opts (fireEvict l s) = opts s" "onEvictSet (fireEvict l s) = onEvictSet s" "onTTLSet (fireEvict l s) = onTTLSet s"
  "firedTTL (fireEvict l s) = firedTTL s"
  by (simp_all add: fireEvict_def)

lemma fireTTL_fields [simp]:
  "shards (fireTTL k x s) = shards s" "mask (fireTTL k x s) = mask s" "seed (fireTTL k x s) = seed s"
  "opts (fireTTL k x s) = opts s" "onEvictSet (fireTTL k x s) = onEvictSet s" "onTTLSet (fireTTL k x s) = onTTLSet s"
  "firedEvict (fireTTL k x s) = firedEvict s"
  by (simp_all add: fireTTL_def)

lemma fireTTL_store [simp]:
  "shardFor (fireTTL k x s) = shardFor s" "store_abs (fireTTL k x s) = store_abs s"
  "wf_store (fireTTL k x s) = wf_store s" "store_room n (fireTTL k x s) = store_room n s"
  by (auto simp: shardFor_def store_abs_def wf_store_def store_room_def fun_eq_iff)

lemma withRead_withWrite: "withRead = withWrite"
  by (intro ext) (simp add: withRead_def withWrite_def)

text \<open>One step on the shard that owns a key, changing at most that key.\<close>

lemma withWrite_fields:
  assumes "fn ((shards s ! i)\<lparr>evicted := []\<rparr>) = (r, sh)"
  shows "fst (withWrite i fn s) = r"
    "shards (snd (withWrite i fn s)) = (shards s)[i := sh\<lparr>evicted := []\<rparr>]"
    "shardFor (snd (withWrite i fn s)) = shardFor s"
    "mask (snd (withWrite i fn s)) = mask s" "seed (snd (withWrite i fn s)) = seed s"
    "opts (snd (withWrite i fn s)) = opts s"
    "onEvictSet (snd (withWrite i fn s)) = onEvictSet s" "onTTLSet (snd (withWrite i fn s)) = onTTLSet s"
    "firedTTL (snd (withWrite i fn s)) = firedTTL s"
    "firedEvict (snd (withWrite i fn s)) = firedEvict s @ (if onEvictSet s then evicted sh else [])"
  using assms by (auto simp: withWrite_def Let_def shardFor_def fun_eq_iff fireEvict_def)

lemma withWrite_shard:
  assumes "wf_store s" "i < length (shards s)" "fn ((shards s ! i)\<lparr>evicted := []\<rparr>) = (r, sh)"
    and "wf_shard sh" "dom (shard_abs sh) \<subseteq> {k. shardFor s k = i}"
  shows "wf_store (snd (withWrite i fn s))"
    and "store_abs (snd (withWrite i fn s)) k = (if shardFor s k = i then shard_abs sh k else store_abs s k)"
proof -
  note F = withWrite_fields [of fn s i r sh, OF assms(3)]
  have "\<forall>x \<in> insert (sh\<lparr>evicted := []\<rparr>) (set (shards s)). wf_shard x"
    using assms(1,4) by (simp add: wf_store_def)
  then have "\<forall>x \<in> set ((shards s)[i := sh\<lparr>evicted := []\<rparr>]). wf_shard x"
    using set_update_subset_insert [of "shards s" i] by blast
  then show "wf_store (snd (withWrite i fn s))"
    using assms(1,2,5) unfolding wf_store_def F by (auto simp: nth_list_update)
  show "store_abs (snd (withWrite i fn s)) k = (if shardFor s k = i then shard_abs sh k else store_abs s k)"
    using assms(2) wf_storeD(1) [OF assms(1), of k] by (auto simp: store_abs_def F nth_list_update)
qed

lemma withWrite_key:
  assumes "wf_store s" "fn ((cell s k)\<lparr>evicted := []\<rparr>) = (r, sh)"
    and "wf_shard sh" "shard_abs sh = (shard_abs (cell s k))(k := y)"
  shows "wf_store (snd (withWrite (shardFor s k) fn s))"
    and "store_abs (snd (withWrite (shardFor s k) fn s)) = (store_abs s)(k := y)"
proof -
  note i = wf_storeD(1) [OF assms(1), of k]
  have d: "dom (shard_abs sh) \<subseteq> {k'. shardFor s k' = shardFor s k}"
    using wf_storeD(4) [OF assms(1) i] by (auto simp: assms(4) split: if_splits)
  note W = withWrite_shard [of s "shardFor s k" fn r sh, OF assms(1) i assms(2,3) d]
  show "wf_store (snd (withWrite (shardFor s k) fn s))" by (rule W(1))
  show "store_abs (snd (withWrite (shardFor s k) fn s)) = (store_abs s)(k := y)"
  proof
    fix k'
    show "store_abs (snd (withWrite (shardFor s k) fn s)) k' = ((store_abs s)(k := y)) k'"
      unfolding W(2) assms(4) by (auto simp: store_abs_def)
  qed
qed

lemma withWrite_room:
  assumes "store_room (n + d) s" "fn ((cell s k)\<lparr>evicted := []\<rparr>) = (r, sh)"
    and "wf_shard sh" "shard_abs sh = (shard_abs (cell s k))(k := y)"
    and "budget sh = budget (cell s k)" "length (slots sh) \<le> length (slots (cell s k)) + d"
  shows "store_room n (snd (withWrite (shardFor s k) fn s))"
proof -
  have w: "wf_store s" using assms(1) by (simp add: store_room_def)
  note i = wf_storeD(1) [OF w, of k]
  have "budget (cell s k) \<le> 0" "length (slots (cell s k)) + (n + d) < 2 ^ 31"
    using assms(1) i by (auto simp: store_room_def)
  then have "budget (sh\<lparr>evicted := []\<rparr>) \<le> 0" "length (slots (sh\<lparr>evicted := []\<rparr>)) + n < 2 ^ 31"
    using assms(5,6) by auto
  moreover have "set ((shards s)[shardFor s k := sh\<lparr>evicted := []\<rparr>]) \<subseteq> insert (sh\<lparr>evicted := []\<rparr>) (set (shards s))"
    by (rule set_update_subset_insert)
  moreover have "\<forall>sh \<in> set (shards s). budget sh \<le> 0 \<and> length (slots sh) + n < 2 ^ 31"
    using assms(1) by (auto simp: store_room_def)
  ultimately show ?thesis
    using withWrite_key(1) [of s fn k r sh y, OF w assms(2-4)]
    unfolding store_room_def withWrite_fields(2) [of fn s "shardFor s k" r sh, OF assms(2)] by blast
qed

section \<open>Reads\<close>

lemma expired_reap: "reap_key k now m = m(k := live now m k)"
  by (cases "m k") (auto simp: reap_key_def live_def fun_upd_idem)

lemma get_phase:
  assumes "wf_store s" "getLocked k now nm ((cell s k)\<lparr>evicted := []\<rparr>) = ((e, fd, rp), sh)"
  shows "wf_shard sh" "shard_abs sh = (shard_abs (cell s k))(k := store_abs s k)"
    "budget sh = budget (cell s k)" "slots sh = slots (cell s k)" "evicted sh = []"
    "rp \<longleftrightarrow> store_abs s k \<noteq> None \<and> live now (store_abs s) k = None"
    "fd \<longleftrightarrow> e \<noteq> None"
    "live now (store_abs s) k = map_option (\<lambda>a. (eValue (heap sh a), eExpireAt (heap sh a))) e"
proof -
  let ?c = "(cell s k)\<lparr>evicted := []\<rparr>"
  have sm: "shard_sim sh ?c" using getLocked_sim [of k now nm ?c] assms(2) by simp
  show "wf_shard sh" using shard_sim_wf [OF sm] wf_storeD(2) [OF assms(1)] by simp
  show "shard_abs sh = (shard_abs (cell s k))(k := store_abs s k)"
    using shard_sim_abs [OF sm] by (auto simp: store_abs_def)
  show "budget sh = budget (cell s k)" "slots sh = slots (cell s k)"
    using shard_sim_fields [OF sm] by simp_all
  show "evicted sh = []" using getLocked_evicted [of k now nm ?c] assms(2) by simp
  have r: "(e, fd, rp) = (case map_of (entries (cell s k)) k of
      None \<Rightarrow> (None, False, False)
    | Some a \<Rightarrow> if expired_at (eExpireAt (heap (cell s k) a)) now then (None, False, True) else (Some a, True, False))"
    using getLocked_result [of k now nm ?c] assms(2) by (cases "map_of (entries (cell s k)) k") simp_all
  have h: "eValue (heap sh a) = eValue (heap (cell s k) a)" "eExpireAt (heap sh a) = eExpireAt (heap (cell s k) a)" for a
    using shard_simD(2,3) [OF sm, of a] by simp_all
  show "rp \<longleftrightarrow> store_abs s k \<noteq> None \<and> live now (store_abs s) k = None" "fd \<longleftrightarrow> e \<noteq> None"
    "live now (store_abs s) k = map_option (\<lambda>a. (eValue (heap sh a), eExpireAt (heap sh a))) e"
    using r by (auto simp: live_def store_abs_def shard_abs_def h split: option.splits if_splits)
qed

lemma reap_phase:
  assumes "wf_store s" "rp \<longleftrightarrow> store_abs s k \<noteq> None \<and> live now (store_abs s) k = None"
  shows "wf_store (reap_if rp (shardFor s k) k now s)"
    "store_abs (reap_if rp (shardFor s k) k now s) = reap_key k now (store_abs s)"
    "store_room n s \<Longrightarrow> store_room n (reap_if rp (shardFor s k) k now s)"
proof -
  let ?c = "(cell s k)\<lparr>evicted := []\<rparr>"
  have "wf_store (reap_if rp (shardFor s k) k now s)
    \<and> store_abs (reap_if rp (shardFor s k) k now s) = reap_key k now (store_abs s)
    \<and> (store_room n s \<longrightarrow> store_room n (reap_if rp (shardFor s k) k now s))"
  proof (cases rp)
    case False
    then have "reap_key k now (store_abs s) = store_abs s"
      using assms(2) by (cases "store_abs s k") (auto simp: reap_key_def live_def split: if_splits)
    then show ?thesis using False assms(1) by (simp add: reap_if_def)
  next
    case True
    obtain ok sh where r: "reapLocked k now ?c = (ok, sh)" by force
    have w: "wf_shard ?c" using wf_storeD(2) [OF assms(1)] by simp
    obtain L where L: "expires now ?c sh L" "ok \<longleftrightarrow> L \<noteq> []" "fst ` set L \<subseteq> {k}"
      "ok \<longleftrightarrow> (\<exists>v x. shard_abs ?c k = Some (v, x) \<and> expired_at x now)"
      by (rule reapLocked_spec [OF w r])
    have "live now (store_abs s) k = None" "store_abs s k \<noteq> None" using True assms(2) by auto
    then have "ok" unfolding L(4) by (auto simp: live_def store_abs_def split: if_splits)
    then have kL: "fst ` set L = {k}" using L(2,3) by (cases L) auto
    have a: "shard_abs sh = (shard_abs (cell s k))(k := None)"
      using L(1) by (simp add: expires_def shrinks_def kL fun_eq_iff restrict_map_def)
    have f: "wf_shard sh" "budget sh = budget (cell s k)" "length (slots sh) \<le> length (slots (cell s k)) + 0"
      using L(1) by (simp_all add: expires_def shrinks_def)
    note W = withWrite_key [of s "reapLocked k now" k ok sh None, OF assms(1) r f(1) a]
      withWrite_room [of n 0 s "reapLocked k now" k ok sh None, OF _ r f(1) a f(2,3)]
    then show ?thesis using True \<open>live now (store_abs s) k = None\<close> by (simp add: reap_if_def reap_key_dead)
  qed
  then show "wf_store (reap_if rp (shardFor s k) k now s)"
    "store_abs (reap_if rp (shardFor s k) k now s) = reap_key k now (store_abs s)"
    "store_room n s \<Longrightarrow> store_room n (reap_if rp (shardFor s k) k now s)" by blast+
qed

text \<open>Any read operation: the locked lookup, then the reaping pass.\<close>

lemma read_phases:
  assumes "wf_store s" "getLocked k now nm ((cell s k)\<lparr>evicted := []\<rparr>) = ((e, fd, rp), sh)"
    and "fn ((cell s k)\<lparr>evicted := []\<rparr>) = (r, sh)"
    and "t = reap_if rp (shardFor s k) k now (snd (withWrite (shardFor s k) fn s))"
  shows "fst (withWrite (shardFor s k) fn s) = r" "wf_store t" "store_abs t = reap_key k now (store_abs s)"
    "store_room n s \<Longrightarrow> store_room n t"
proof -
  note G = get_phase [OF assms(1,2)]
  let ?u = "snd (withWrite (shardFor s k) fn s)"
  note W = withWrite_key [of s fn k r sh, OF assms(1,3) G(1,2)]
  have a: "store_abs ?u = store_abs s" using W(2) by simp
  have rm: "store_room n s \<Longrightarrow> store_room n ?u"
    using withWrite_room [of n 0 s fn k r sh, OF _ assms(3) G(1,2)] G(3,4) by simp
  have F: "shardFor ?u = shardFor s" using withWrite_fields(3) [of fn s "shardFor s k" r sh, OF assms(3)] .
  show "fst (withWrite (shardFor s k) fn s) = r" using withWrite_fields(1) [of fn s "shardFor s k" r sh, OF assms(3)] .
  have "rp \<longleftrightarrow> store_abs ?u k \<noteq> None \<and> live now (store_abs ?u) k = None" using G(6) by (simp add: a)
  note R = reap_phase [OF W(1) this, unfolded F a, folded assms(4)]
  show "wf_store t" "store_abs t = reap_key k now (store_abs s)" "store_room n s \<Longrightarrow> store_room n t"
    using R rm by auto
qed

lemma store_Get_spec:
  assumes "wf_store s"
  shows "fst (store_Get k now nm s) = spec_get k now (store_abs s)"
    "wf_store (snd (store_Get k now nm s))" "store_abs (snd (store_Get k now nm s)) = reap_key k now (store_abs s)"
    "store_room n s \<Longrightarrow> store_room n (snd (store_Get k now nm s))"
proof -
  obtain e fd rp sh where g: "getLocked k now nm ((cell s k)\<lparr>evicted := []\<rparr>) = ((e, fd, rp), sh)"
    by (metis prod.exhaust)
  let ?fn = "\<lambda>sh. let ((e, found, needsReap), sh) = getLocked k now nm sh;
                 out = (case e of Some a \<Rightarrow> eValue (heap sh a) | None \<Rightarrow> [])
             in ((out, found, needsReap), sh)"
  let ?r = "(case e of Some a \<Rightarrow> eValue (heap sh a) | None \<Rightarrow> [], fd, rp)"
  have f: "?fn ((cell s k)\<lparr>evicted := []\<rparr>) = (?r, sh)" using g by simp
  note R = read_phases [of s k now nm e fd rp sh ?fn ?r, OF assms g f refl]
  have "store_Get k now nm s = ((case e of Some a \<Rightarrow> eValue (heap sh a) | None \<Rightarrow> [], fd),
      reap_if rp (shardFor s k) k now (snd (withWrite (shardFor s k) ?fn s)))"
    using R(1) by (simp add: store_Get_def withRead_withWrite Let_def split_beta)
  then show "fst (store_Get k now nm s) = spec_get k now (store_abs s)"
    "wf_store (snd (store_Get k now nm s))" "store_abs (snd (store_Get k now nm s)) = reap_key k now (store_abs s)"
    "store_room n s \<Longrightarrow> store_room n (snd (store_Get k now nm s))"
    using R get_phase(7,8) [OF assms g] by (auto simp: spec_get_def split: option.splits)
qed

lemma store_Exists_spec:
  assumes "wf_store s"
  shows "fst (store_Exists k now nm s) \<longleftrightarrow> live now (store_abs s) k \<noteq> None"
    "wf_store (snd (store_Exists k now nm s))" "store_abs (snd (store_Exists k now nm s)) = reap_key k now (store_abs s)"
    "store_room n s \<Longrightarrow> store_room n (snd (store_Exists k now nm s))"
proof -
  obtain e fd rp sh where g: "getLocked k now nm ((cell s k)\<lparr>evicted := []\<rparr>) = ((e, fd, rp), sh)"
    by (metis prod.exhaust)
  let ?fn = "\<lambda>sh. let ((e, found, needsReap), sh) = getLocked k now nm sh in ((found, needsReap), sh)"
  have f: "?fn ((cell s k)\<lparr>evicted := []\<rparr>) = ((fd, rp), sh)" using g by simp
  note R = read_phases [of s k now nm e fd rp sh ?fn "(fd, rp)", OF assms g f refl]
  have "store_Exists k now nm s = (fd, reap_if rp (shardFor s k) k now (snd (withWrite (shardFor s k) ?fn s)))"
    using R(1) by (simp add: store_Exists_def withRead_withWrite Let_def split_beta)
  then show "fst (store_Exists k now nm s) \<longleftrightarrow> live now (store_abs s) k \<noteq> None"
    "wf_store (snd (store_Exists k now nm s))" "store_abs (snd (store_Exists k now nm s)) = reap_key k now (store_abs s)"
    "store_room n s \<Longrightarrow> store_room n (snd (store_Exists k now nm s))"
    using R get_phase(7,8) [OF assms g] by auto
qed

lemma store_TTL_spec:
  assumes "wf_store s"
  shows "fst (store_TTL k now nm s) = spec_ttl k now (store_abs s)"
    "wf_store (snd (store_TTL k now nm s))" "store_abs (snd (store_TTL k now nm s)) = reap_key k now (store_abs s)"
    "store_room n s \<Longrightarrow> store_room n (snd (store_TTL k now nm s))"
proof -
  obtain e fd rp sh where g: "getLocked k now nm ((cell s k)\<lparr>evicted := []\<rparr>) = ((e, fd, rp), sh)"
    by (metis prod.exhaust)
  let ?ms = "\<lambda>e sh. case e of Some a \<Rightarrow> if eExpireAt (heap sh a) = 0 then - 1
                                           else remaining_ms (eExpireAt (heap sh a)) now
                       | None \<Rightarrow> 0"
  let ?fn = "\<lambda>sh. let ((e, found, needsReap), sh) = getLocked k now nm sh; ms = ?ms e sh
             in ((ms, found, needsReap), sh)"
  have f: "?fn ((cell s k)\<lparr>evicted := []\<rparr>) = ((?ms e sh, fd, rp), sh)" using g by simp
  note R = read_phases [of s k now nm e fd rp sh ?fn "(?ms e sh, fd, rp)", OF assms g f refl]
  have "store_TTL k now nm s = ((?ms e sh, fd), reap_if rp (shardFor s k) k now (snd (withWrite (shardFor s k) ?fn s)))"
    using R(1) by (simp add: store_TTL_def withRead_withWrite Let_def split_beta)
  then show "fst (store_TTL k now nm s) = spec_ttl k now (store_abs s)"
    "wf_store (snd (store_TTL k now nm s))" "store_abs (snd (store_TTL k now nm s)) = reap_key k now (store_abs s)"
    "store_room n s \<Longrightarrow> store_room n (snd (store_TTL k now nm s))"
    using R get_phase(7,8) [OF assms g] by (auto simp: spec_ttl_def split: option.splits)
qed

section \<open>Writes\<close>

lemma delete_live_spec:
  assumes "wf_shard sh" "delete_live k now sh = (ok, t)"
  shows "wf_shard t" "shard_abs t = (shard_abs sh)(k := None)" "ok \<longleftrightarrow> live now (shard_abs sh) k \<noteq> None"
    "same_config t sh" "length (slots t) \<le> length (slots sh)" "evicted t = evicted sh"
proof -
  have "wf_shard t \<and> shard_abs t = (shard_abs sh)(k := None) \<and> (ok \<longleftrightarrow> live now (shard_abs sh) k \<noteq> None)
    \<and> same_config t sh \<and> length (slots t) \<le> length (slots sh) \<and> evicted t = evicted sh"
  proof (cases "map_of (entries sh) k")
    case None
    then have "delLocked k sh = (ok, t)" using assms(2) by (simp add: delete_live_def)
    note D = delLocked_spec [OF assms(1) this]
    then show ?thesis using None by (auto simp: live_def shard_abs_def)
  next
    case (Some e)
    note k = wf_key [OF wf_shardD(1) [OF assms(1)] Some]
    have a: "shard_abs sh k = Some (eValue (heap sh e), eExpireAt (heap sh e))" using Some by (simp add: shard_abs_def)
    show ?thesis
    proof (cases "entry_Expired (heap sh e) now")
      case True
      then have "ok = False" "t = removeEntryLocked e sh" using assms(2) Some by (auto simp: delete_live_def)
      then show ?thesis
        using removeEntry_wf [OF assms(1) k(2)] removeEntry_abs [of e sh] removeEntry_slots(2) [OF assms(1) k(2)] k(1) a True
        by (auto simp: live_def entry_Expired_def shard_frame)
    next
      case False
      then have "delLocked k sh = (ok, t)" using assms(2) Some by (simp add: delete_live_def)
      note D = delLocked_spec [OF assms(1) this]
      then show ?thesis using a False by (auto simp: live_def entry_Expired_def)
    qed
  qed
  then show "wf_shard t" "shard_abs t = (shard_abs sh)(k := None)" "ok \<longleftrightarrow> live now (shard_abs sh) k \<noteq> None"
    "same_config t sh" "length (slots t) \<le> length (slots sh)" "evicted t = evicted sh" by blast+
qed

lemma expire_live_spec:
  assumes "wf_shard sh" "expire_live k x now sh = (ok, t)"
  shows "wf_shard t" "shard_abs t = (shard_abs sh)(k := spec_expire k x now (shard_abs sh) k)"
    "ok \<longleftrightarrow> live now (shard_abs sh) k \<noteq> None"
    "same_config t sh" "length (slots t) \<le> length (slots sh)"
proof -
  have "wf_shard t \<and> shard_abs t = (shard_abs sh)(k := spec_expire k x now (shard_abs sh) k)
    \<and> (ok \<longleftrightarrow> live now (shard_abs sh) k \<noteq> None) \<and> same_config t sh \<and> length (slots t) \<le> length (slots sh)"
  proof (cases "map_of (entries sh) k")
    case None
    then have "ok = False" "t = sh" "shard_abs sh k = None"
      using assms(2) by (simp_all add: expire_live_def expireLocked_def shard_abs_def)
    then show ?thesis using assms(1) by (auto simp: live_def spec_expire_def)
  next
    case (Some e)
    have a: "shard_abs sh k = Some (eValue (heap sh e), eExpireAt (heap sh e))" using Some by (simp add: shard_abs_def)
    show ?thesis
    proof (cases "entry_Expired (heap sh e) now")
      case True
      then have x: "ok = False" "snd (reapLocked k now sh) = t" using assms(2) Some by (auto simp: expire_live_def)
      obtain ok' where r: "reapLocked k now sh = (ok', t)" using x(2) by (cases "reapLocked k now sh") simp
      obtain L where L: "expires now sh t L" "ok' \<longleftrightarrow> L \<noteq> []" "fst ` set L \<subseteq> {k}"
        "ok' \<longleftrightarrow> (\<exists>v x. shard_abs sh k = Some (v, x) \<and> expired_at x now)"
        by (rule reapLocked_spec [OF assms(1) r])
      have "ok'" using L(4) a True by (simp add: entry_Expired_def)
      then have "fst ` set L = {k}" using L(2,3) by (cases L) auto
      then have "shard_abs t = (shard_abs sh)(k := None)"
        using L(1) by (simp add: expires_def shrinks_def fun_eq_iff restrict_map_def)
      moreover have "wf_shard t \<and> same_config t sh \<and> length (slots t) \<le> length (slots sh)"
        using L(1) by (simp add: expires_def shrinks_def)
      moreover have "live now (shard_abs sh) k = None" using a True by (simp add: live_def entry_Expired_def)
      ultimately show ?thesis using x(1) by (simp add: spec_expire_def)
    next
      case False
      then have "expireLocked k x sh = (ok, t)" using assms(2) Some by (simp add: expire_live_def)
      note E = expireLocked_Some [OF assms(1) Some this]
      then show ?thesis using a False by (auto simp: live_def spec_expire_def entry_Expired_def)
    qed
  qed
  then show "wf_shard t" "shard_abs t = (shard_abs sh)(k := spec_expire k x now (shard_abs sh) k)"
    "ok \<longleftrightarrow> live now (shard_abs sh) k \<noteq> None" "same_config t sh" "length (slots t) \<le> length (slots sh)" by blast+
qed

lemma spec_expire_upd: "m(k := spec_expire k x now m k) = spec_expire k x now m"
  by (auto simp: spec_expire_def split: option.splits)

lemma live_cell: "live now (shard_abs (cell s k)) k = live now (store_abs s) k"
  by (simp add: live_def store_abs_def)

lemma store_Delete_spec:
  assumes "wf_store s"
  shows "fst (store_Delete k now s) \<longleftrightarrow> live now (store_abs s) k \<noteq> None"
    "wf_store (snd (store_Delete k now s))" "store_abs (snd (store_Delete k now s)) = (store_abs s)(k := None)"
    "store_room n s \<Longrightarrow> store_room n (snd (store_Delete k now s))"
proof -
  obtain ok t where d: "delete_live k now ((cell s k)\<lparr>evicted := []\<rparr>) = (ok, t)" by force
  note D = delete_live_spec [OF _ d, simplified, OF wf_storeD(2) [OF assms]]
  have l: "length (slots t) \<le> length (slots (cell s k)) + 0" "budget t = budget (cell s k)" using D by simp_all
  show "fst (store_Delete k now s) \<longleftrightarrow> live now (store_abs s) k \<noteq> None"
    using withWrite_fields(1) [of "delete_live k now" s "shardFor s k", OF d] D(3)
    by (simp add: store_Delete_def live_cell)
  show "wf_store (snd (store_Delete k now s))" "store_abs (snd (store_Delete k now s)) = (store_abs s)(k := None)"
    using withWrite_key [of s "delete_live k now" k ok t None, OF assms d D(1,2)]
    by (simp_all add: store_Delete_def)
  show "store_room n s \<Longrightarrow> store_room n (snd (store_Delete k now s))"
    using withWrite_room [of n 0 s "delete_live k now" k ok t None, OF _ d D(1,2) l(2,1)]
    by (simp add: store_Delete_def)
qed

lemma store_Expire_spec:
  assumes "wf_store s"
  shows "fst (store_Expire k x now s) \<longleftrightarrow> live now (store_abs s) k \<noteq> None"
    "wf_store (snd (store_Expire k x now s))" "store_abs (snd (store_Expire k x now s)) = spec_expire k x now (store_abs s)"
    "store_room n s \<Longrightarrow> store_room n (snd (store_Expire k x now s))"
proof -
  obtain ok t where d: "expire_live k x now ((cell s k)\<lparr>evicted := []\<rparr>) = (ok, t)" by force
  note D = expire_live_spec [OF _ d, simplified, OF wf_storeD(2) [OF assms]]
  let ?y = "spec_expire k x now (shard_abs (cell s k)) k"
  have l: "length (slots t) \<le> length (slots (cell s k)) + 0" "budget t = budget (cell s k)" using D by simp_all
  have y: "?y = spec_expire k x now (store_abs s) k"
    by (simp add: spec_expire_def live_cell split: option.splits)
  let ?u = "snd (withWrite (shardFor s k) (expire_live k x now) s)"
  have e: "store_Expire k x now s = (ok, if ok then fireTTL k x ?u else ?u)"
    using withWrite_fields(1) [of "expire_live k x now" s "shardFor s k", OF d]
    by (simp add: store_Expire_def Let_def split_beta)
  show "fst (store_Expire k x now s) \<longleftrightarrow> live now (store_abs s) k \<noteq> None"
    using D(3) by (simp add: e live_cell)
  show "wf_store (snd (store_Expire k x now s))" "store_abs (snd (store_Expire k x now s)) = spec_expire k x now (store_abs s)"
    using withWrite_key [of s "expire_live k x now" k ok t ?y, OF assms d D(1,2)]
    by (simp_all add: e y spec_expire_upd)
  show "store_room n s \<Longrightarrow> store_room n (snd (store_Expire k x now s))"
    using withWrite_room [of n 0 s "expire_live k x now" k ok t ?y, OF _ d D(1,2) l(2,1)]
    by (simp add: e)
qed

lemma store_Set_spec:
  assumes "wf_store s" "cost_fits k v" "length (slots (cell s k)) < 2 ^ 31 - 1" "store_Set k v x nm s = (ok, t)"
  shows "wf_store t" and "\<exists>L. firedEvict t = firedEvict s @ (if onEvictSet s then L else [])
     \<and> (\<forall>(k', r) \<in> set L. k' \<noteq> k \<and> r = ReasonEvicted)
     \<and> store_abs t = (if ok then (store_abs s |` (- (fst ` set L)))(k \<mapsto> (v, x)) else store_abs s |` (- (fst ` set L)))
     \<and> (budget (cell s k) \<le> 0 \<longrightarrow> ok \<and> L = [])
     \<and> (\<exists>sh. shards t = (shards s)[shardFor s k := sh] \<and> budget sh = budget (cell s k)
          \<and> length (slots sh) \<le> Suc (length (slots (cell s k)))
          \<and> (0 < budget (cell s k) \<longrightarrow> memBytes sh \<le> max (memBytes (cell s k)) (budget (cell s k))))"
proof -
  let ?i = "shardFor s k" and ?c = "(cell s k)\<lparr>evicted := []\<rparr>" and ?fn = "setLocked k v x nm"
  note i = wf_storeD(1) [OF assms(1), of k]
  obtain ok' sh where f: "?fn ?c = (ok', sh)" by force
  have wc: "wf_shard ?c" "length (slots ?c) < 2 ^ 31 - 1" using wf_storeD(2) [OF assms(1), of k] assms(3) by simp_all
  note S = setLocked_spec [OF wc(1) assms(2) wc(2) f]
  then obtain L where E: "set_effect k v x ok' ?c sh L" by blast
  let ?K = "fst ` set L"
  have e: "evicted sh = L" "\<forall>(k', r) \<in> set L. k' \<noteq> k \<and> r = ReasonEvicted \<and> k' \<in> dom (shard_abs (cell s k))"
    "shard_abs sh = (if ok' then (shard_abs (cell s k) |` (- ?K))(k \<mapsto> (v, x)) else shard_abs (cell s k) |` (- ?K))"
    "budget (cell s k) \<le> 0 \<longrightarrow> ok' \<and> L = []" "budget sh = budget (cell s k)"
    "length (slots sh) \<le> Suc (length (slots (cell s k)))"
    "0 < budget (cell s k) \<longrightarrow> memBytes sh \<le> max (memBytes (cell s k)) (budget (cell s k))"
    using E by (auto simp: set_effect_def)
  have K: "shardFor s k' = ?i" if "k' \<in> ?K" for k'
    using e(2) that wf_storeD(4) [OF assms(1) i] by fastforce
  have d: "dom (shard_abs sh) \<subseteq> {k'. shardFor s k' = ?i}"
    using wf_storeD(4) [OF assms(1) i, OF domI] by (auto simp: e(3) restrict_map_def split: if_splits)
  note W = withWrite_shard [of s ?i ?fn ok' sh, OF assms(1) i f S(1) d]
  note F = withWrite_fields [of ?fn s ?i ok' sh, OF f]
  have t: "ok' = ok" "t = (if ok then fireTTL k x (snd (withWrite ?i ?fn s)) else snd (withWrite ?i ?fn s))"
    using assms(4) F(1) by (auto simp: store_Set_def Let_def split_beta split: if_splits)
  show "wf_store t" using W(1) t(2) by simp
  have "store_abs t k' = (if ok then (store_abs s |` (- ?K))(k \<mapsto> (v, x)) else store_abs s |` (- ?K)) k'" for k'
    using W(2) [of k'] K [of k'] t by (auto simp: e(3) store_abs_def restrict_map_def split: if_splits)
  then have "store_abs t = (if ok then (store_abs s |` (- ?K))(k \<mapsto> (v, x)) else store_abs s |` (- ?K))" by blast
  moreover have "shards t = (shards s)[?i := sh\<lparr>evicted := []\<rparr>]"
    "firedEvict t = firedEvict s @ (if onEvictSet s then L else [])"
    using F(2,10) t(2) e(1) by simp_all
  ultimately show "\<exists>L. firedEvict t = firedEvict s @ (if onEvictSet s then L else [])
     \<and> (\<forall>(k', r) \<in> set L. k' \<noteq> k \<and> r = ReasonEvicted)
     \<and> store_abs t = (if ok then (store_abs s |` (- (fst ` set L)))(k \<mapsto> (v, x)) else store_abs s |` (- (fst ` set L)))
     \<and> (budget (cell s k) \<le> 0 \<longrightarrow> ok \<and> L = [])
     \<and> (\<exists>sh. shards t = (shards s)[shardFor s k := sh] \<and> budget sh = budget (cell s k)
          \<and> length (slots sh) \<le> Suc (length (slots (cell s k)))
          \<and> (0 < budget (cell s k) \<longrightarrow> memBytes sh \<le> max (memBytes (cell s k)) (budget (cell s k))))"
    using e t(1) by (intro exI [of _ L] conjI exI [of _ "sh\<lparr>evicted := []\<rparr>"]) auto
qed

lemma store_Set_unlimited:
  assumes "store_room (Suc n) s" "cost_fits k v"
  shows "fst (store_Set k v x nm s)" "store_abs (snd (store_Set k v x nm s)) = (store_abs s)(k \<mapsto> (v, x))"
    "store_room n (snd (store_Set k v x nm s))"
proof -
  obtain ok t where t: "store_Set k v x nm s = (ok, t)" by force
  have w: "wf_store s" using assms(1) by (simp add: store_room_def)
  have c: "budget (cell s k) \<le> 0" "length (slots (cell s k)) + Suc n < 2 ^ 31"
    using assms(1) wf_storeD(1) [OF w, of k] by (auto simp: store_room_def)
  then have l: "length (slots (cell s k)) < 2 ^ 31 - 1" by simp
  note S = store_Set_spec [OF w assms(2) l t]
  obtain sh where "ok" and a: "store_abs t = (store_abs s)(k \<mapsto> (v, x))" and sh: "shards t = (shards s)[shardFor s k := sh]"
    "budget sh \<le> 0" "length (slots sh) + n < 2 ^ 31"
    using S(2) c by fastforce
  have "\<forall>sh \<in> set (shards s). budget sh \<le> 0 \<and> length (slots sh) + n < 2 ^ 31"
    using assms(1) by (auto simp: store_room_def)
  then have "store_room n t"
    unfolding store_room_def sh(1) using S(1) sh(2,3) set_update_subset_insert [of "shards s" "shardFor s k" sh] by blast
  then show "fst (store_Set k v x nm s)" "store_abs (snd (store_Set k v x nm s)) = (store_abs s)(k \<mapsto> (v, x))"
    "store_room n (snd (store_Set k v x nm s))"
    using \<open>ok\<close> a t by simp_all
qed

section \<open>Loops over all shards\<close>

lemma fold_withWrite:
  assumes "n \<le> length (shards s)" "\<And>sh. evicted (f (sh\<lparr>evicted := []\<rparr>)) = []"
  shows "\<exists>t. fold (\<lambda>i s. snd (withWrite i (\<lambda>sh. ((), f sh)) s)) [0..<n] s = t
    \<and> shards t = map (\<lambda>sh. (f (sh\<lparr>evicted := []\<rparr>))\<lparr>evicted := []\<rparr>) (take n (shards s)) @ drop n (shards s)
    \<and> mask t = mask s \<and> seed t = seed s \<and> opts t = opts s \<and> firedEvict t = firedEvict s \<and> firedTTL t = firedTTL s
    \<and> onEvictSet t = onEvictSet s \<and> onTTLSet t = onTTLSet s"
  using assms(1)
proof (induction n)
  case (Suc n)
  let ?g = "\<lambda>sh. (f (sh\<lparr>evicted := []\<rparr>))\<lparr>evicted := []\<rparr>"
  let ?t = "fold (\<lambda>i s. snd (withWrite i (\<lambda>sh. ((), f sh)) s)) [0..<n] s"
  have IH: "shards ?t = map ?g (take n (shards s)) @ drop n (shards s)" "mask ?t = mask s" "seed ?t = seed s"
    "opts ?t = opts s" "firedEvict ?t = firedEvict s" "firedTTL ?t = firedTTL s" "onEvictSet ?t = onEvictSet s" "onTTLSet ?t = onTTLSet s"
    using Suc.IH Suc.prems by auto
  have n: "shards ?t ! n = shards s ! n" "n < length (shards s)"
    using IH(1) Suc.prems by (auto simp: nth_append)
  have F: "(\<lambda>sh. ((), f sh)) ((shards ?t ! n)\<lparr>evicted := []\<rparr>) = ((), f ((shards ?t ! n)\<lparr>evicted := []\<rparr>))" by simp
  note W = withWrite_fields [of "\<lambda>sh. ((), f sh)" ?t n, OF F]
  have "shards (snd (withWrite n (\<lambda>sh. ((), f sh)) ?t)) = map ?g (take (Suc n) (shards s)) @ drop (Suc n) (shards s)"
    unfolding W(2) n(1) IH(1) using n(2)
    by (simp add: list_update_append nth_append take_Suc_conv_app_nth Cons_nth_drop_Suc [symmetric])
  then show ?case using W(4-10) IH assms(2) [of "shards ?t ! n"] by simp
qed simp

lemma store_Flush_spec:
  assumes "wf_store s"
  shows "wf_store (store_Flush s)" "store_abs (store_Flush s) = Map.empty"
    "store_room n s \<Longrightarrow> store_room n (store_Flush s)"
proof -
  let ?g = "\<lambda>sh. (flushLocked (sh\<lparr>evicted := []\<rparr>))\<lparr>evicted := []\<rparr>"
  have "evicted (flushLocked (sh\<lparr>evicted := []\<rparr>)) = []" for sh by (simp add: flushLocked_def)
  from fold_withWrite [of "length (shards s)" s flushLocked, OF order_refl this]
  have t: "shards (store_Flush s) = map ?g (shards s)" "mask (store_Flush s) = mask s" "seed (store_Flush s) = seed s"
    by (auto simp: store_Flush_def)
  have g: "wf_shard (?g sh)" "shard_abs (?g sh) = Map.empty" "budget (?g sh) = budget sh" "slots (?g sh) = []" for sh
    by (simp_all add: flushLocked_spec) (simp_all add: flushLocked_def)
  have i: "shardFor (store_Flush s) k = shardFor s k" for k by (simp add: shardFor_def t)
  show w: "wf_store (store_Flush s)"
    using assms g by (auto simp: wf_store_def t)
  show "store_abs (store_Flush s) = Map.empty"
    using wf_storeD(1) [OF assms] g(2) by (auto simp: store_abs_def t i fun_eq_iff)
  show "store_room n s \<Longrightarrow> store_room n (store_Flush s)"
    using w g by (auto simp: store_room_def t)
qed

section \<open>A new store\<close>

lemma new_shard_i_spec:
  "wf_shard (new_shard_i o1 i)" "shard_abs (new_shard_i o1 i) = Map.empty" "slots (new_shard_i o1 i) = []"
  "evicted (new_shard_i o1 i) = []" "memBytes (new_shard_i o1 i) = 0"
  "budget (new_shard_i o1 i) = (if oMaxMemory o1 > 0 then max 1 (oMaxMemory o1 div oShards o1) else 0)"
proof -
  have "wf_shard (new_shard_i o1 i) \<and> entries (new_shard_i o1 i) = []"
    by (simp add: new_shard_i_def Let_def newShard_wf limits_wf) (simp add: newShard_def)
  then show "wf_shard (new_shard_i o1 i)" "shard_abs (new_shard_i o1 i) = Map.empty"
    by (auto simp: shard_abs_def)
qed (simp_all add: new_shard_i_def Let_def newShard_def)

lemma withDefaults_shards: "0 < oShards (withDefaults e o0)"
  by (simp add: withDefaults_def Let_def)

lemma withDefaults_memory: "oMaxMemory (withDefaults e o0) = oMaxMemory o0"
  by (simp add: withDefaults_def Let_def)

lemma store_New_spec:
  assumes "oShards (withDefaults e o0) \<le> 2 ^ 64"
  shows "wf_store (store_New e o0)" "store_abs (store_New e o0) = Map.empty"
    "oMaxMemory o0 \<le> 0 \<Longrightarrow> n < 2 ^ 31 \<Longrightarrow> store_room n (store_New e o0)"
proof -
  let ?o = "withDefaults e o0" and ?s = "store_New e o0"
  have f: "shards ?s = map (new_shard_i ?o) [0..<nat (oShards ?o)]" "mask ?s = word_of_int (oShards ?o - 1)"
    by (simp_all add: store_New_def Let_def)
  have n: "0 < nat (oShards ?o)" using withDefaults_shards [of e o0] by simp
  have m: "unat (mask ?s) = length (shards ?s) - 1"
  proof -
    have "oShards ?o - 1 = int (nat (oShards ?o) - 1)" using withDefaults_shards [of e o0] by simp
    then have "mask ?s = word_of_nat (nat (oShards ?o) - 1)" unfolding f(2) by (simp only: of_int_of_nat_eq)
    moreover have "nat (oShards ?o) - 1 < 2 ^ 64" using assms n by (simp add: nat_less_iff)
    ultimately show ?thesis by (simp add: f(1) unat_of_nat)
  qed
  show w: "wf_store ?s"
    unfolding wf_store_def using n m new_shard_i_spec by (auto simp: f(1))
  show "store_abs ?s = Map.empty"
    using wf_storeD(1) [OF w] new_shard_i_spec(2) by (auto simp: store_abs_def f(1) fun_eq_iff)
  show "oMaxMemory o0 \<le> 0 \<Longrightarrow> n < 2 ^ 31 \<Longrightarrow> store_room n ?s"
    using w new_shard_i_spec by (auto simp: store_room_def f(1) withDefaults_memory)
qed

section \<open>The store implements the interface\<close>

fun store_step :: "cmd \<Rightarrow> Store \<Rightarrow> reply \<times> Store" where
  "store_step (CGet k now nm) s = apfst RValue (store_Get k now nm s)"
| "store_step (CSet k v x nm) s = apfst ROk (store_Set k v x nm s)"
| "store_step (CDelete k now) s = apfst ROk (store_Delete k now s)"
| "store_step (CExists k now nm) s = apfst ROk (store_Exists k now nm s)"
| "store_step (CExpire k x now) s = apfst ROk (store_Expire k x now s)"
| "store_step (CTTL k now nm) s = apfst RTTL (store_TTL k now nm s)"
| "store_step CFlush s = (RDone, store_Flush s)"

lemma store_room_mono: "store_room (Suc n) s \<Longrightarrow> store_room n s"
  by (auto simp: store_room_def)

lemma store_step_spec:
  assumes "store_room (Suc n) s" "cmd_fits c"
  shows "fst (store_step c s) = fst (spec_step c (store_abs s)) \<and>
    store_abs (snd (store_step c s)) = snd (spec_step c (store_abs s)) \<and> store_room n (snd (store_step c s))"
proof -
  have w: "wf_store s" using assms(1) by (simp add: store_room_def)
  note r = store_room_mono [OF assms(1)]
  show ?thesis
    using assms w r by (cases c) (simp_all add: store_Get_spec store_Exists_spec store_TTL_spec store_Delete_spec
      store_Expire_spec store_Flush_spec store_Set_unlimited)
qed

interpretation store_kv: kv_store store_abs store_room store_step
  using store_step_spec by unfold_locales blast+

text \<open>
  C3. Without a memory limit the sharded store cannot be told apart from the reference store: any
  sequence of gets, sets, deletes, existence tests, deadline changes, TTL queries and flushes, at
  any clock readings, gets exactly the same replies from both, and they denote the same map at the
  end.
\<close>

theorem store_refines_reference:
  assumes "oMaxMemory o0 \<le> 0" "oShards (withDefaults e o0) \<le> 2 ^ 64" "list_all cmd_fits cs" "length cs < 2 ^ 31"
  shows "fst (run_cmds store_step cs (store_New e o0)) = fst (run_cmds ref_step cs NewReference)
    \<and> store_abs (snd (run_cmds store_step cs (store_New e o0))) = ref_abs (snd (run_cmds ref_step cs NewReference))"
proof -
  have r: "store_room (length cs) (store_New e o0)" by (rule store_New_spec(3) [OF assms(2,1,4)])
  have "ref_abs NewReference = store_abs (store_New e o0)"
    by (auto simp: store_New_spec(2) [OF assms(2)] NewReference_def ref_abs_def)
  then show ?thesis
    using store_kv.run_replies [OF r assms(3)] ref_kv.run_replies [OF TrueI assms(3)] by simp
qed

theorem store_refines_reference_witness:
  "fst (run_cmds store_step [CSet [107] [1] 0 0, CGet [107] 5 1]
     (store_New None \<lparr>oEngine = [], oShards = 4, oSeed = 7, oMaxMemory = 0, oLowWater = 0, oPolicy = [],
      oExactLRU = False, oEvictSampleK = 5, oEvictBatch = 200, oActorQueue = 1\<rparr>))
   = [ROk True, RValue ([1], True)]"
proof -
  have "fst (run_cmds ref_step [CSet [107] [1] 0 0, CGet [107] 5 1] NewReference) = [ROk True, RValue ([1], True)]"
    by code_simp
  with store_refines_reference [of "\<lparr>oEngine = [], oShards = 4, oSeed = 7, oMaxMemory = 0, oLowWater = 0, oPolicy = [],
      oExactLRU = False, oEvictSampleK = 5, oEvictBatch = 200, oActorQueue = 1\<rparr>" None
      "[CSet [107] [1] 0 0, CGet [107] 5 1]"]
  show ?thesis by (simp add: withDefaults_def cost_fits_def EntryCost_def)
qed

end
