(* ===== verification/Store_Scan.thy ===== *)
theory Store_Scan
  imports Store_Spec
begin

text \<open>
  Scans and bulk operations of the store: \<^verbatim>\<open>Range\<close>, \<^verbatim>\<open>Keys\<close>, \<^verbatim>\<open>Len\<close> and \<^verbatim>\<open>PurgeExpired\<close>.
\<close>

section \<open>Range\<close>

text \<open>The entries \<^verbatim>\<open>Range\<close> hands to its callback for one shard, as long as it asks for more.\<close>

function range_list :: "u64 \<Rightarrow> shard \<Rightarrow> nat \<Rightarrow> entry list" where
  "range_list nowMs sh offset =
     (let scanned = min 256 (length (slots sh) - offset)
      in if scanned = 0 then []
         else range_batch offset nowMs sh
            @ (if offset + scanned \<ge> length (slots sh) then [] else range_list nowMs sh (offset + scanned)))"
  by pat_completeness auto
termination
  by (relation "measure (\<lambda>(_, sh, offset). length (slots sh) - offset)") auto

declare range_list.simps [simp del]

definition range_entries :: "u64 \<Rightarrow> Store \<Rightarrow> entry list" where
  "range_entries nowMs s = concat (map (\<lambda>sh. range_list nowMs sh 0) (shards s))"

lemma range_calls_append:
  "range_calls fn (es @ fs) c = (case range_calls fn es c of (True, c) \<Rightarrow> range_calls fn fs c | (False, c) \<Rightarrow> (False, c))"
  by (induction es arbitrary: c) (auto split: prod.splits bool.splits)

lemma range_list_steps:
  "length (slots sh) \<le> off \<Longrightarrow> range_list now sh off = []"
  "off < length (slots sh) \<Longrightarrow> length (slots sh) \<le> off + 256 \<Longrightarrow> range_list now sh off = range_batch off now sh"
  "off + 256 < length (slots sh) \<Longrightarrow>
     range_list now sh off = range_batch off now sh @ range_list now sh (off + 256)"
  subgoal by (subst range_list.simps) simp
  subgoal by (subst range_list.simps) (simp add: Let_def)
  subgoal by (subst range_list.simps) (simp add: Let_def)
  done

lemma range_shard_steps:
  "length (slots sh) \<le> off \<Longrightarrow> range_shard fn now sh off c = (True, c)"
  "off < length (slots sh) \<Longrightarrow> length (slots sh) \<le> off + 256 \<Longrightarrow>
     range_shard fn now sh off c = range_calls fn (range_batch off now sh) c"
  "off + 256 < length (slots sh) \<Longrightarrow>
     range_shard fn now sh off c = (case range_calls fn (range_batch off now sh) c of
        (True, c) \<Rightarrow> range_shard fn now sh (off + 256) c | (False, c) \<Rightarrow> (False, c))"
  subgoal by (subst range_shard.simps) simp
  subgoal by (subst range_shard.simps) (auto simp add: Let_def split: prod.split bool.split)
  subgoal by (subst range_shard.simps) (auto simp add: Let_def split: prod.split bool.split)
  done

lemma range_induct [consumes 0, case_names none last more]:
  fixes sh :: shard
  assumes "\<And>off. length (slots sh) \<le> off \<Longrightarrow> P off"
    and "\<And>off. off < length (slots sh) \<Longrightarrow> length (slots sh) \<le> off + 256 \<Longrightarrow> P off"
    and "\<And>off. off + 256 < length (slots sh) \<Longrightarrow> P (off + 256) \<Longrightarrow> P off"
  shows "P off"
proof (induction "length (slots sh) - off" arbitrary: off rule: less_induct)
  case less
  show ?case
  proof (cases "off + 256 < length (slots sh)")
    case True
    then show ?thesis using less assms(3) by simp
  next
    case False
    then show ?thesis using assms(1,2) by (metis not_le_imp_less)
  qed
qed

lemma range_shard_calls: "range_shard fn now sh off c = range_calls fn (range_list now sh off) c"
  by (induction off arbitrary: c rule: range_induct [of sh])
    (auto simp: range_shard_steps range_list_steps range_calls_append split: prod.split bool.split)

lemma store_Range_calls: "store_Range fn now s c = snd (range_calls fn (range_entries now s) c)"
proof -
  have "range_shards fn now shs c = snd (range_calls fn (concat (map (\<lambda>sh. range_list now sh 0) shs)) c)" for shs
    by (induction shs arbitrary: c) (auto simp: range_shard_calls range_calls_append split: prod.split bool.split)
  then show ?thesis by (simp add: store_Range_def range_entries_def)
qed

lemma range_batch_bounds:
  fixes sh :: shard and now :: u64
  defines "f \<equiv> \<lambda>a. entry_Clone (heap sh a)" and "P \<equiv> \<lambda>a. \<not> entry_Expired (heap sh a) now"
  shows "set (range_batch off now sh) \<subseteq> f ` {a \<in> set (drop off (slots sh)). P a}"
    and "f ` {a \<in> set (take 256 (drop off (slots sh))). P a} \<subseteq> set (range_batch off now sh)"
proof -
  let ?xs = "drop off (slots sh)"
  have b: "range_batch off now sh = map f (take 256 (filter P ?xs))"
    by (simp add: range_batch_def f_def P_def take_map)
  show "set (range_batch off now sh) \<subseteq> f ` {a \<in> set ?xs. P a}"
    unfolding b using set_take_subset [of 256 "filter P ?xs"] by auto
  have "length (filter P (take 256 ?xs)) \<le> 256"
    using length_filter_le [of P "take 256 ?xs"] by simp
  moreover have "filter P ?xs = filter P (take 256 ?xs) @ filter P (drop 256 ?xs)"
    by (metis append_take_drop_id filter_append)
  ultimately show "f ` {a \<in> set (take 256 ?xs). P a} \<subseteq> set (range_batch off now sh)"
    unfolding b by auto
qed

lemma range_list_set:
  "set (range_list now sh off)
    = (\<lambda>a. entry_Clone (heap sh a)) ` {a \<in> set (drop off (slots sh)). \<not> entry_Expired (heap sh a) now}"
proof (induction off rule: range_induct [of sh])
  case (none off)
  then show ?case by (simp add: range_list_steps)
next
  case (last off)
  then have "take 256 (drop off (slots sh)) = drop off (slots sh)" by simp
  then show ?case using range_batch_bounds [where off = off and now = now and sh = sh] last by (auto simp: range_list_steps)
next
  case (more off)
  have "set (drop off (slots sh)) = set (take 256 (drop off (slots sh))) \<union> set (drop (off + 256) (slots sh))"
    by (metis add.commute append_take_drop_id drop_drop set_append)
  then show ?case
    unfolding range_list_steps(3) [OF more(1)] set_append more(2)
    using range_batch_bounds [where off = off and now = now and sh = sh] by blast
qed

lemma range_list_all_live:
  assumes "\<forall>a \<in> set (slots sh). \<not> entry_Expired (heap sh a) now"
  shows "range_list now sh off = map (\<lambda>a. entry_Clone (heap sh a)) (drop off (slots sh))"
proof -
  have "filter (\<lambda>a. \<not> entry_Expired (heap sh a) now) (drop off (slots sh)) = drop off (slots sh)" for off
    using assms by (auto intro: filter_True dest: in_set_dropD)
  then have b: "range_batch off now sh = map (\<lambda>a. entry_Clone (heap sh a)) (take 256 (drop off (slots sh)))" for off
    by (simp add: range_batch_def take_map)
  show ?thesis
  proof (induction off rule: range_induct [of sh])
    case (more off)
    have "drop off (slots sh) = take 256 (drop off (slots sh)) @ drop (off + 256) (slots sh)"
      by (metis add.commute append_take_drop_id drop_drop)
    then show ?case unfolding range_list_steps(3) [OF more(1)] b more(2) by (metis map_append)
  qed (simp_all add: range_list_steps b)
qed

section \<open>The entries of a store\<close>

definition store_slots :: "Store \<Rightarrow> (shard \<times> addr) list" where
  "store_slots s = concat (map (\<lambda>sh. map (Pair sh) (slots sh)) (shards s))"

abbreviation slot_entry :: "shard \<times> addr \<Rightarrow> entry" where
  "slot_entry p \<equiv> heap (fst p) (snd p)"

lemma store_slots_lookup:
  assumes "wf_store s" "p \<in> set (store_slots s)"
  shows "store_abs s (eKey (slot_entry p)) = Some (eValue (slot_entry p), eExpireAt (slot_entry p))"
proof -
  have "fst p \<in> set (shards s)" "snd p \<in> set (slots (fst p))"
    using assms(2) by (auto simp: store_slots_def)
  then obtain i where i: "i < length (shards s)" "fst p = shards s ! i" "snd p \<in> set (slots (shards s ! i))"
    by (metis in_set_conv_nth)
  note a = slots_dom [OF wf_storeD(3) [OF assms(1) i(1)] i(3)]
  then have "shardFor s (eKey (slot_entry p)) = i"
    using wf_storeD(4) [OF assms(1) i(1), OF domI] i(2) by metis
  then show ?thesis using a i(2) by (simp add: store_abs_def)
qed

lemma store_slots_of_key:
  assumes "wf_store s" "store_abs s k = Some (v, x)"
  obtains p where "p \<in> set (store_slots s)" "eKey (slot_entry p) = k" "eValue (slot_entry p) = v" "eExpireAt (slot_entry p) = x"
proof -
  note i = wf_storeD(1,2) [OF assms(1), of k]
  obtain a where a: "map_of (entries (cell s k)) k = Some a" "eValue (heap (cell s k) a) = v" "eExpireAt (heap (cell s k) a) = x"
    using assms(2) by (auto simp: store_abs_def shard_abs_def)
  note ka = wf_key [OF wf_shardD(1) [OF i(2)] a(1)]
  have "(cell s k, a) \<in> set (store_slots s)" using i(1) ka(2) by (auto simp: store_slots_def)
  then show ?thesis using that [of "(cell s k, a)"] ka(1) a by simp
qed

lemma store_slots_keys_distinct:
  assumes "wf_store s"
  shows "distinct (map (\<lambda>p. eKey (slot_entry p)) (store_slots s))"
proof -
  have inner: "distinct (map (\<lambda>a. eKey (heap (shards s ! i) a)) (slots (shards s ! i)))" if "i < length (shards s)" for i
  proof -
    note w = wf_storeD(3) [OF assms that]
    have "distinct (slots (shards s ! i))"
      using wf_shardD(2) [OF w] idx_ok_distinct by (auto simp: wf_slots_def)
    moreover have "inj_on (\<lambda>a. eKey (heap (shards s ! i) a)) (set (slots (shards s ! i)))"
      using wf_slot_inj [OF wf_shardD(1) [OF w]] by (auto intro!: inj_onI)
    ultimately show ?thesis by (simp add: distinct_map)
  qed
  have route: "shardFor s (eKey (heap (shards s ! i) a)) = i" if "i < length (shards s)" "a \<in> set (slots (shards s ! i))" for i a
    using slots_dom [OF wf_storeD(3) [OF assms that(1)] that(2)] wf_storeD(4) [OF assms that(1), OF domI] by blast
  have e: "map (\<lambda>p. eKey (slot_entry p)) (store_slots s)
      = concat (map (\<lambda>i. map (\<lambda>a. eKey (heap (shards s ! i) a)) (slots (shards s ! i))) [0..<length (shards s)])"
    unfolding store_slots_def map_concat
    by (rule arg_cong [of _ _ concat], rule nth_equalityI) (auto simp: comp_def)
  have "distinct (concat (map (\<lambda>i. map (\<lambda>a. eKey (heap (shards s ! i) a)) (slots (shards s ! i))) [0..<n]))"
    if "n \<le> length (shards s)" for n
    using that
  proof (induction n)
    case (Suc n)
    then show ?case using inner [of n] route by (fastforce dest: route [rotated])
  qed simp
  then show ?thesis unfolding e by blast
qed

lemma store_Len_card:
  assumes "wf_store s"
  shows "store_Len s = card (dom (store_abs s))"
proof -
  have "length (entries sh) = length (slots sh)" if "sh \<in> set (shards s)" for sh
    using assms that wf_len wf_shardD by (auto simp: wf_store_def)
  then have "store_Len s = length (store_slots s)"
    unfolding store_Len_def store_slots_def length_concat by (auto intro!: arg_cong [of _ _ sum_list] map_cong)
  moreover have "set (map (\<lambda>p. eKey (slot_entry p)) (store_slots s)) = dom (store_abs s)"
  proof (intro equalityI subsetI)
    fix k assume "k \<in> dom (store_abs s)"
    then obtain v x where "store_abs s k = Some (v, x)" by auto
    then show "k \<in> set (map (\<lambda>p. eKey (slot_entry p)) (store_slots s))"
      by (rule store_slots_of_key [OF assms]) auto
  qed (use store_slots_lookup [OF assms] in auto)
  ultimately show ?thesis
    using distinct_card [OF store_slots_keys_distinct [OF assms]] by simp
qed

lemma clone_fields [simp]:
  "eKey (entry_Clone e) = eKey e" "eValue (entry_Clone e) = eValue e" "eExpireAt (entry_Clone e) = eExpireAt e"
  by (simp_all add: entry_Clone_def)

lemma range_entries_set:
  "set (range_entries now s) = (\<lambda>p. entry_Clone (slot_entry p)) ` {p \<in> set (store_slots s). \<not> entry_Expired (slot_entry p) now}"
  by (force simp: range_entries_def store_slots_def range_list_set)

lemma range_entries_all_live:
  assumes "\<forall>p \<in> set (store_slots s). \<not> entry_Expired (slot_entry p) now"
  shows "range_entries now s = map (\<lambda>p. entry_Clone (slot_entry p)) (store_slots s)"
proof -
  have "range_list now sh 0 = map (\<lambda>a. entry_Clone (heap sh a)) (slots sh)" if "sh \<in> set (shards s)" for sh
    using range_list_all_live [of sh now 0] assms that by (force simp: store_slots_def)
  then show ?thesis
    unfolding range_entries_def store_slots_def map_concat
    by (intro arg_cong [of _ _ concat]) (simp add: comp_def)
qed

lemma range_entries_live:
  assumes "wf_store s"
  shows "(\<lambda>e. (eKey e, eValue e, eExpireAt e)) ` set (range_entries now s) = {(k, v, x). live now (store_abs s) k = Some (v, x)}"
proof (intro equalityI subsetI)
  fix t assume "t \<in> (\<lambda>e. (eKey e, eValue e, eExpireAt e)) ` set (range_entries now s)"
  then obtain p where "p \<in> set (store_slots s)" "\<not> entry_Expired (slot_entry p) now"
    "t = (eKey (slot_entry p), eValue (slot_entry p), eExpireAt (slot_entry p))"
    by (auto simp: range_entries_set)
  then show "t \<in> {(k, v, x). live now (store_abs s) k = Some (v, x)}"
    using store_slots_lookup [OF assms] by (auto simp: live_def entry_Expired_def)
next
  fix t assume "t \<in> {(k, v, x). live now (store_abs s) k = Some (v, x)}"
  then obtain k v x where t: "t = (k, v, x)" "store_abs s k = Some (v, x)" "\<not> expired_at x now"
    by (auto simp: live_def split: option.splits if_splits)
  obtain p where p: "p \<in> set (store_slots s)" "eKey (slot_entry p) = k" "eValue (slot_entry p) = v" "eExpireAt (slot_entry p) = x"
    by (rule store_slots_of_key [OF assms t(2)])
  then have "entry_Clone (slot_entry p) \<in> set (range_entries now s)"
    using t(3) by (auto simp: range_entries_set entry_Expired_def)
  then show "t \<in> (\<lambda>e. (eKey e, eValue e, eExpireAt e)) ` set (range_entries now s)"
    using t(1) p by (intro image_eqI [of _ _ "entry_Clone (slot_entry p)"]) simp_all
qed

lemma range_entries_distinct:
  assumes "wf_store s" and l: "live now (store_abs s) = store_abs s"
  shows "distinct (map eKey (range_entries now s))"
proof -
  have "\<not> entry_Expired (slot_entry p) now" if "p \<in> set (store_slots s)" for p
    using store_slots_lookup [OF assms(1) that] fun_cong [OF l, of "eKey (slot_entry p)"]
    by (auto simp: live_def entry_Expired_def split: if_splits)
  then show "distinct (map eKey (range_entries now s))"
    using store_slots_keys_distinct [OF assms(1)] by (simp add: range_entries_all_live comp_def)
qed

text \<open>
  C29. \<^verbatim>\<open>Range\<close> misses nothing and invents nothing: the entries it passes to its callback are exactly
  the keys, values and deadlines a reader at that time sees; and if no entry of the store is
  expired it passes each key exactly once.
\<close>

theorem store_Range_complete:
  assumes "wf_store s"
  shows "(\<lambda>e. (eKey e, eValue e, eExpireAt e)) ` set (range_entries now s)
      = {(k, v, x). live now (store_abs s) k = Some (v, x)}
    \<and> store_Range fn now s c = snd (range_calls fn (range_entries now s) c)
    \<and> (live now (store_abs s) = store_abs s \<longrightarrow> distinct (map eKey (range_entries now s)))"
  by (intro conjI impI range_entries_live [OF assms] store_Range_calls range_entries_distinct [OF assms])

theorem store_Range_complete_witness:
  "distinct (map eKey (range_entries 0 (store_New None \<lparr>oEngine = [], oShards = 4, oSeed = 7, oMaxMemory = 0,
      oLowWater = 0, oPolicy = [], oExactLRU = False, oEvictSampleK = 5, oEvictBatch = 200, oActorQueue = 1\<rparr>)))"
proof -
  let ?s = "store_New None \<lparr>oEngine = [], oShards = 4, oSeed = 7, oMaxMemory = 0,
      oLowWater = 0, oPolicy = [], oExactLRU = False, oEvictSampleK = 5, oEvictBatch = 200, oActorQueue = 1\<rparr>"
  have w: "wf_store ?s" and e: "store_abs ?s = Map.empty"
    by (rule store_New_spec, simp add: withDefaults_def)+
  have "live 0 (store_abs ?s) = store_abs ?s" by (simp add: e live_def fun_eq_iff)
  with store_Range_complete [OF w, of 0 "\<lambda>_ c. (True, c)" "()"] show ?thesis by blast
qed

subsection \<open>Repeated entries\<close>

text \<open>
  When expired entries are present a batch of 256 live entries reaches past the 256 slots it is
  accounted for, and the next batch starts inside it.
\<close>

lemma range_repeats:
  assumes "slots sh = a # as" "length as = 256" "entry_Expired (heap sh a) now"
    "\<forall>b \<in> set as. \<not> entry_Expired (heap sh b) now"
  shows "range_list now sh 0 = map (\<lambda>b. entry_Clone (heap sh b)) (as @ [last as])"
proof -
  obtain bs z where as: "as = bs @ [z]" using assms(2) by (cases as rule: rev_cases) auto
  then have l: "length bs = 255" using assms(2) by simp
  have sl: "slots sh = (a # bs) @ [z]" using assms(1) as by simp
  have d: "drop 256 (slots sh) = [z]" unfolding sl using l by (subst drop_append) simp
  have "range_list now sh 0 = range_batch 0 now sh @ range_list now sh 256"
    using range_list_steps(3) [of 0 sh now] sl l by simp
  also have "range_list now sh 256 = range_batch 256 now sh"
    using sl l by (intro range_list_steps(2)) auto
  also have "range_batch 256 now sh = [entry_Clone (heap sh z)]"
    unfolding range_batch_def d using assms(4) as by simp
  also have "range_batch 0 now sh = map (\<lambda>b. entry_Clone (heap sh b)) as"
    unfolding range_batch_def using assms by (simp add: filter_True)
  finally show ?thesis by (simp add: as)
qed

definition repeat_entry :: "addr \<Rightarrow> entry" where
  "repeat_entry i = \<lparr>eKey = replicate i 0, eValue = [], eExpireAt = (if i = 0 then 1 else 0), eLastAccess = 0,
     eSize = word_of_nat (i + 160), eSlot = int i, eTtlSlot = (if i = 0 then 0 else - 1), ePrev = None, eNext = None\<rparr>"

definition repeat_shard :: shard where
  "repeat_shard = (newShard 5 200 1 False policyAllKeysLRU)
     \<lparr>entries := map (\<lambda>i. (replicate i 0, i)) [0..<257], heap := repeat_entry, nextAddr := 257,
      slots := [0..<257], ttlSlots := [0], memBytes := (\<Sum>i \<in> {0..<257}. int i + 160)\<rparr>"

lemma repeat_size:
  assumes "i < 257"
  shows "entry_Size (repeat_entry i) = int i + 160"
proof -
  have "uint (word_of_int (int i + 160) :: u32) = int i + 160"
    using assms by (intro uint_word_of_int32) auto
  then show ?thesis by (simp add: entry_Size_def repeat_entry_def)
qed

lemma repeat_shard_wf: "wf_shard repeat_shard"
  unfolding wf_shard_def
proof (intro conjI)
  show "wf_map repeat_shard"
    by (auto simp: wf_map_def repeat_shard_def repeat_entry_def comp_def distinct_map inj_on_def image_image)
  show "wf_slots repeat_shard"
    by (auto simp: wf_slots_def repeat_shard_def repeat_entry_def idx_ok_def)
  show "wf_ttl repeat_shard"
    by (auto simp: wf_ttl_def repeat_shard_def repeat_entry_def idx_ok_def)
  show "wf_mem repeat_shard"
  proof -
    have k: "length (eKey (repeat_entry i)) = i" "eValue (repeat_entry i) = []" for i by (simp_all add: repeat_entry_def)
    have "(\<Sum>i \<in> {0..<257}. int i + 160) = (\<Sum>i \<in> {0..<257}. entry_Size (repeat_entry i))"
      by (rule sum.cong) (auto simp: repeat_size)
    moreover have "\<forall>i \<in> {0..<257}. entry_Size (repeat_entry i) = EntryCost i 0"
      by (auto simp: repeat_size EntryCost_def)
    ultimately show ?thesis by (simp add: wf_mem_def repeat_shard_def k)
  qed
  show "wf_lru repeat_shard" by (simp add: wf_lru_def repeat_shard_def newShard_def)
qed

definition collect :: "entry \<Rightarrow> entry list \<Rightarrow> bool \<times> entry list" where
  "collect en es = (True, es @ [en])"

lemma range_collect: "range_calls collect es acc = (True, acc @ es)"
  by (induction es arbitrary: acc) (simp_all add: collect_def)

text \<open>
  C36. \<^verbatim>\<open>Range\<close> can deliver an entry twice. On a store of one shard with 257 entries of which only the first one in the shard's slice has
  expired, a callback that collects what it gets ends with every live entry, in order, and then with the last of them again.
\<close>

theorem store_Range_can_repeat:
  assumes "shards s = [sh]" "slots sh = a # as" "length as = 256" "entry_Expired (heap sh a) now"
    and "\<forall>b \<in> set as. \<not> entry_Expired (heap sh b) now"
  shows "store_Range collect now s [] = map (\<lambda>b. entry_Clone (heap sh b)) (as @ [last as])"
  using range_repeats [OF assms(2-5)] by (simp add: store_Range_calls range_entries_def assms(1) range_collect)

theorem store_Range_can_repeat_witness:
  "\<exists>s. wf_store s \<and> length (store_Range collect 1 s []) = 257 \<and> \<not> distinct (map eKey (store_Range collect 1 s []))"
proof -
  let ?s = "(store_New None \<lparr>oEngine = [], oShards = 1, oSeed = 1, oMaxMemory = 0, oLowWater = 0, oPolicy = [],
      oExactLRU = False, oEvictSampleK = 5, oEvictBatch = 200, oActorQueue = 1\<rparr>)
      \<lparr>shards := [repeat_shard], mask := 0\<rparr>"
  have w: "wf_store ?s" by (simp add: wf_store_def repeat_shard_wf shardFor_def)
  have "slots repeat_shard = 0 # [1..<257]" by (simp add: repeat_shard_def upt_conv_Cons)
  moreover have "entry_Expired (heap repeat_shard 0) 1" "\<forall>b \<in> set [1..<257]. \<not> entry_Expired (heap repeat_shard b) 1"
    by (auto simp: repeat_shard_def repeat_entry_def entry_Expired_def expired_at_def)
  ultimately have "store_Range collect 1 ?s [] = map (\<lambda>b. entry_Clone (heap repeat_shard b)) ([1..<257] @ [last [1..<257]])"
    by (intro store_Range_can_repeat) simp_all
  then have r: "store_Range collect 1 ?s [] = map (\<lambda>b. entry_Clone (heap repeat_shard b)) ([1..<257] @ [256])" by simp
  moreover have "(256 :: nat) \<in> set [1..<257]" by simp
  ultimately have "\<not> distinct (map eKey (store_Range collect 1 ?s []))" by (auto simp del: upt_Suc)
  moreover have "length (store_Range collect 1 ?s []) = 257" unfolding r by simp
  ultimately show ?thesis using w by blast
qed

end
