(* ===== verification/Store_Bulk.thy ===== *)
theory Store_Bulk
  imports Store_Scan
begin

text \<open>
  \<^verbatim>\<open>PurgeExpired\<close> terminates and removes every expired entry and nothing else; the memory limit
  holds after any sequence of commands.
\<close>

section \<open>Purging\<close>

lemma removeEntry_ttlSlots:
  assumes "wf_shard s" "e \<in> set (ttlSlots s)"
  shows "ttlSlots (removeEntryLocked e s) = swap_remove (nat (eTtlSlot (heap s e))) (ttlSlots s)"
proof -
  have ix: "idx_ok (\<lambda>a. eTtlSlot (heap s a)) (ttlSlots s)" using wf_shardD(3) [OF assms(1)] by (simp add: wf_ttl_def)
  note e = idx_ok_memD [OF ix assms(2)]
  let ?u = "\<lambda>s. removeTTLSlotLocked e s"
  have r: "ttlSlots (removeTTLSlotLocked e u) = swap_remove (nat (eTtlSlot (heap s e))) (ttlSlots s)"
    if "ttlSlots u = ttlSlots s" "\<And>a. eTtlSlot (heap u a) = eTtlSlot (heap s a)" for u
    using that e by (simp add: removeTTLSlotLocked_def Let_def upd_entry_def swap_remove_def)
  have "ttlSlots (removeSlotLocked e (s\<lparr>entries := x\<rparr>)) = swap_remove (nat (eTtlSlot (heap s e))) (ttlSlots s)" for x
    unfolding removeSlotLocked_def Let_def by (rule r) (simp_all add: upd_entry_def)
  then show ?thesis by (simp add: removeEntryLocked_def Let_def shard_frame)
qed

lemma expire_remove_ttlSlots:
  assumes "wf_shard s" "j < length (ttlSlots s)"
  shows "ttlSlots (expire_remove (ttlSlots s ! j) s) = swap_remove j (ttlSlots s)"
proof -
  have "eTtlSlot (heap s (ttlSlots s ! j)) = int j"
    using wf_shardD(3) [OF assms(1)] assms(2) by (simp add: wf_ttl_def idx_ok_def)
  then show ?thesis
    using removeEntry_ttlSlots [OF assms(1) nth_mem [OF assms(2)]]
    by (simp add: expire_remove_def fire_onEvict_def Let_def)
qed

lemma expire_remove_Expired: "entry_Expired (heap (expire_remove e s) a) now = entry_Expired (heap s a) now"
  by (simp add: expire_remove_def fire_onEvict_def Let_def entry_Expired_def shard_frame)

lemma ttl_in_slots: "wf_shard s \<Longrightarrow> set (ttlSlots s) \<subseteq> set (slots s)"
  by (auto simp: wf_shard_def wf_ttl_def)

lemma purge_pass_spec:
  assumes "wf_shard s" "j \<le> length (ttlSlots s)" "removed \<le> 1024"
    and "\<forall>i. j \<le> i \<and> i < length (ttlSlots s) \<longrightarrow> \<not> entry_Expired (heap s (ttlSlots s ! i)) now"
    and "purge_pass j now removed s = (r, t)"
  shows "\<exists>L. expires now s t L \<and> r = removed + length L \<and> r \<le> 1024 \<and> length (ttlSlots t) + length L = length (ttlSlots s)
    \<and> (r < 1024 \<longrightarrow> (\<forall>a \<in> set (ttlSlots t). \<not> entry_Expired (heap t a) now))"
  using assms
proof (induction j arbitrary: s removed)
  case 0
  then show ?case using expires_refl [of s now] by (intro exI [of _ "[]"]) (auto simp: in_set_conv_nth)
next
  case (Suc j)
  let ?e = "ttlSlots s ! j"
  have j: "j < length (ttlSlots s)" using Suc.prems(2) by simp
  show ?case
  proof (cases "removed < 1024")
    case False
    then show ?thesis using Suc.prems expires_refl [of s now] by (intro exI [of _ "[]"]) auto
  next
    case True
    show ?thesis
    proof (cases "entry_Expired (heap s ?e) now")
      case False
      then have "\<forall>i. j \<le> i \<and> i < length (ttlSlots s) \<longrightarrow> \<not> entry_Expired (heap s (ttlSlots s ! i)) now"
        using Suc.prems(4) by (metis Suc_leI le_neq_implies_less)
      then show ?thesis using Suc.IH [of s removed] Suc.prems False True by (simp add: Let_def)
    next
      case ex: True
      have es: "?e \<in> set (slots s)" using ttl_in_slots [OF Suc.prems(1)] nth_mem [OF j] by blast
      let ?s = "expire_remove ?e s"
      note E = expire_remove_expires [OF Suc.prems(1) es ex]
      have w: "wf_shard ?s" using E by (simp add: expires_def shrinks_def)
      note T = expire_remove_ttlSlots [OF Suc.prems(1) j]
      have l: "length (ttlSlots ?s) = length (ttlSlots s) - 1" by (simp add: T)
      have jl: "j \<le> length (ttlSlots ?s)" using l j by linarith
      have "\<not> entry_Expired (heap ?s (ttlSlots ?s ! i)) now" if "j \<le> i" "i < length (ttlSlots ?s)" for i
        using that l Suc.prems(4) by (auto simp: T nth_swap_remove expire_remove_Expired)
      moreover have "purge_pass j now (removed + 1) ?s = (r, t)" using Suc.prems(5) True ex by (simp add: Let_def)
      ultimately obtain L where L: "expires now ?s t L" "r = removed + 1 + length L" "r \<le> 1024"
        "length (ttlSlots t) + length L = length (ttlSlots ?s)"
        "r < 1024 \<longrightarrow> (\<forall>a \<in> set (ttlSlots t). \<not> entry_Expired (heap t a) now)"
        using Suc.IH [OF w jl, of "removed + 1"] True by auto
      have "expires now s t ((eKey (heap s ?e), ReasonExpired) # L)" using expires_trans [OF E L(1)] by simp
      then show ?thesis using L l j by (intro exI [of _ "(eKey (heap s ?e), ReasonExpired) # L"]) auto
    qed
  qed
qed

definition no_expired :: "u64 \<Rightarrow> shard \<Rightarrow> bool" where
  "no_expired now sh \<longleftrightarrow> (\<forall>a \<in> set (slots sh). \<not> entry_Expired (heap sh a) now)"

lemma no_expired_ttl:
  assumes "wf_shard sh" "\<forall>a \<in> set (ttlSlots sh). \<not> entry_Expired (heap sh a) now"
  shows "no_expired now sh"
  using assms by (auto simp: no_expired_def wf_shard_def wf_ttl_def entry_Expired_def expired_at_def)

lemma no_expired_live:
  assumes "wf_shard sh" "no_expired now sh"
  shows "live now (shard_abs sh) = shard_abs sh"
proof
  fix k
  show "live now (shard_abs sh) k = shard_abs sh k"
  proof (cases "map_of (entries sh) k")
    case (Some a)
    then show ?thesis using assms wf_key(2) [OF wf_shardD(1) [OF assms(1)] Some]
      by (auto simp: live_def shard_abs_def no_expired_def entry_Expired_def)
  qed (simp add: live_def shard_abs_def)
qed

lemma expires_dom: "expires now s t L \<Longrightarrow> dom (shard_abs t) \<subseteq> dom (shard_abs s)"
  by (auto simp: expires_def shrinks_def restrict_map_def split: if_splits)

text \<open>The whole loop on one shard, with enough fuel.\<close>

lemma purge_shard_spec:
  assumes "wf_store s" "i < length (shards s)" "length (ttlSlots (shards s ! i)) < fuel"
  shows "\<exists>r t. purge_shard fuel i now tot s = Some (r, t) \<and> tot \<le> r \<and> wf_store t \<and> length (shards t) = length (shards s)
    \<and> live now (shard_abs (shards t ! i)) = shard_abs (shards t ! i)
    \<and> live now (shard_abs (shards t ! i)) = live now (shard_abs (shards s ! i))
    \<and> (\<forall>j < length (shards s). j \<noteq> i \<longrightarrow> shards t ! j = shards s ! j) \<and> shardFor t = shardFor s"
  using assms
proof (induction fuel arbitrary: s tot)
  case (Suc fuel)
  let ?c = "(shards s ! i)\<lparr>evicted := []\<rparr>" and ?fn = "\<lambda>sh. purge_pass (length (ttlSlots sh)) now 0 sh"
  obtain rm sh where f: "?fn ?c = (rm, sh)" by force
  have wc: "wf_shard ?c" using wf_storeD(3) [OF Suc.prems(1,2)] by simp
  have pp: "purge_pass (length (ttlSlots ?c)) now 0 ?c = (rm, sh)" using f .
  have vac: "\<forall>j. length (ttlSlots ?c) \<le> j \<and> j < length (ttlSlots ?c) \<longrightarrow> \<not> entry_Expired (heap ?c (ttlSlots ?c ! j)) now"
    by auto
  obtain L where L: "expires now ?c sh L" "rm = length L" "rm \<le> 1024" "length (ttlSlots sh) + length L = length (ttlSlots ?c)"
    "rm < 1024 \<longrightarrow> (\<forall>a \<in> set (ttlSlots sh). \<not> entry_Expired (heap sh a) now)"
    using purge_pass_spec [OF wc order_refl _ vac pp] by auto
  have wsh: "wf_shard sh" using L(1) by (simp add: expires_def shrinks_def)
  have d: "dom (shard_abs sh) \<subseteq> {k. shardFor s k = i}"
    using expires_dom [OF L(1)] wf_storeD(4) [OF Suc.prems(1,2)] by auto
  let ?t = "snd (withWrite i ?fn s)"
  note F = withWrite_fields [of ?fn s i rm sh, OF f]
  note W = withWrite_shard [of s i ?fn rm sh, OF Suc.prems(1,2) f wsh d]
  have ti: "shards ?t ! i = sh\<lparr>evicted := []\<rparr>" "length (shards ?t) = length (shards s)"
    "\<forall>j < length (shards s). j \<noteq> i \<longrightarrow> shards ?t ! j = shards s ! j"
    using F(2) Suc.prems(2) by simp_all
  have lv: "live now (shard_abs (shards ?t ! i)) = live now (shard_abs (shards s ! i))"
    using expires_live [OF L(1)] by (simp add: ti(1))
  show ?case
  proof (cases "rm < 1024")
    case True
    have "live now (shard_abs (shards ?t ! i)) = shard_abs (shards ?t ! i)"
      using no_expired_live [OF wsh no_expired_ttl [OF wsh]] L(5) True by (simp add: ti(1))
    then show ?thesis using True F(1,3) W(1) ti lv by (auto simp: Let_def split_beta)
  next
    case False
    then have "0 < length L" using L(2,3) by simp
    moreover have "length (ttlSlots sh) + length L < Suc fuel" using L(4) Suc.prems(3) by simp
    ultimately have "length (ttlSlots sh) < fuel" by linarith
    then have "length (ttlSlots (shards ?t ! i)) < fuel" by (simp add: ti(1))
    from Suc.IH [OF W(1) _ this, of "tot + rm"] show ?thesis
      using False F(1,3) ti lv Suc.prems(2) by (auto simp: Let_def split_beta)
  qed
qed simp

lemma purge_live:
  assumes "wf_store s"
  shows "\<exists>r t. PurgeExpired now s = Some (r, t) \<and> wf_store t \<and> store_abs t = live now (store_abs s)"
proof -
  have loop: "\<exists>r t. purge_shards is now tot s = Some (r, t) \<and> wf_store t \<and> length (shards t) = length (shards s)
      \<and> (\<forall>i < length (shards s). if i \<in> set is then shard_abs (shards t ! i) = live now (shard_abs (shards s ! i))
            else shards t ! i = shards s ! i) \<and> shardFor t = shardFor s"
    if "wf_store s" "distinct is" "\<forall>i \<in> set is. i < length (shards s)" for s "is" tot
    using that
  proof (induction "is" arbitrary: s tot)
    case (Cons i "is")
    obtain r u where u: "purge_shard (Suc (length (ttlSlots (shards s ! i)))) i now tot s = Some (r, u)" "wf_store u"
      "length (shards u) = length (shards s)" "shard_abs (shards u ! i) = live now (shard_abs (shards s ! i))"
      "\<forall>j < length (shards s). j \<noteq> i \<longrightarrow> shards u ! j = shards s ! j" "shardFor u = shardFor s"
      using purge_shard_spec [OF Cons.prems(1), of i "Suc (length (ttlSlots (shards s ! i)))" now tot] Cons.prems(3) by auto
    obtain r' t where t: "purge_shards is now r u = Some (r', t)" "wf_store t" "length (shards t) = length (shards u)"
      "\<forall>i < length (shards u). if i \<in> set is then shard_abs (shards t ! i) = live now (shard_abs (shards u ! i))
            else shards t ! i = shards u ! i" "shardFor t = shardFor u"
      using Cons.IH [OF u(2), of r] Cons.prems u(3) by auto
    have "if j \<in> set (i # is) then shard_abs (shards t ! j) = live now (shard_abs (shards s ! j))
        else shards t ! j = shards s ! j" if "j < length (shards s)" for j
      using t(4) u(3,4,5) that Cons.prems(2) by (cases "j = i") auto
    then show ?case using u t by auto
  qed auto
  obtain r t where t: "PurgeExpired now s = Some (r, t)" "wf_store t" "length (shards t) = length (shards s)"
    "\<forall>i < length (shards s). shard_abs (shards t ! i) = live now (shard_abs (shards s ! i))" "shardFor t = shardFor s"
    using loop [OF assms, of "[0..<length (shards s)]" 0] unfolding PurgeExpired_def by auto
  have "store_abs t k = live now (store_abs s) k" for k
    using t(4,5) wf_storeD(1) [OF assms, of k] by (simp add: store_abs_def live_cell)
  then show ?thesis using t(1,2) by blast
qed

text \<open>
  C30. Purging ends (the loop that repeats while a full batch was removed always finishes) and
  leaves exactly the keys that are live at that time.
\<close>

theorem PurgeExpired_correct:
  assumes "wf_store s"
  shows "\<exists>r t. PurgeExpired now s = Some (r, t) \<and> wf_store t \<and> store_abs t = live now (store_abs s)"
  by (rule purge_live [OF assms])

theorem PurgeExpired_correct_witness:
  "\<exists>r t. PurgeExpired 5 (store_New None \<lparr>oEngine = [], oShards = 4, oSeed = 7, oMaxMemory = 0, oLowWater = 0, oPolicy = [],
      oExactLRU = False, oEvictSampleK = 5, oEvictBatch = 200, oActorQueue = 1\<rparr>) = Some (r, t) \<and> wf_store t"
proof -
  have "wf_store (store_New None \<lparr>oEngine = [], oShards = 4, oSeed = 7, oMaxMemory = 0, oLowWater = 0, oPolicy = [],
      oExactLRU = False, oEvictSampleK = 5, oEvictBatch = 200, oActorQueue = 1\<rparr>)"
    by (rule store_New_spec) (simp add: withDefaults_def)
  from PurgeExpired_correct [OF this, of 5] show ?thesis by blast
qed

section \<open>The memory limit\<close>

text \<open>What an operation may do to a shard's memory: at most \<open>d\<close> more entries, and the counter never above
  the larger of its old value and the budget.\<close>

definition within :: "nat \<Rightarrow> shard \<Rightarrow> shard \<Rightarrow> bool" where
  "within d t s \<longleftrightarrow> budget t = budget s \<and> memBytes t \<le> max (memBytes s) (budget s) \<and> length (slots t) \<le> length (slots s) + d"

lemma removeEntry_within: "within 0 (removeEntryLocked e s) s"
proof -
  have "length (slots (removeEntryLocked e s)) \<le> length (slots s)"
    by (simp add: removeEntryLocked_def removeSlotLocked_def Let_def shard_frame upd_entry_def)
  moreover have "memBytes s - entry_Size (heap s e) \<le> memBytes s" by simp
  ultimately show ?thesis by (simp add: within_def shard_frame le_max_iff_disj)
qed

lemma expire_remove_within: "within 0 (expire_remove e s) s"
  using removeEntry_within [of e s] by (simp add: within_def expire_remove_def fire_onEvict_def Let_def)

lemma shard_ops_within:
  "within 0 (snd (getLocked k now nm s)) s" "within 0 (snd (reapLocked k now s)) s"
  "within 0 (snd (delete_live k now s)) s" "within 0 (snd (expire_live k x now s)) s"
proof -
  have id: "within 0 s s" by (simp add: within_def)
  have el: "within 0 (snd (expireLocked k x s)) s"
    using id by (auto simp: expireLocked_def Let_def within_def shard_frame upd_entry_def split: option.splits)
  show "within 0 (snd (getLocked k now nm s)) s"
    using shard_sim_fields [OF getLocked_sim [of k now nm s]] by (simp add: within_def)
  show r: "within 0 (snd (reapLocked k now s)) s"
    using id expire_remove_within by (auto simp: reapLocked_def split: option.splits)
  show "within 0 (snd (delete_live k now s)) s"
    using id removeEntry_within by (auto simp: delete_live_def delLocked_def split: option.splits)
  show "within 0 (snd (expire_live k x now s)) s"
    using el r by (auto simp: expire_live_def split: option.splits)
qed

definition store_within :: "nat \<Rightarrow> Store \<Rightarrow> Store \<Rightarrow> bool" where
  "store_within d t s \<longleftrightarrow> length (shards t) = length (shards s) \<and> (\<forall>i < length (shards s). within d (shards t ! i) (shards s ! i))"

lemma within_refl [simp]: "within d s s"
  by (simp add: within_def)

lemma store_within_refl [simp]: "store_within d s s"
  by (simp add: store_within_def)

lemma store_within_trans: "store_within d u t \<Longrightarrow> store_within e t s \<Longrightarrow> store_within (d + e) u s"
  by (fastforce simp: store_within_def within_def)

lemma withWrite_within:
  assumes "within d (snd (fn ((shards s ! i)\<lparr>evicted := []\<rparr>))) ((shards s ! i)\<lparr>evicted := []\<rparr>)"
  shows "store_within d (snd (withWrite i fn s)) s"
proof -
  obtain r sh where f: "fn ((shards s ! i)\<lparr>evicted := []\<rparr>) = (r, sh)" by force
  have "within d (sh\<lparr>evicted := []\<rparr>) (shards s ! i)" using assms f by (simp add: within_def)
  then have "within d ((shards s)[i := sh\<lparr>evicted := []\<rparr>] ! j) (shards s ! j)" if "j < length (shards s)" for j
    using that by (cases "i = j") auto
  then show ?thesis
    using withWrite_fields(2) [of fn s i r sh, OF f] by (simp add: store_within_def)
qed

lemma reap_if_within: "store_within 0 (reap_if b i k now s) s"
  by (auto simp: reap_if_def intro!: withWrite_within shard_ops_within)

lemma read_within:
  assumes "\<And>sh. snd (fn sh) = snd (getLocked k now nm sh)"
  shows "store_within 0 (reap_if b i k now (snd (withWrite i fn s))) s"
proof -
  have "store_within 0 (snd (withWrite i fn s)) s"
    by (rule withWrite_within) (simp add: assms shard_ops_within)
  from store_within_trans [OF reap_if_within this] show ?thesis by simp
qed

lemma store_reads_within:
  "store_within 0 (snd (store_Get k now nm s)) s" "store_within 0 (snd (store_Exists k now nm s)) s"
  "store_within 0 (snd (store_TTL k now nm s)) s" "store_within 0 (snd (store_Delete k now s)) s"
  "store_within 0 (snd (store_Expire k x now s)) s"
proof -
  show "store_within 0 (snd (store_Get k now nm s)) s" "store_within 0 (snd (store_Exists k now nm s)) s"
    "store_within 0 (snd (store_TTL k now nm s)) s"
    by (auto simp: store_Get_def store_Exists_def store_TTL_def withRead_withWrite Let_def split_beta
        intro!: read_within [where nm = nm])
  show "store_within 0 (snd (store_Delete k now s)) s"
    by (auto simp: store_Delete_def intro!: withWrite_within shard_ops_within)
  have "store_within 0 (snd (withWrite (shardFor s k) (expire_live k x now) s)) s"
    by (intro withWrite_within shard_ops_within)
  then show "store_within 0 (snd (store_Expire k x now s)) s"
    by (simp add: store_Expire_def split_beta store_within_def)
qed

definition store_capped :: "int \<Rightarrow> nat \<Rightarrow> Store \<Rightarrow> bool" where
  "store_capped B n s \<longleftrightarrow> wf_store s
     \<and> (\<forall>i < length (shards s). budget (shards s ! i) = B \<and> memBytes (shards s ! i) \<le> B \<and> length (slots (shards s ! i)) + n < 2 ^ 31)"

lemma store_capped_step:
  assumes "store_capped B (n + d) s" "store_within d t s" "wf_store t"
  shows "store_capped B n t"
  using assms by (fastforce simp: store_capped_def store_within_def within_def)

lemma store_step_capped:
  assumes "0 < B" "store_capped B (Suc n) s" "cmd_fits c"
  shows "store_capped B n (snd (store_step c s)) \<and> length (shards (snd (store_step c s))) = length (shards s)"
proof -
  have w: "wf_store s" using assms(2) by (simp add: store_capped_def)
  have s0: "store_capped B (n + 0) s" using assms(2) by (auto simp: store_capped_def)
  have l: "store_within d t s \<Longrightarrow> length (shards t) = length (shards s)" for d t by (simp add: store_within_def)
  have rd: "store_capped B n t \<and> length (shards t) = length (shards s)" if "store_within 0 t s" "wf_store t" for t
    using store_capped_step [OF s0 that] l [OF that(1)] by blast
  show ?thesis
  proof (cases c)
    case (CSet k v x nm)
    obtain ok t where t: "store_Set k v x nm s = (ok, t)" by force
    note i = wf_storeD(1) [OF w, of k]
    have c: "budget (cell s k) = B" "memBytes (cell s k) \<le> B" "length (slots (cell s k)) < 2 ^ 31 - 1"
      using assms(2) i by (auto simp: store_capped_def)
    have "cost_fits k v" using assms(3) CSet by simp
    note S = store_Set_spec [OF w this c(3) t]
    obtain sh where sh: "shards t = (shards s)[shardFor s k := sh]" "budget sh = B"
      "length (slots sh) \<le> Suc (length (slots (cell s k)))" "memBytes sh \<le> B"
      using S(2) c assms(1) by fastforce
    then have "store_within 1 t s"
      using c i by (auto simp: store_within_def within_def nth_list_update)
    moreover have "store_capped B (n + 1) s" using assms(2) by simp
    ultimately show ?thesis using store_capped_step [of B n 1 s t] S(1) CSet t sh(1) by simp
  next
    case CFlush
    have "store_within 0 (store_Flush s) s"
    proof -
      let ?g = "\<lambda>sh. (flushLocked (sh\<lparr>evicted := []\<rparr>))\<lparr>evicted := []\<rparr>"
      have "evicted (flushLocked (sh\<lparr>evicted := []\<rparr>)) = []" for sh by (simp add: flushLocked_def)
      from fold_withWrite [of "length (shards s)" s flushLocked, OF order_refl this]
      have t: "shards (store_Flush s) = map ?g (shards s)" by (auto simp: store_Flush_def)
      have "budget (shards s ! i) = B" if "i < length (shards s)" for i using assms(2) that by (simp add: store_capped_def)
      then show ?thesis using assms(1) by (auto simp: store_within_def within_def t flushLocked_def)
    qed
    from rd [OF this store_Flush_spec(1) [OF w]] CFlush show ?thesis by simp
  next
    case (CGet k now nm)
    then show ?thesis using rd [OF store_reads_within(1) store_Get_spec(2) [OF w], of k now nm] by simp
  next
    case (CDelete k now)
    then show ?thesis using rd [OF store_reads_within(4) store_Delete_spec(2) [OF w], of k now] by simp
  next
    case (CExists k now nm)
    then show ?thesis using rd [OF store_reads_within(2) store_Exists_spec(2) [OF w], of k now nm] by simp
  next
    case (CExpire k x now)
    then show ?thesis using rd [OF store_reads_within(5) store_Expire_spec(2) [OF w], of k x now] by simp
  next
    case (CTTL k now nm)
    then show ?thesis using rd [OF store_reads_within(3) store_TTL_spec(2) [OF w], of k now nm] by simp
  qed
qed

lemma store_run_capped:
  assumes "0 < B" "store_capped B (length cs) s" "list_all cmd_fits cs"
  shows "store_capped B 0 (snd (run_cmds store_step cs s)) \<and> length (shards (snd (run_cmds store_step cs s))) = length (shards s)"
  using assms(2,3)
proof (induction cs arbitrary: s)
  case (Cons c cs)
  have "store_capped B (length cs) (snd (store_step c s)) \<and> length (shards (snd (store_step c s))) = length (shards s)"
    using store_step_capped [of B "length cs" s c] Cons.prems assms(1) by simp
  then show ?case using Cons.IH [of "snd (store_step c s)"] Cons.prems by (simp add: split_beta Let_def)
qed simp

lemma store_capped_memory:
  assumes "store_capped B n s"
  shows "store_MemoryBytes s \<le> int (length (shards s)) * B"
proof -
  have "\<forall>x \<in> set (shards s). memBytes x \<le> B" using assms by (auto simp: store_capped_def in_set_conv_nth)
  then have "sum_list (map memBytes (shards s)) \<le> sum_list (map (\<lambda>_. B) (shards s))" by (intro sum_list_mono) auto
  then show ?thesis by (simp add: store_MemoryBytes_def sum_list_triv)
qed

text \<open>
  C8. With a memory limit, whatever commands are executed, the store's accounted memory never
  exceeds the limit (for a limit of at least one byte per shard).
\<close>

theorem memory_limit_holds:
  assumes "oShards (withDefaults e o0) \<le> oMaxMemory o0" "oMaxMemory o0 \<le> 2 ^ 63" "list_all cmd_fits cs" "length cs < 2 ^ 31"
  shows "store_MemoryBytes (snd (run_cmds store_step cs (store_New e o0))) \<le> oMaxMemory o0"
proof -
  let ?n = "oShards (withDefaults e o0)" and ?B = "oMaxMemory o0 div oShards (withDefaults e o0)"
  let ?t = "snd (run_cmds store_step cs (store_New e o0))"
  have n: "0 < ?n" by (rule withDefaults_shards)
  then have B: "1 \<le> ?B" using assms(1) by (simp add: pos_imp_zdiv_pos_iff int_one_le_iff_zero_less)
  have sh: "shards (store_New e o0) = map (new_shard_i (withDefaults e o0)) [0..<nat ?n]"
    by (simp add: store_New_def Let_def)
  have "store_capped ?B (length cs) (store_New e o0)"
    using store_New_spec(1) [of e o0] assms(1,2,4) B n
    by (auto simp: store_capped_def sh new_shard_i_spec withDefaults_memory max_def)
  then have c: "store_capped ?B 0 ?t" "length (shards ?t) = nat ?n"
    using store_run_capped [of ?B cs "store_New e o0"] assms(3) B by (simp_all add: sh)
  have "store_MemoryBytes ?t \<le> ?n * ?B" using store_capped_memory [OF c(1)] c(2) n by simp
  also have "\<dots> \<le> oMaxMemory o0" using n by (simp add: div_mult_mod_eq minus_mod_eq_mult_div [symmetric])
  finally show ?thesis .
qed

theorem memory_limit_holds_witness:
  "store_MemoryBytes (snd (run_cmds store_step [CSet [107] [1] 0 0, CSet [108] [2] 0 0]
     (store_New None \<lparr>oEngine = [], oShards = 4, oSeed = 7, oMaxMemory = 400, oLowWater = 0, oPolicy = [],
      oExactLRU = False, oEvictSampleK = 5, oEvictBatch = 200, oActorQueue = 1\<rparr>))) \<le> 400"
  using memory_limit_holds [of None "\<lparr>oEngine = [], oShards = 4, oSeed = 7, oMaxMemory = 400, oLowWater = 0, oPolicy = [],
      oExactLRU = False, oEvictSampleK = 5, oEvictBatch = 200, oActorQueue = 1\<rparr>" "[CSet [107] [1] 0 0, CSet [108] [2] 0 0]"]
  by (simp add: withDefaults_def Let_def cost_fits_def EntryCost_def)

section \<open>Listing keys\<close>

lemma hasPrefix_iff: "hasPrefix b p \<longleftrightarrow> (\<exists>r. b = p @ r)"
  by (induction b p rule: hasPrefix.induct) auto

definition key_listed :: "u64 \<Rightarrow> bytes \<Rightarrow> entry \<Rightarrow> bool" where
  "key_listed now pre e \<longleftrightarrow> \<not> entry_Expired e now \<and> hasPrefix (eKey e) pre"

lemma keys_slots_take:
  "keys_slots limit now pre h as out = out @ take (limit - length out) (map (\<lambda>a. eKey (h a)) (filter (\<lambda>a. key_listed now pre (h a)) as))"
proof (induction as arbitrary: out)
  case (Cons a as)
  show ?case
  proof (cases "length out \<ge> limit")
    case False
    then obtain m where m: "limit - length out = Suc m" by (metis Suc_diff_Suc not_le)
    then have "limit - length (out @ [eKey (h a)]) = m" by simp
    then show ?thesis using False Cons.IH m by (auto simp: key_listed_def)
  qed simp
qed simp

lemma keys_shards_take:
  "keys_shards limit now pre shs out = out @ take (limit - length out)
     (concat (map (\<lambda>sh. map (\<lambda>a. eKey (heap sh a)) (filter (\<lambda>a. key_listed now pre (heap sh a)) (slots sh))) shs))"
proof (induction shs arbitrary: out)
  case (Cons sh shs)
  then show ?case by (auto simp: keys_slots_take take_append min_def)
qed simp

text \<open>
  \<^verbatim>\<open>Keys\<close> returns distinct live keys with the given prefix, at most the limit (100 when none is
  given), and all of them when there are fewer than the limit.
\<close>

theorem store_Keys_correct:
  fixes limit :: int and now :: u64 and pre :: bytes
  assumes "wf_store s"
  defines "n \<equiv> nat (if limit \<le> 0 then 100 else limit)" and "ks \<equiv> store_Keys pre limit now s"
  shows "distinct ks \<and> length ks \<le> n
    \<and> (\<forall>k \<in> set ks. live now (store_abs s) k \<noteq> None \<and> (\<exists>r. k = pre @ r))
    \<and> (length ks < n \<longrightarrow> set ks = {k. live now (store_abs s) k \<noteq> None \<and> (\<exists>r. k = pre @ r)})"
proof -
  let ?ps = "filter (\<lambda>p. key_listed now pre (slot_entry p)) (store_slots s)"
  let ?all = "map (\<lambda>p. eKey (slot_entry p)) ?ps"
  have "concat (map (\<lambda>sh. map (\<lambda>a. eKey (heap sh a)) (filter (\<lambda>a. key_listed now pre (heap sh a)) (slots sh))) (shards s)) = ?all"
    unfolding store_slots_def by (simp add: filter_concat map_concat comp_def filter_map)
  then have ks: "ks = take n ?all"
    by (simp add: ks_def n_def store_Keys_def keys_shards_take)
  have d: "distinct ?all"
    using store_slots_keys_distinct [OF assms(1)] by (simp add: distinct_map inj_on_def)
  have set: "set ?all = {k. live now (store_abs s) k \<noteq> None \<and> (\<exists>r. k = pre @ r)}"
  proof (intro equalityI subsetI)
    fix k assume "k \<in> set ?all"
    then obtain p where "p \<in> set (store_slots s)" "key_listed now pre (slot_entry p)" "k = eKey (slot_entry p)" by auto
    then show "k \<in> {k. live now (store_abs s) k \<noteq> None \<and> (\<exists>r. k = pre @ r)}"
      using store_slots_lookup [OF assms(1)] by (auto simp: live_def key_listed_def entry_Expired_def hasPrefix_iff)
  next
    fix k assume "k \<in> {k. live now (store_abs s) k \<noteq> None \<and> (\<exists>r. k = pre @ r)}"
    then obtain v x where k: "store_abs s k = Some (v, x)" "\<not> expired_at x now" "hasPrefix k pre"
      by (auto simp: live_def hasPrefix_iff split: option.splits if_splits)
    obtain p where p: "p \<in> set (store_slots s)" "eKey (slot_entry p) = k" "eExpireAt (slot_entry p) = x"
      by (rule store_slots_of_key [OF assms(1) k(1)])
    then have "p \<in> set ?ps" using k by (simp add: key_listed_def entry_Expired_def)
    then show "k \<in> set ?all" using p(2) by auto
  qed
  have "set ks \<subseteq> set ?all" unfolding ks by (rule set_take_subset)
  moreover have "length ks < n \<longrightarrow> set ks = set ?all" unfolding ks by auto
  ultimately show ?thesis using d set unfolding ks by (auto dest: in_set_takeD)
qed

theorem store_Keys_correct_witness:
  "store_Keys [107] 0 5 (store_New None \<lparr>oEngine = [], oShards = 4, oSeed = 7, oMaxMemory = 0, oLowWater = 0, oPolicy = [],
      oExactLRU = False, oEvictSampleK = 5, oEvictBatch = 200, oActorQueue = 1\<rparr>) = []"
proof -
  let ?s = "store_New None \<lparr>oEngine = [], oShards = 4, oSeed = 7, oMaxMemory = 0, oLowWater = 0, oPolicy = [],
      oExactLRU = False, oEvictSampleK = 5, oEvictBatch = 200, oActorQueue = 1\<rparr>"
  have w: "wf_store ?s" and e: "store_abs ?s = Map.empty"
    by (rule store_New_spec, simp add: withDefaults_def)+
  from store_Keys_correct [OF w, of "[107]" 0 5] show ?thesis
    by (auto simp: e live_def)
qed

end
