(* ===== verification/Wheel.thy ===== *)
theory Wheel
  imports Prelude "HOL-Library.Multiset"
begin

text \<open>
  \<^verbatim>\<open>internal/store/wheel.go\<close>, the hierarchical timing wheel: five levels of 256 buckets, timers
  cascaded to lower levels as their time comes nearer. Milliseconds are 64-bit words, ticks are
  natural numbers; where the code adds to a tick count that could wrap, the reduction modulo
  \<open>2 ^ 64\<close> is written out. The increment of \<^verbatim>\<open>nowTick\<close> in the loop of \<^verbatim>\<open>Advance\<close> cannot wrap,
  since it stays at or below a 64-bit target.
\<close>

section \<open>The wheel\<close>

abbreviation wheelSlotCount :: nat where "wheelSlotCount \<equiv> 256"
abbreviation wheelLevels :: nat where "wheelLevels \<equiv> 5"

record wheelTimer =
  tKey :: bytes
  tExpireAt :: u64

record Wheel =
  tickMs :: nat
  epochMs :: nat
  nowTick :: nat
  levels :: "nat \<Rightarrow> nat \<Rightarrow> wheelTimer list"
  pending :: int
  overflow :: "wheelTimer list"

text \<open>\<open>tick\<close> is a duration in nanoseconds.\<close>

definition NewWheel :: "nat \<Rightarrow> u64 \<Rightarrow> Wheel" where
  "NewWheel tick epoch =
     (let t = tick div 1000000
      in \<lparr>tickMs = (if t = 0 then 1 else t), epochMs = unat epoch, nowTick = 0,
          levels = (\<lambda>_ _. []), pending = 0, overflow = []\<rparr>)"

definition tickFor :: "Wheel \<Rightarrow> u64 \<Rightarrow> nat" where
  "tickFor w ms = (if unat ms \<le> epochMs w then 0 else (unat ms - epochMs w) div tickMs w)"

definition put_slot :: "nat \<Rightarrow> nat \<Rightarrow> wheelTimer list \<Rightarrow> Wheel \<Rightarrow> Wheel" where
  "put_slot level slot ts w = w\<lparr>levels := (levels w)(level := (levels w level)(slot := ts))\<rparr>"

text \<open>The loop over the levels, \<open>n\<close> of them left.\<close>

fun place :: "nat \<Rightarrow> nat \<Rightarrow> nat \<Rightarrow> nat \<Rightarrow> wheelTimer \<Rightarrow> Wheel \<Rightarrow> Wheel" where
  "place 0 level target delta t w = w\<lparr>overflow := overflow w @ [t]\<rparr>"
| "place (Suc n) level target delta t w =
     (if delta < 2 ^ ((level + 1) * 8)
      then let slot = (target div 2 ^ (level * 8)) mod wheelSlotCount
           in put_slot level slot (levels w level slot @ [t]) w
      else place n (level + 1) target delta t w)"

definition addLocked :: "wheelTimer \<Rightarrow> Wheel \<Rightarrow> Wheel" where
  "addLocked t w =
     (let target = tickFor w (tExpireAt t);
          target = (if target \<le> nowTick w then (nowTick w + 1) mod 2 ^ 64 else target);
          delta = (target + 2 ^ 64 - nowTick w) mod 2 ^ 64
      in place wheelLevels 0 target delta t w)"

definition wheel_Add :: "bytes \<Rightarrow> u64 \<Rightarrow> Wheel \<Rightarrow> Wheel" where
  "wheel_Add key expireAt w =
     (let w = addLocked \<lparr>tKey = key, tExpireAt = expireAt\<rparr> w in w\<lparr>pending := pending w + 1\<rparr>)"

text \<open>The cascade at a new tick, \<open>n\<close> levels left.\<close>

fun cascade :: "nat \<Rightarrow> nat \<Rightarrow> Wheel \<Rightarrow> Wheel" where
  "cascade 0 level w = w"
| "cascade (Suc n) level w =
     (if nowTick w mod 2 ^ (level * 8) \<noteq> 0 then w
      else let slot = (nowTick w div 2 ^ (level * 8)) mod wheelSlotCount;
               bucket = levels w level slot
           in if bucket = [] then cascade n (level + 1) w
              else cascade n (level + 1) (fold addLocked bucket (put_slot level slot [] w)))"

definition wheel_tick :: "Wheel \<Rightarrow> wheelTimer list \<times> Wheel" where
  "wheel_tick w =
     (let w = cascade (wheelLevels - 1) 1 (w\<lparr>nowTick := nowTick w + 1\<rparr>);
          slot = nowTick w mod wheelSlotCount;
          bucket = levels w 0 slot
      in if bucket = [] then ([], w) else (bucket, put_slot 0 slot [] w))"

text \<open>The loop of \<^verbatim>\<open>Advance\<close>, \<open>n\<close> ticks left to the target.\<close>

fun wheel_ticks :: "nat \<Rightarrow> wheelTimer list \<Rightarrow> Wheel \<Rightarrow> wheelTimer list \<times> Wheel" where
  "wheel_ticks 0 due w = (due, w)"
| "wheel_ticks (Suc n) due w = (let (bucket, w) = wheel_tick w in wheel_ticks n (due @ bucket) w)"

fun sweep_overflow :: "wheelTimer list \<Rightarrow> wheelTimer list \<Rightarrow> Wheel \<Rightarrow> Wheel" where
  "sweep_overflow [] keep w = w\<lparr>overflow := keep\<rparr>"
| "sweep_overflow (t # ts) keep w =
     (if tickFor w (tExpireAt t) < (nowTick w + 2 ^ (wheelLevels * 8)) mod 2 ^ 64
      then sweep_overflow ts keep (addLocked t w)
      else sweep_overflow ts (keep @ [t]) w)"

definition Advance :: "u64 \<Rightarrow> Wheel \<Rightarrow> wheelTimer list \<times> Wheel" where
  "Advance nowMs w =
     (let target = tickFor w nowMs;
          (due, w) = wheel_ticks (target - nowTick w) [] w;
          w = (if overflow w = [] then w else sweep_overflow (overflow w) [] w)
      in (due, w\<lparr>pending := pending w - int (length due)\<rparr>))"

section \<open>Invariant\<close>

text \<open>
  A timer at level \<open>l > 0\<close> sits in the bucket of its own tick at that level's granularity, at most one
  revolution ahead. A timer at level 0 fires at the tick its bucket stands for: its own, or, if that
  was not in the future when it was placed, the next one.
\<close>

abbreviation due_tick :: "Wheel \<Rightarrow> wheelTimer \<Rightarrow> nat" where
  "due_tick w t \<equiv> tickFor w (tExpireAt t)"

definition level0_ok :: "Wheel \<Rightarrow> nat \<Rightarrow> wheelTimer \<Rightarrow> bool" where
  "level0_ok w slot t \<longleftrightarrow> (\<exists>f. nowTick w < f \<and> f < nowTick w + 256 \<and> f mod 256 = slot
     \<and> (due_tick w t = f \<or> due_tick w t < f \<and> f = nowTick w + 1))"

definition level_ok :: "Wheel \<Rightarrow> nat \<Rightarrow> nat \<Rightarrow> wheelTimer \<Rightarrow> bool" where
  "level_ok w l slot t \<longleftrightarrow> (let n = nowTick w div 2 ^ (l * 8); d = due_tick w t div 2 ^ (l * 8) in
     n < d \<and> d \<le> n + 256 \<and> d mod 256 = slot)"

definition wf_levels :: "Wheel \<Rightarrow> bool" where
  "wf_levels w \<longleftrightarrow> (\<forall>slot. \<forall>t \<in> set (levels w 0 slot). level0_ok w slot t)
     \<and> (\<forall>l slot. 0 < l \<longrightarrow> l < 5 \<longrightarrow> (\<forall>t \<in> set (levels w l slot). level_ok w l slot t))"

definition wf_overflow :: "nat \<Rightarrow> Wheel \<Rightarrow> bool" where
  "wf_overflow b w \<longleftrightarrow> (\<forall>t \<in> set (overflow w). b \<le> due_tick w t)"

definition wf_clock :: "Wheel \<Rightarrow> bool" where
  "wf_clock w \<longleftrightarrow> 0 < tickMs w \<and> nowTick w + 2 ^ 40 + 1 < 2 ^ 64"

definition wf_wheel :: "Wheel \<Rightarrow> bool" where
  "wf_wheel w \<longleftrightarrow> wf_clock w \<and> wf_levels w \<and> wf_overflow (nowTick w + 2 ^ 40) w"

text \<open>The timers held by the wheel.\<close>

definition wheel_mset :: "Wheel \<Rightarrow> wheelTimer multiset" where
  "wheel_mset w = (\<Sum>l<5. \<Sum>slot<256. mset (levels w l slot)) + mset (overflow w)"

definition scheduled :: "Wheel \<Rightarrow> wheelTimer set" where
  "scheduled w = (\<Union>l<5. \<Union>slot<256. set (levels w l slot))"

section \<open>Lemmas\<close>

subsection \<open>What each step leaves alone\<close>

lemma put_slot_frame [simp]:
  "tickMs (put_slot l i ts w) = tickMs w" "epochMs (put_slot l i ts w) = epochMs w" "nowTick (put_slot l i ts w) = nowTick w"
  "overflow (put_slot l i ts w) = overflow w" "pending (put_slot l i ts w) = pending w"
  "tickFor (put_slot l i ts w) = tickFor w"
  by (auto simp: put_slot_def tickFor_def)

lemma put_slot_levels: "levels (put_slot l i ts w) l' i' = (if l' = l \<and> i' = i then ts else levels w l' i')"
  by (simp add: put_slot_def)

lemma wheel_upd_frame [simp]:
  "tickFor (w\<lparr>overflow := x\<rparr>) = tickFor w" "tickFor (w\<lparr>pending := y\<rparr>) = tickFor w" "tickFor (w\<lparr>nowTick := z\<rparr>) = tickFor w"
  by (auto simp: tickFor_def)

lemma place_frame [simp]:
  "tickMs (place n l tg d t w) = tickMs w" "epochMs (place n l tg d t w) = epochMs w" "nowTick (place n l tg d t w) = nowTick w"
  "pending (place n l tg d t w) = pending w" "tickFor (place n l tg d t w) = tickFor w"
  by (induction n l tg d t w rule: place.induct) (simp_all add: Let_def)

lemma addLocked_frame [simp]:
  "tickMs (addLocked t w) = tickMs w" "epochMs (addLocked t w) = epochMs w" "nowTick (addLocked t w) = nowTick w"
  "pending (addLocked t w) = pending w" "tickFor (addLocked t w) = tickFor w"
  by (simp_all add: addLocked_def Let_def)

lemma fold_addLocked_frame [simp]:
  "tickMs (fold addLocked ts w) = tickMs w" "nowTick (fold addLocked ts w) = nowTick w"
  "pending (fold addLocked ts w) = pending w" "tickFor (fold addLocked ts w) = tickFor w"
  by (induction ts arbitrary: w) simp_all

lemma cascade_frame [simp]:
  "tickMs (cascade n l w) = tickMs w" "nowTick (cascade n l w) = nowTick w" "pending (cascade n l w) = pending w"
  "tickFor (cascade n l w) = tickFor w"
  by (induction n l w rule: cascade.induct) (simp_all add: Let_def)

lemma wheel_tick_frame [simp]:
  "tickMs (snd (wheel_tick w)) = tickMs w" "nowTick (snd (wheel_tick w)) = nowTick w + 1"
  "pending (snd (wheel_tick w)) = pending w" "tickFor (snd (wheel_tick w)) = tickFor w"
  by (simp_all add: wheel_tick_def Let_def)

subsection \<open>No timer is lost or duplicated\<close>

lemma wheel_mset_put_slot:
  assumes "l < 5" "i < 256"
  shows "wheel_mset (put_slot l i ts w) + mset (levels w l i) = wheel_mset w + mset ts"
proof -
  let ?f = "\<lambda>w l. \<Sum>slot<256. mset (levels w l slot)"
  have in1: "?f (put_slot l i ts w) l + mset (levels w l i) = ?f w l + mset ts"
    using assms(2) by (simp add: sum.remove [of "{..<256}" i] put_slot_levels)
  have out: "(\<Sum>l'<5. ?f v l') = ?f v l + (\<Sum>l' \<in> {..<5} - {l}. ?f v l')" for v
    using assms(1) by (intro sum.remove) auto
  have "(\<Sum>l' \<in> {..<5} - {l}. ?f (put_slot l i ts w) l') = (\<Sum>l' \<in> {..<5} - {l}. ?f w l')"
    by (intro sum.cong) (auto simp: put_slot_levels)
  then show ?thesis unfolding wheel_mset_def out using in1 by (simp add: ac_simps)
qed

lemma place_mset: "l + n = 5 \<Longrightarrow> wheel_mset (place n l tg d t w) = wheel_mset w + {#t#}"
proof (induction n l tg d t w rule: place.induct)
  case (1 l tg d t w)
  then show ?case by (simp add: wheel_mset_def)
next
  case (2 n l tg d t w)
  let ?i = "tg div 2 ^ (l * 8) mod 256"
  have "wheel_mset (put_slot l ?i (levels w l ?i @ [t]) w) + mset (levels w l ?i) = wheel_mset w + mset (levels w l ?i @ [t])"
    using 2(2) by (intro wheel_mset_put_slot) auto
  then have "wheel_mset (put_slot l ?i (levels w l ?i @ [t]) w) = wheel_mset w + {#t#}" by simp
  then show ?case using 2 by (simp add: Let_def)
qed

lemma addLocked_mset: "wheel_mset (addLocked t w) = wheel_mset w + {#t#}"
  by (simp add: addLocked_def Let_def place_mset)

lemma fold_addLocked_mset: "wheel_mset (fold addLocked ts w) = wheel_mset w + mset ts"
  by (induction ts arbitrary: w) (simp_all add: addLocked_mset)

lemma cascade_mset: "l + n = 5 \<Longrightarrow> wheel_mset (cascade n l w) = wheel_mset w"
proof (induction n l w rule: cascade.induct)
  case (2 n l w)
  let ?i = "nowTick w div 2 ^ (l * 8) mod 256"
  have "wheel_mset (put_slot l ?i [] w) + mset (levels w l ?i) = wheel_mset w"
    using wheel_mset_put_slot [of l ?i "[]" w] 2(3) by simp
  then show ?case using 2 by (auto simp: Let_def fold_addLocked_mset)
qed simp

lemma wheel_tick_eq:
  "wheel_tick w =
     (let c = cascade 4 1 (w\<lparr>nowTick := nowTick w + 1\<rparr>); i = nowTick c mod 256
      in if levels c 0 i = [] then ([], c) else (levels c 0 i, put_slot 0 i [] c))"
  by (simp add: wheel_tick_def Let_def)

lemma wheel_tick_mset: "mset (fst (wheel_tick w)) + wheel_mset (snd (wheel_tick w)) = wheel_mset w"
proof -
  define c where "c = cascade 4 1 (w\<lparr>nowTick := nowTick w + 1\<rparr>)"
  have c: "wheel_mset c = wheel_mset w"
    using cascade_mset [of 1 4 "w\<lparr>nowTick := nowTick w + 1\<rparr>"] by (simp add: wheel_mset_def c_def)
  have "mset (levels c 0 i) + wheel_mset (put_slot 0 i [] c) = wheel_mset w" if "i < 256" for i
    using wheel_mset_put_slot [of 0 i "[]" c] that by (simp add: c add.commute)
  then show ?thesis unfolding wheel_tick_eq c_def [symmetric] Let_def by (simp add: c)
qed

lemma wheel_ticks_mset:
  "wheel_ticks n due w = (due', w') \<Longrightarrow> mset due' + wheel_mset w' = mset due + wheel_mset w"
proof (induction n arbitrary: due w)
  case (Suc n)
  obtain b u where "wheel_tick w = (b, u)" by force
  then show ?case using Suc wheel_tick_mset [of w] by (auto simp: ac_simps)
qed simp

subsection \<open>Where a timer is placed\<close>

text \<open>The level and bucket of a timer due at tick \<open>target\<close>, \<open>delta\<close> ticks ahead; level 5 is the overflow list.\<close>

fun place_level :: "nat \<Rightarrow> nat \<Rightarrow> nat \<Rightarrow> nat" where
  "place_level 0 l d = l"
| "place_level (Suc n) l d = (if d < 2 ^ ((l + 1) * 8) then l else place_level n (l + 1) d)"

lemma place_level_le: "l \<le> place_level n l d \<and> place_level n l d \<le> l + n"
proof (induction n arbitrary: l)
  case (Suc n)
  have "Suc l \<le> place_level n (Suc l) d \<and> place_level n (Suc l) d \<le> Suc l + n" by (rule Suc)
  then show ?case by auto
qed simp

lemma place_eq:
  "place n l tg d t w =
     (let k = place_level n l d; i = tg div 2 ^ (k * 8) mod 256
      in if k < l + n then put_slot k i (levels w k i @ [t]) w else w\<lparr>overflow := overflow w @ [t]\<rparr>)"
proof (induction n l tg d t w rule: place.induct)
  case (2 n l tg d t w)
  then show ?case using place_level_le [of "Suc l" n d] by (simp add: Let_def)
qed simp

lemma place_level_bounds:
  "(l = 0 \<longrightarrow> 0 < d) \<Longrightarrow> 2 ^ (l * 8) \<le> d \<or> l = 0 \<Longrightarrow>
   (place_level n l d < l + n \<longrightarrow> d < 2 ^ ((place_level n l d + 1) * 8)) \<and>
   (place_level n l d \<noteq> 0 \<longrightarrow> 2 ^ (place_level n l d * 8) \<le> d)"
  by (induction n arbitrary: l) (auto simp: not_less)

lemma tickFor_less: "tickFor w ms < 2 ^ 64"
proof -
  have "tickFor w ms \<le> unat ms" unfolding tickFor_def by (auto intro: order_trans [OF div_le_dividend])
  then show ?thesis using unsigned_less [where 'a = nat, of ms] by simp
qed

lemma addLocked_eq:
  fixes t :: wheelTimer
  assumes "wf_clock w"
  defines "tg \<equiv> (if due_tick w t \<le> nowTick w then nowTick w + 1 else due_tick w t)"
  shows "addLocked t w = place 5 0 tg (tg - nowTick w) t w"
proof -
  have "tg < 2 ^ 64" "nowTick w < tg" using assms tickFor_less [of w "tExpireAt t"] by (auto simp: tg_def wf_clock_def)
  then have d: "(tg + 2 ^ 64 - nowTick w) mod 2 ^ 64 = tg - nowTick w"
    using mod_add_self2 [of "tg - nowTick w" "2 ^ 64"] by simp
  have "(nowTick w + 1) mod 2 ^ 64 = nowTick w + 1" using assms(1) by (simp add: wf_clock_def)
  then have "addLocked t w = place 5 0 tg ((tg + 2 ^ 64 - nowTick w) mod 2 ^ 64) t w"
    unfolding addLocked_def tg_def Let_def by simp
  then show ?thesis unfolding d .
qed

lemma div_step_bounds:
  fixes a b q :: nat
  assumes "a + q \<le> b" "b < a + 256 * q" "0 < q"
  shows "a div q < b div q" "b div q \<le> a div q + 256"
proof -
  have "(a + q) div q \<le> b div q" using assms(1) by (rule div_le_mono)
  moreover have "(a + q) div q = a div q + 1" using div_add_self2 [of q a] assms(3) by linarith
  ultimately show "a div q < b div q" by linarith
  have "b div q \<le> (a + 256 * q) div q" using assms(2) by (intro div_le_mono) simp
  moreover have "(a + 256 * q) div q = a div q + 256" using div_mult_self1 [of q a 256] assms(3) by (simp add: mult.commute)
  ultimately show "b div q \<le> a div q + 256" by linarith
qed

lemma mod_slot_neq:
  fixes a b :: nat
  assumes "a < b" "b < a + 256"
  shows "b mod 256 \<noteq> a mod 256"
proof
  assume "b mod 256 = a mod 256"
  then have "256 dvd b - a" using assms(1) by (simp add: mod_eq_dvd_iff_nat)
  then have "256 \<le> b - a" using assms(1) by (intro dvd_imp_le) auto
  then show False using assms by simp
qed

lemma addLocked_cases:
  assumes "wf_clock w"
  obtains (level0) i where "addLocked t w = put_slot 0 i (levels w 0 i @ [t]) w" "level0_ok w i t" "i \<noteq> nowTick w mod 256"
      "due_tick w t < nowTick w + 2 ^ 40"
  | (level) k i where "0 < k" "k < 5" "addLocked t w = put_slot k i (levels w k i @ [t]) w" "level_ok w k i t"
      "nowTick w + 2 ^ (k * 8) \<le> due_tick w t" "due_tick w t < nowTick w + 2 ^ 40"
  | (overflow) "addLocked t w = w\<lparr>overflow := overflow w @ [t]\<rparr>" "nowTick w + 2 ^ 40 \<le> due_tick w t"
proof -
  let ?n = "nowTick w"
  define tg where "tg = (if due_tick w t \<le> ?n then ?n + 1 else due_tick w t)"
  define k where "k = place_level 5 0 (tg - ?n)"
  have tg: "?n < tg" by (simp add: tg_def)
  note add = addLocked_eq [OF assms(1), of t, folded tg_def, unfolded place_eq Let_def, folded k_def]
  have b: "k < 5 \<longrightarrow> tg - ?n < 2 ^ ((k + 1) * 8)" "k \<noteq> 0 \<longrightarrow> 2 ^ (k * 8) \<le> tg - ?n"
    using place_level_bounds [of 0 "tg - ?n" 5] tg by (auto simp: k_def)
  have k5: "k \<le> 5" using place_level_le [of 0 5] by (simp add: k_def)
  have far: "tg = due_tick w t" if "k \<noteq> 0"
  proof (rule ccontr)
    assume "tg \<noteq> due_tick w t"
    then have "tg - ?n = 1" by (auto simp: tg_def split: if_splits)
    moreover have "(2::nat) ^ 8 \<le> 2 ^ (k * 8)" using that by (intro power_increasing) auto
    ultimately show False using b(2) that by simp
  qed
  consider "k = 0" | "0 < k" "k < 5" | "k = 5" using k5 by linarith
  then show ?thesis
  proof cases
    case 1
    have d: "tg < ?n + 256" using b(1) 1 by simp
    have "level0_ok w (tg mod 256) t"
      unfolding level0_ok_def using d tg by (intro exI [of _ tg]) (auto simp: tg_def)
    moreover have "tg mod 256 \<noteq> ?n mod 256" using d tg by (intro mod_slot_neq) auto
    ultimately show ?thesis using level0 [of "tg mod 256"] add 1 d by (simp add: tg_def split: if_splits)
  next
    case 2
    have lo: "?n + 2 ^ (k * 8) \<le> tg" and hi: "tg < ?n + 256 * 2 ^ (k * 8)" using b 2 tg by (auto simp: power_add)
    have "level_ok w k (tg div 2 ^ (k * 8) mod 256) t"
      using div_step_bounds [OF lo hi] far 2(1) by (simp add: level_ok_def Let_def)
    moreover have "(2::nat) ^ ((k + 1) * 8) \<le> 2 ^ 40" using 2 by (intro power_increasing) auto
    then have "tg < ?n + 2 ^ 40" using b(1) 2(2) tg by linarith
    ultimately show ?thesis using level [of k "tg div 2 ^ (k * 8) mod 256"] add 2 lo far by simp
  next
    case 3
    then show ?thesis using overflow add far b(2) by simp
  qed
qed

subsection \<open>The invariant during a tick\<close>

text \<open>
  Between the increment of the clock and the end of the cascade, the levels from \<open>l\<close> on still have the
  timers of the bucket that has just come up, and the level-0 bucket of the current tick is about to
  fire.
\<close>

definition level0_mid :: "Wheel \<Rightarrow> nat \<Rightarrow> wheelTimer \<Rightarrow> bool" where
  "level0_mid w slot t \<longleftrightarrow>
     (if slot = nowTick w mod 256 then due_tick w t \<le> nowTick w else level0_ok w slot t \<and> nowTick w \<le> due_tick w t)"

definition level_mid :: "Wheel \<Rightarrow> nat \<Rightarrow> nat \<Rightarrow> wheelTimer \<Rightarrow> bool" where
  "level_mid w l slot t \<longleftrightarrow> (let n = nowTick w div 2 ^ (l * 8); d = due_tick w t div 2 ^ (l * 8) in
     if nowTick w mod 2 ^ (l * 8) = 0 then n \<le> d \<and> d < n + 256 \<and> d mod 256 = slot else level_ok w l slot t)"

definition wf_mid :: "nat \<Rightarrow> Wheel \<Rightarrow> bool" where
  "wf_mid L w \<longleftrightarrow> (\<forall>slot. \<forall>t \<in> set (levels w 0 slot). level0_mid w slot t)
     \<and> (\<forall>l slot. 0 < l \<longrightarrow> l < 5 \<longrightarrow> (\<forall>t \<in> set (levels w l slot). if l < L then level_ok w l slot t else level_mid w l slot t))"

lemma ok_put_slot [simp]:
  "level0_ok (put_slot k i ts w) = level0_ok w" "level_ok (put_slot k i ts w) = level_ok w"
  "level0_mid (put_slot k i ts w) = level0_mid w" "level_mid (put_slot k i ts w) = level_mid w"
  "wf_clock (put_slot k i ts w) = wf_clock w" "wf_overflow b (put_slot k i ts w) = wf_overflow b w"
  by (auto simp: fun_eq_iff level0_ok_def level_ok_def level0_mid_def level_mid_def wf_clock_def wf_overflow_def)

lemma ok_overflow [simp]:
  "level0_ok (w\<lparr>overflow := x\<rparr>) = level0_ok w" "level_ok (w\<lparr>overflow := x\<rparr>) = level_ok w"
  "level0_mid (w\<lparr>overflow := x\<rparr>) = level0_mid w" "level_mid (w\<lparr>overflow := x\<rparr>) = level_mid w"
  "wf_clock (w\<lparr>overflow := x\<rparr>) = wf_clock w" "wf_levels (w\<lparr>overflow := x\<rparr>) = wf_levels w"
  by (auto simp: fun_eq_iff level0_ok_def level_ok_def level0_mid_def level_mid_def wf_clock_def wf_levels_def)

lemma wf_clock_addLocked [simp]: "wf_clock (addLocked t w) = wf_clock w"
  by (simp add: wf_clock_def)

lemma addLocked_wf_levels:
  assumes "wf_clock w" "wf_levels w"
  shows "wf_levels (addLocked t w)"
  using assms(1)
proof (cases rule: addLocked_cases [where t = t])
  case level0
  then show ?thesis using assms(2) by (auto simp: wf_levels_def put_slot_levels)
next
  case level
  then show ?thesis using assms(2) by (auto simp: wf_levels_def put_slot_levels)
next
  case overflow
  then show ?thesis using assms(2) by simp
qed

lemma addLocked_wf_mid:
  assumes "wf_clock w" "wf_mid L w" "nowTick w \<le> due_tick w t" "due_tick w t < nowTick w + 2 ^ (l * 8)" "l < L" "l < 5"
  shows "wf_mid L (addLocked t w)" "overflow (addLocked t w) = overflow w"
proof -
  have "wf_mid L (addLocked t w) \<and> overflow (addLocked t w) = overflow w"
    using assms(1)
  proof (cases rule: addLocked_cases [where t = t])
    case (level0 i)
    have "level0_mid w i t" using level0 assms(3) by (simp add: level0_mid_def)
    then show ?thesis using level0 assms(2) by (auto simp: wf_mid_def put_slot_levels)
  next
    case (level k i)
    have "(2::nat) ^ (k * 8) < 2 ^ (l * 8)" using level(5) assms(4) by linarith
    then have "k < L" using assms(5) by (simp add: power_strict_increasing_iff)
    then show ?thesis using level assms(2) by (auto simp: wf_mid_def put_slot_levels)
  next
    case overflow
    have "(2::nat) ^ (l * 8) \<le> 2 ^ 40" using assms(6) by (intro power_increasing) auto
    then show ?thesis using overflow assms(4) by simp
  qed
  then show "wf_mid L (addLocked t w)" "overflow (addLocked t w) = overflow w" by auto
qed

lemma fold_addLocked_wf_mid:
  assumes "wf_clock w" "wf_mid L w" "l < L" "l < 5"
    and "\<forall>t \<in> set ts. nowTick w \<le> due_tick w t \<and> due_tick w t < nowTick w + 2 ^ (l * 8)"
  shows "wf_mid L (fold addLocked ts w) \<and> overflow (fold addLocked ts w) = overflow w"
  using assms
proof (induction ts arbitrary: w)
  case (Cons t ts)
  note a = addLocked_wf_mid [OF Cons(2,3) _ _ Cons(4,5), of t]
  show ?case using a Cons(1) [of "addLocked t w"] Cons(2-) by auto
qed auto

lemma wf_midD:
  assumes "wf_mid L w" "0 < l" "l < 5" "t \<in> set (levels w l slot)"
  shows "if l < L then level_ok w l slot t else level_mid w l slot t"
  using assms by (simp add: wf_mid_def)

lemma cascade_bucket:
  assumes "wf_mid l w" "0 < l" "l < 5" "nowTick w mod 2 ^ (l * 8) = 0"
  defines "i \<equiv> nowTick w div 2 ^ (l * 8) mod 256"
  shows "\<forall>t \<in> set (levels w l i). nowTick w \<le> due_tick w t \<and> due_tick w t < nowTick w + 2 ^ (l * 8)"
    and "\<forall>slot. slot \<noteq> i \<longrightarrow> (\<forall>t \<in> set (levels w l slot). level_ok w l slot t)"
proof -
  let ?q = "2 ^ (l * 8) :: nat"
  define n where "n = nowTick w div ?q"
  have now: "nowTick w = n * ?q" using assms(4) by (auto simp: n_def)
  have m: "n \<le> due_tick w t div ?q \<and> due_tick w t div ?q < n + 256 \<and> due_tick w t div ?q mod 256 = slot"
    if "t \<in> set (levels w l slot)" for t slot
    using wf_midD [OF assms(1-3) that] assms(4) by (simp add: level_mid_def Let_def n_def)
  show "\<forall>t \<in> set (levels w l i). nowTick w \<le> due_tick w t \<and> due_tick w t < nowTick w + ?q"
  proof
    fix t assume t: "t \<in> set (levels w l i)"
    have "due_tick w t div ?q = n"
      using m [OF t] mod_slot_neq [of n "due_tick w t div ?q"] by (auto simp: i_def n_def [symmetric] le_less)
    then have "due_tick w t = n * ?q + due_tick w t mod ?q" using div_mult_mod_eq [of "due_tick w t" ?q] by simp
    moreover have "due_tick w t mod ?q < ?q" by (intro mod_less_divisor) simp
    ultimately show "nowTick w \<le> due_tick w t \<and> due_tick w t < nowTick w + ?q" unfolding now by linarith
  qed
  show "\<forall>slot. slot \<noteq> i \<longrightarrow> (\<forall>t \<in> set (levels w l slot). level_ok w l slot t)"
  proof (intro allI impI ballI)
    fix slot t assume "slot \<noteq> i" and t: "t \<in> set (levels w l slot)"
    then have "due_tick w t div ?q \<noteq> n" using m [OF t] by (auto simp: i_def n_def)
    then show "level_ok w l slot t" using m [OF t] by (auto simp: level_ok_def Let_def n_def)
  qed
qed

lemma wf_mid_step:
  assumes "wf_mid l w" "0 < l" "l < 5" "\<forall>slot. \<forall>t \<in> set (levels w l slot). level_ok w l slot t"
  shows "wf_mid (Suc l) w"
  unfolding wf_mid_def
proof (intro conjI allI impI ballI)
  show "level0_mid w slot t" if "t \<in> set (levels w 0 slot)" for slot t using assms(1) that by (simp add: wf_mid_def)
  show "if l' < Suc l then level_ok w l' slot t else level_mid w l' slot t"
    if "0 < l'" "l' < 5" "t \<in> set (levels w l' slot)" for l' slot t
    using wf_midD [OF assms(1) that] that(3) assms(4) by (cases "l' = l") auto
qed

lemma wf_mid_put_slot_Nil: "wf_mid l w \<Longrightarrow> wf_mid l (put_slot k i [] w)"
  by (auto simp: wf_mid_def put_slot_levels)

lemma cascade_wf:
  assumes "l + n = 5" "0 < l" "wf_clock w" "wf_mid l w"
  shows "wf_mid 5 (cascade n l w) \<and> overflow (cascade n l w) = overflow w"
  using assms
proof (induction n l w rule: cascade.induct)
  case (2 n l w)
  let ?i = "nowTick w div 2 ^ (l * 8) mod 256"
  have l: "l < 5" using 2(3) by simp
  show ?case
  proof (cases "nowTick w mod 2 ^ (l * 8) = 0")
    case False
    have nb: "nowTick w mod 2 ^ (l' * 8) \<noteq> 0" if "l \<le> l'" for l'
      using False dvd_trans [OF le_imp_power_dvd [of "l * 8" "l' * 8" "2::nat"]] that by (auto simp: mod_eq_0_iff_dvd)
    have "level_mid w l' = level_ok w l'" if "l \<le> l'" for l'
      unfolding fun_eq_iff level_mid_def Let_def by (simp only: nb [OF that] if_False) simp
    then have "wf_mid 5 w" using 2(6) unfolding wf_mid_def by (metis not_less)
    then show ?thesis using False by simp
  next
    case True
    let ?w = "fold addLocked (levels w l ?i) (put_slot l ?i [] w)"
    note b = cascade_bucket [OF 2(6,4) l True]
    have p: "wf_mid (Suc l) (put_slot l ?i [] w)"
      using b(2) by (intro wf_mid_step wf_mid_put_slot_Nil 2 l) (auto simp: put_slot_levels)
    have f: "wf_mid (Suc l) ?w \<and> overflow ?w = overflow (put_slot l ?i [] w)"
      using b(1) 2(5) l p by (intro fold_addLocked_wf_mid [of _ _ l]) auto
    show ?thesis
    proof (cases "levels w l ?i = []")
      case e: True
      have "put_slot l ?i [] w = w" using e by (simp add: put_slot_def fun_upd_idem)
      then show ?thesis using 2(1) [OF _ refl refl] p e True 2(3-5) by simp
    next
      case e: False
      then show ?thesis using 2(2) [OF _ refl refl e] f True 2(3-5) by (simp add: wf_clock_def Let_def)
    qed
  qed
qed simp

lemma advance_clock_wf_mid:
  assumes "wf_levels w" 
  shows "wf_mid 1 (w\<lparr>nowTick := nowTick w + 1\<rparr>)"
  unfolding wf_mid_def
proof (intro conjI allI impI ballI)
  let ?w = "w\<lparr>nowTick := nowTick w + 1\<rparr>" and ?n = "nowTick w"
  show "level0_mid ?w slot t" if t: "t \<in> set (levels ?w 0 slot)" for slot t
  proof -
    have "level0_ok w slot t" using assms t by (simp add: wf_levels_def)
    then obtain f where f: "?n < f" "f < ?n + 256" "f mod 256 = slot" "due_tick w t = f \<or> due_tick w t < f \<and> f = ?n + 1"
      unfolding level0_ok_def by blast
    show ?thesis
    proof (cases "f = ?n + 1")
      case True
      then show ?thesis using f by (auto simp: level0_mid_def)
    next
      case False
      then show ?thesis using f mod_slot_neq [of "?n + 1" f] by (auto simp: level0_mid_def level0_ok_def intro!: exI [of _ f])
    qed
  qed
  show "if l < 1 then level_ok ?w l slot t else level_mid ?w l slot t"
    if l: "0 < l" "l < 5" and t: "t \<in> set (levels ?w l slot)" for l slot t
  proof -
    have "level_ok w l slot t" using assms l t by (auto simp: wf_levels_def)
    moreover have "Suc ?n div 2 ^ (l * 8) = (if Suc ?n mod 2 ^ (l * 8) = 0 then Suc (?n div 2 ^ (l * 8)) else ?n div 2 ^ (l * 8))"
      by (simp add: div_Suc)
    ultimately show ?thesis using l by (auto simp: level_mid_def level_ok_def Let_def)
  qed
qed

subsection \<open>Ticks\<close>

definition on_time :: "Wheel \<Rightarrow> bool" where
  "on_time w \<longleftrightarrow> (\<forall>t \<in> scheduled w. nowTick w \<le> due_tick w t)"

lemma wf_mid_pop:
  assumes "wf_mid 5 w"
  defines "i \<equiv> nowTick w mod 256"
  shows "\<forall>t \<in> set (levels w 0 i). due_tick w t \<le> nowTick w"
    "wf_levels (put_slot 0 i [] w)" "on_time (put_slot 0 i [] w)"
proof -
  show "\<forall>t \<in> set (levels w 0 i). due_tick w t \<le> nowTick w"
    using assms(1) by (auto simp: wf_mid_def level0_mid_def i_def)
  have ok: "level0_ok w slot t \<and> nowTick w \<le> due_tick w t" if "t \<in> set (levels w 0 slot)" "slot \<noteq> i" for t slot
    using assms(1) that by (auto simp: wf_mid_def level0_mid_def i_def)
  have okl: "level_ok w l slot t" if "t \<in> set (levels w l slot)" "0 < l" "l < 5" for l t slot
    using wf_midD [OF assms(1) that(2,3,1)] that(3) by simp
  show "wf_levels (put_slot 0 i [] w)" using ok okl by (auto simp: wf_levels_def put_slot_levels split: if_splits)
  have "nowTick w \<le> due_tick w t" if "t \<in> set (levels w l slot)" "0 < l" "l < 5" for l t slot
  proof -
    have "nowTick w div 2 ^ (l * 8) < due_tick w t div 2 ^ (l * 8)" using okl [OF that] by (simp add: level_ok_def Let_def)
    then show ?thesis by (metis div_le_mono not_less nat_le_linear)
  qed
  then show "on_time (put_slot 0 i [] w)"
    using ok by (auto simp: on_time_def scheduled_def put_slot_levels split: if_splits) (metis gr0I)
qed

lemma wheel_tick_wf:
  assumes "wf_levels w" "wf_clock (w\<lparr>nowTick := nowTick w + 1\<rparr>)" "wheel_tick w = (due, w')"
  shows "wf_levels w' \<and> wf_clock w' \<and> on_time w' \<and> overflow w' = overflow w \<and> (\<forall>t \<in> set due. due_tick w t \<le> nowTick w')"
proof -
  define c where "c = cascade 4 1 (w\<lparr>nowTick := nowTick w + 1\<rparr>)"
  let ?i = "nowTick c mod 256"
  have c: "wf_mid 5 c" "overflow c = overflow w" "tickFor c = tickFor w" "wf_clock c"
    using cascade_wf [OF _ _ assms(2) advance_clock_wf_mid [OF assms(1)], of 4] assms(2) by (auto simp: c_def wf_clock_def)
  have "put_slot 0 ?i [] c = c" if "levels c 0 ?i = []" using that by (simp add: put_slot_def fun_upd_idem)
  then have "due = levels c 0 ?i \<and> w' = put_slot 0 ?i [] c"
    using assms(3) unfolding wheel_tick_eq c_def [symmetric] Let_def by (auto split: if_splits)
  then show ?thesis using wf_mid_pop [OF c(1)] c by simp
qed

lemma wheel_ticks_wf:
  assumes "wheel_ticks n due w = (due', w')" "wf_levels w" "wf_clock (w\<lparr>nowTick := nowTick w + n\<rparr>)"
    and "\<forall>t \<in> set due. due_tick w t \<le> nowTick w + n"
  shows "wf_levels w' \<and> wf_clock w' \<and> (0 < n \<longrightarrow> on_time w') \<and> overflow w' = overflow w \<and> nowTick w' = nowTick w + n
    \<and> tickFor w' = tickFor w \<and> pending w' = pending w \<and> (\<forall>t \<in> set due'. due_tick w t \<le> nowTick w + n)"
  using assms
proof (induction n arbitrary: due w)
  case (Suc n)
  obtain b u where u: "wheel_tick w = (b, u)" by force
  note fr = wheel_tick_frame [of w, unfolded u snd_conv]
  have t: "wf_levels u \<and> wf_clock u \<and> on_time u \<and> overflow u = overflow w \<and> (\<forall>t \<in> set b. due_tick w t \<le> nowTick u)"
    using Suc(3,4) by (intro wheel_tick_wf u) (auto simp: wf_clock_def)
  have r: "wheel_ticks n (due @ b) u = (due', w')" using Suc(2) u by simp
  have "wf_clock (u\<lparr>nowTick := nowTick u + n\<rparr>)" using Suc(4) fr by (simp add: wf_clock_def)
  moreover have "\<forall>t \<in> set (due @ b). due_tick u t \<le> nowTick u + n" using Suc(5) t fr by fastforce
  ultimately have ih: "wf_levels w' \<and> wf_clock w' \<and> (0 < n \<longrightarrow> on_time w') \<and> overflow w' = overflow u \<and> nowTick w' = nowTick u + n
    \<and> tickFor w' = tickFor u \<and> pending w' = pending u \<and> (\<forall>t \<in> set due'. due_tick u t \<le> nowTick u + n)"
    using Suc(1) [OF r] t by blast
  have "on_time w'"
  proof (cases "n = 0")
    case True
    then have "u = w'" using r by simp
    then show ?thesis using t by blast
  qed (use ih in simp)
  then show ?case using ih t fr by simp
qed (simp add: wf_clock_def)

subsection \<open>The overflow list\<close>

lemma scheduled_put_slot:
  "scheduled (put_slot k i (levels w k i @ [t]) w) \<subseteq> insert t (scheduled w)"
  by (auto simp: scheduled_def put_slot_levels split: if_splits)

lemma addLocked_on_time:
  assumes "wf_clock w" "on_time w" "nowTick w \<le> due_tick w t"
  shows "on_time (addLocked t w)"
proof -
  have "scheduled (addLocked t w) \<subseteq> insert t (scheduled w)"
    using assms(1)
  proof (cases rule: addLocked_cases [where t = t])
    case overflow
    then show ?thesis by (auto simp: scheduled_def)
  qed (use scheduled_put_slot in auto)
  then show ?thesis using assms(2,3) by (auto simp: on_time_def)
qed

lemma addLocked_overflow:
  assumes "wf_clock w"
  shows "overflow (addLocked t w) = (if due_tick w t < nowTick w + 2 ^ 40 then overflow w else overflow w @ [t])"
proof -
  from assms show ?thesis
    by (cases rule: addLocked_cases [where t = t]) auto
qed

lemma sweep_overflow_wf:
  assumes "wf_clock w" "wf_levels w" "\<forall>t \<in> set ts. nowTick w \<le> due_tick w t"
    and "\<forall>t \<in> set keep. nowTick w + 2 ^ 40 \<le> due_tick w t"
  shows "wf_wheel (sweep_overflow ts keep w) \<and> (on_time w \<longrightarrow> on_time (sweep_overflow ts keep w))
    \<and> nowTick (sweep_overflow ts keep w) = nowTick w \<and> pending (sweep_overflow ts keep w) = pending w
    \<and> tickFor (sweep_overflow ts keep w) = tickFor w
    \<and> wheel_mset (sweep_overflow ts keep w) + mset (overflow w) = wheel_mset w + mset ts + mset keep"
  using assms
proof (induction ts keep w rule: sweep_overflow.induct)
  case (1 keep w)
  then show ?case by (auto simp: wf_wheel_def wf_overflow_def on_time_def scheduled_def wheel_mset_def)
next
  case (2 t ts keep w)
  have nw: "(nowTick w + 2 ^ (5 * 8)) mod 2 ^ 64 = nowTick w + 2 ^ 40" using 2(3) by (simp add: wf_clock_def)
  show ?case
  proof (cases "due_tick w t < nowTick w + 2 ^ 40")
    case True
    then show ?thesis
      using 2(1) 2(3-) nw addLocked_wf_levels [OF 2(3,4), of t] addLocked_on_time [OF 2(3), of t]
        addLocked_overflow [OF 2(3), of t] by (simp add: addLocked_mset)
  next
    case False
    then show ?thesis using 2(2) 2(3-) nw by simp
  qed
qed

lemma wf_overflow_set: "wf_overflow b w \<Longrightarrow> t \<in> set (overflow w) \<Longrightarrow> b \<le> due_tick w t"
  by (simp add: wf_overflow_def)

lemma sum_mset_UN: "set_mset (\<Sum>i<(n::nat). f i) = (\<Union>i<n. set_mset (f i))"
  by (induction n) (auto simp: lessThan_Suc)

lemma wheel_set: "set_mset (wheel_mset w) = scheduled w \<union> set (overflow w)"
  unfolding wheel_mset_def scheduled_def by (simp add: sum_mset_UN)

section \<open>Runs of the wheel\<close>

text \<open>
  The wheels a program can hold: a new one, one with a timer added, one advanced. The guard on
  \<^verbatim>\<open>Advance\<close> says that the clock stays \<open>2 ^ 40\<close> ticks below the 64-bit limit and that one call does
  not move it more than \<open>2 ^ 40\<close> ticks, the wheel's horizon.
\<close>

inductive wheel_reach :: "Wheel \<Rightarrow> bool" where
  new: "wheel_reach (NewWheel tick epoch)"
| add: "wheel_reach w \<Longrightarrow> wheel_reach (wheel_Add key expireAt w)"
| advance: "wheel_reach w \<Longrightarrow> tickFor w nowMs \<le> nowTick w + 2 ^ 40 \<Longrightarrow> tickFor w nowMs + 2 ^ 40 + 1 < 2 ^ 64 \<Longrightarrow>
    wheel_reach (snd (Advance nowMs w))"

definition wheel_inv :: "Wheel \<Rightarrow> bool" where
  "wheel_inv w \<longleftrightarrow> wf_wheel w \<and> pending w = int (size (wheel_mset w))"

lemma NewWheel_inv: "wheel_inv (NewWheel tick epoch)"
  by (simp add: wheel_inv_def wf_wheel_def NewWheel_def Let_def wf_clock_def wf_levels_def wf_overflow_def wheel_mset_def)

lemma wf_wheel_pending [simp]: "wf_wheel (w\<lparr>pending := p\<rparr>) = wf_wheel w" "wheel_mset (w\<lparr>pending := p\<rparr>) = wheel_mset w"
  "on_time (w\<lparr>pending := p\<rparr>) = on_time w" "scheduled (w\<lparr>pending := p\<rparr>) = scheduled w"
  by (simp_all add: wf_wheel_def wf_clock_def wf_levels_def wf_overflow_def level0_ok_def level_ok_def wheel_mset_def
      on_time_def scheduled_def)

lemma addLocked_wf:
  assumes "wf_wheel w"
  shows "wf_wheel (addLocked t w)"
  using assms addLocked_wf_levels [of w t] addLocked_overflow [of w t]
  by (auto simp: wf_wheel_def wf_overflow_def)

lemma wheel_Add_inv: "wheel_inv w \<Longrightarrow> wheel_inv (wheel_Add key e w)"
  by (simp add: wheel_inv_def wheel_Add_def Let_def addLocked_wf addLocked_mset)

lemma Advance_lemma:
  assumes "wheel_inv w" "tickFor w nowMs \<le> nowTick w + 2 ^ 40" "tickFor w nowMs + 2 ^ 40 + 1 < 2 ^ 64"
    and "Advance nowMs w = (due, w')"
  shows "wheel_inv w' \<and> mset due + wheel_mset w' = wheel_mset w \<and> tickFor w' = tickFor w
    \<and> nowTick w' = max (nowTick w) (tickFor w nowMs) \<and> (\<forall>t \<in> set due. due_tick w t \<le> tickFor w nowMs)
    \<and> (nowTick w < tickFor w nowMs \<longrightarrow> (\<forall>t \<in># wheel_mset w'. tickFor w nowMs \<le> due_tick w t))"
proof -
  define n where "n = tickFor w nowMs - nowTick w"
  have T: "n = 0 \<or> nowTick w + n = tickFor w nowMs" and wf: "wf_wheel w" and pe: "pending w = int (size (wheel_mset w))"
    using assms(1) by (auto simp: n_def wheel_inv_def)
  obtain d u where u: "wheel_ticks n [] w = (d, u)" by force
  have ub: "wf_levels u \<and> wf_clock u \<and> (0 < n \<longrightarrow> on_time u) \<and> overflow u = overflow w \<and> nowTick u = nowTick w + n
    \<and> tickFor u = tickFor w \<and> pending u = pending w \<and> (\<forall>t \<in> set d. due_tick w t \<le> nowTick w + n)"
    using wf T assms(3) by (intro wheel_ticks_wf [OF u]) (auto simp: wf_wheel_def wf_clock_def)
  define v where "v = (if overflow u = [] then u else sweep_overflow (overflow u) [] u)"
  have "v = sweep_overflow (overflow u) [] u" by (simp add: v_def)
  moreover have "\<forall>t \<in> set (overflow u). nowTick u \<le> due_tick u t"
  proof
    fix t assume "t \<in> set (overflow u)"
    then have "nowTick w + 2 ^ 40 \<le> due_tick w t" using ub wf by (simp add: wf_overflow_set wf_wheel_def)
    then show "nowTick u \<le> due_tick u t" using ub T assms(2) by auto
  qed
  ultimately have vb: "wf_wheel v \<and> (on_time u \<longrightarrow> on_time v) \<and> nowTick v = nowTick u \<and> pending v = pending u
    \<and> tickFor v = tickFor u \<and> wheel_mset v + mset (overflow u) = wheel_mset u + mset (overflow u)"
    using sweep_overflow_wf [of u "overflow u" "[]"] ub by simp
  have r: "due = d" "w' = v\<lparr>pending := pending v - int (length d)\<rparr>"
    using assms(4) u by (auto simp: Advance_def Let_def n_def v_def)
  have m: "mset d + wheel_mset v = wheel_mset w" using wheel_ticks_mset [OF u] vb by simp
  have "size (mset d) + size (wheel_mset v) = size (wheel_mset w)" using arg_cong [OF m, of size] by simp
  then have "wheel_inv w'" using vb ub pe by (simp add: wheel_inv_def r)
  moreover have "\<forall>t \<in> set d. due_tick w t \<le> tickFor w nowMs" 
  proof (cases "n = 0")
    case True
    then show ?thesis using u by simp
  qed (use ub T in auto)
  moreover have "\<forall>t \<in># wheel_mset v. tickFor w nowMs \<le> due_tick w t" if "0 < n"
    unfolding wheel_set using that vb ub T wf_overflow_set [of _ v] by (auto simp: on_time_def wf_wheel_def dest: wf_overflow_set)
  ultimately show ?thesis using r m vb ub T by (auto simp: n_def)
qed

lemma wheel_reach_inv: "wheel_reach w \<Longrightarrow> wheel_inv w"
proof (induction rule: wheel_reach.induct)
  case (advance w nowMs)
  then show ?case using Advance_lemma [of w nowMs "fst (Advance nowMs w)" "snd (Advance nowMs w)"] by simp
qed (simp_all add: NewWheel_inv wheel_Add_inv)

text \<open>
  C31. Advancing any wheel the program can hold to a later tick splits its timers in two and loses
  none: every timer returned has reached its tick, every timer whose tick is before the new one is
  returned, the count of pending timers is the number of timers still held, and the clock stands at
  the new tick.
\<close>

theorem Advance_correct:
  assumes "wheel_reach w" "nowTick w < tickFor w nowMs" "tickFor w nowMs \<le> nowTick w + 2 ^ 40" "tickFor w nowMs + 2 ^ 40 + 1 < 2 ^ 64"
    and "Advance nowMs w = (due, w')"
  shows "wheel_mset w = mset due + wheel_mset w' \<and> nowTick w' = tickFor w nowMs
    \<and> pending w' = int (size (wheel_mset w')) \<and> wheel_reach w'
    \<and> (\<forall>t \<in> set due. tickFor w (tExpireAt t) \<le> tickFor w nowMs)
    \<and> (\<forall>t. t \<in># wheel_mset w \<longrightarrow> tickFor w (tExpireAt t) < tickFor w nowMs \<longrightarrow> t \<in> set due)"
proof -
  have a: "mset due + wheel_mset w' = wheel_mset w" "nowTick w' = tickFor w nowMs" "wheel_inv w'"
    "\<forall>t \<in> set due. due_tick w t \<le> tickFor w nowMs" "\<forall>t \<in># wheel_mset w'. tickFor w nowMs \<le> due_tick w t"
    using Advance_lemma [OF wheel_reach_inv [OF assms(1)] assms(3-5)] assms(2) by auto
  have "wheel_reach w'" using wheel_reach.advance [OF assms(1,3,4)] assms(5) by simp
  moreover have "t \<in> set due" if "t \<in># wheel_mset w" "due_tick w t < tickFor w nowMs" for t
    using that a(5) unfolding a(1) [symmetric] by force
  ultimately show ?thesis using a by (auto simp: wheel_inv_def)
qed

text \<open>Two timers, one of which is due at the third tick; the second starts at level 1.\<close>

definition wheel_sample :: Wheel where
  "wheel_sample = wheel_Add [1] 5000 (wheel_Add [2] 1025 (NewWheel 10000000 1000))"

lemma wheel_sample_reach: "wheel_reach wheel_sample"
  unfolding wheel_sample_def by (intro wheel_reach.intros)

lemma wheel_sample_facts: "nowTick wheel_sample = 0" "tickFor wheel_sample 1030 = 3" "tickFor wheel_sample 1025 = 2"
  by (simp_all add: wheel_sample_def wheel_Add_def Let_def NewWheel_def tickFor_def)

theorem Advance_correct_witness:
  "wheel_mset wheel_sample = mset (fst (Advance 1030 wheel_sample)) + wheel_mset (snd (Advance 1030 wheel_sample))
   \<and> \<lparr>tKey = [2], tExpireAt = 1025\<rparr> \<in> set (fst (Advance 1030 wheel_sample))"
proof -
  have "\<lparr>tKey = [2], tExpireAt = 1025\<rparr> \<in># wheel_mset wheel_sample"
    by (simp add: wheel_sample_def wheel_Add_def addLocked_mset Let_def)
  then show ?thesis
    using Advance_correct [OF wheel_sample_reach, of 1030 "fst (Advance 1030 wheel_sample)" "snd (Advance 1030 wheel_sample)"]
    by (auto simp: wheel_sample_facts)
qed

end
