(* ===== verification/Expiry.thy ===== *)
theory Expiry
  imports Store_Bulk Wheel
begin

text \<open>
  \<^verbatim>\<open>internal/store/expiry.go\<close> (the sampling sweeper) and the second half of
  \<^verbatim>\<open>internal/store/wheel.go\<close> (the expirer that drives a timing wheel against a store). Durations are
  nanoseconds. The readings of the wall clock and of \<^verbatim>\<open>time.Since\<close> are arguments: the \<open>n\<close>-th round of
  a cycle sees the \<open>n\<close>-th reading. Starting and stopping the background goroutines is not modelled.
\<close>

section \<open>The sweeper\<close>

record SweepStats =
  ssRounds :: nat
  ssSampled :: nat
  ssExpired :: nat
  ssDuration :: int
  ssBudgeted :: bool

text \<open>The threshold is the float64 \<open>m / 2 ^ e\<close>.\<close>

record Sweeper =
  swInterval :: int
  swSample :: int
  swThreshold :: "int \<times> nat"
  swBudget :: int
  swCycles :: u64
  swTotalSwept :: u64
  swLast :: "SweepStats option"

definition NewSweeper :: "int \<Rightarrow> int \<Rightarrow> int \<times> nat \<Rightarrow> int \<Rightarrow> Sweeper" where
  "NewSweeper interval sample threshold bdgt =
     (let interval = (if interval \<le> 0 then 100000000 else interval);
          sample = (if sample \<le> 0 then 20 else sample);
          threshold = (if fst threshold \<le> 0 then (1, 2) else threshold);
          bdgt = (if bdgt \<le> 0 then interval div 4 else bdgt)
      in \<lparr>swInterval = interval, swSample = sample, swThreshold = threshold, swBudget = bdgt,
          swCycles = 0, swTotalSwept = 0, swLast = None\<rparr>)"

text \<open>
  \<^verbatim>\<open>float64(a) / float64(b)\<close> for counts below \<open>2 ^ 53\<close>: the mantissa \<open>q\<close> and the exponent \<open>k\<close> of
  the nearest double \<open>q / 2 ^ k\<close>, ties to even.
\<close>

definition float_quot :: "nat \<Rightarrow> nat \<Rightarrow> nat \<times> nat" where
  "float_quot a b =
     (let k = 53 + bit_length b - bit_length a;
          k = (if a * 2 ^ k div b \<ge> 2 ^ 53 then k - 1 else k);
          q = a * 2 ^ k div b; r = 2 * (a * 2 ^ k mod b)
      in (if r > b \<or> r = b \<and> odd q then q + 1 else q, k))"

definition ratio_le :: "nat \<Rightarrow> nat \<Rightarrow> int \<times> nat \<Rightarrow> bool" where
  "ratio_le a b threshold =
     (let (q, k) = float_quot a b; (m, e) = threshold in int q * 2 ^ e \<le> m * 2 ^ k)"

text \<open>The loop on one shard: \<open>None\<close> when the fuel runs out, otherwise whether the budget was exceeded.\<close>

fun sweep_shard :: "nat \<Rightarrow> Sweeper \<Rightarrow> (nat \<Rightarrow> int) \<Rightarrow> (nat \<Rightarrow> u64) \<Rightarrow> nat \<Rightarrow> SweepStats \<Rightarrow> Store \<Rightarrow> (bool \<times> SweepStats \<times> Store) option" where
  "sweep_shard 0 w since clk i st s = None"
| "sweep_shard (Suc fuel) w since clk i st s =
     (if since (ssRounds st) > swBudget w then Some (True, st\<lparr>ssBudgeted := True\<rparr>, s)
      else let ((sampled, gone), s) = withWrite i (sweepLocked (clk (ssRounds st)) (nat (swSample w))) s;
               st = st\<lparr>ssRounds := ssRounds st + 1, ssSampled := ssSampled st + sampled, ssExpired := ssExpired st + gone\<rparr>
           in if sampled = 0 \<or> ratio_le gone sampled (swThreshold w) then Some (False, st, s)
              else sweep_shard fuel w since clk i st s)"

fun sweep_shards :: "nat list \<Rightarrow> Sweeper \<Rightarrow> (nat \<Rightarrow> int) \<Rightarrow> (nat \<Rightarrow> u64) \<Rightarrow> SweepStats \<Rightarrow> Store \<Rightarrow> (SweepStats \<times> Store) option" where
  "sweep_shards [] w since clk st s = Some (st, s)"
| "sweep_shards (i # is) w since clk st s =
     (case sweep_shard (Suc (length (ttlSlots (shards s ! i)))) w since clk i st s of
        None \<Rightarrow> None
      | Some (True, st, s) \<Rightarrow> Some (st, s)
      | Some (False, st, s) \<Rightarrow> sweep_shards is w since clk st s)"

definition RunCycle :: "(nat \<Rightarrow> int) \<Rightarrow> int \<Rightarrow> (nat \<Rightarrow> u64) \<Rightarrow> Sweeper \<Rightarrow> Store \<Rightarrow> (SweepStats \<times> Sweeper \<times> Store) option" where
  "RunCycle since duration clk w s =
     (case sweep_shards [0..<length (shards s)] w since clk
             \<lparr>ssRounds = 0, ssSampled = 0, ssExpired = 0, ssDuration = 0, ssBudgeted = False\<rparr> s of
        None \<Rightarrow> None
      | Some (st, s) \<Rightarrow>
          (let st = st\<lparr>ssDuration := duration\<rparr>
           in Some (st, w\<lparr>swCycles := swCycles w + 1, swTotalSwept := swTotalSwept w + word_of_nat (ssExpired st),
                          swLast := Some st\<rparr>, s)))"

section \<open>The wheel expirer\<close>

record WheelExpirer =
  weWheel :: Wheel
  weTick :: int
  weFired :: u64
  weStale :: u64
  weExpired :: u64

text \<open>
  The store's \<^verbatim>\<open>onTTL\<close> hook is \<^verbatim>\<open>Wheel.Add\<close>: the calls recorded by the store's operations are
  delivered to the wheel in their order.
\<close>

definition deliver_ttl :: "WheelExpirer \<times> Store \<Rightarrow> WheelExpirer \<times> Store" where
  "deliver_ttl = (\<lambda>(w, s). (w\<lparr>weWheel := fold (\<lambda>(k, x). wheel_Add k x) (firedTTL s) (weWheel w)\<rparr>, s\<lparr>firedTTL := []\<rparr>))"

definition NewWheelExpirer :: "Store \<Rightarrow> int \<Rightarrow> u64 \<Rightarrow> u64 \<Rightarrow> WheelExpirer \<times> Store" where
  "NewWheelExpirer s tick nowMs rangeMs =
     (let tick = (if tick \<le> 0 then 10000000 else tick);
          s = SetOnTTL True s;
          wh = store_Range (\<lambda>e wh. (True, if eExpireAt e \<noteq> 0 then wheel_Add (eKey e) (eExpireAt e) wh else wh))
                 rangeMs s (NewWheel (nat tick) nowMs)
      in (\<lparr>weWheel = wh, weTick = tick, weFired = 0, weStale = 0, weExpired = 0\<rparr>, s))"

definition fire_timer :: "wheelTimer \<Rightarrow> u64 \<Rightarrow> shard \<Rightarrow> bool \<times> shard" where
  "fire_timer t nowMs sh = (case map_of (entries sh) (tKey t) of
       None \<Rightarrow> (False, sh)
     | Some e \<Rightarrow> if eExpireAt (heap sh e) \<noteq> tExpireAt t then (False, sh)
                  else if \<not> entry_Expired (heap sh e) nowMs then (False, sh)
                  else (True, expire_remove e sh))"

fun fire_timers :: "wheelTimer list \<Rightarrow> u64 \<Rightarrow> nat \<Rightarrow> WheelExpirer \<Rightarrow> Store \<Rightarrow> nat \<times> WheelExpirer \<times> Store" where
  "fire_timers [] nowMs n w s = (n, w, s)"
| "fire_timers (t # ts) nowMs n w s =
     (let (removed, s) = withWrite (shardFor s (tKey t)) (fire_timer t nowMs) s
      in if removed then fire_timers ts nowMs (n + 1) (w\<lparr>weExpired := weExpired w + 1\<rparr>) s
         else fire_timers ts nowMs n (w\<lparr>weStale := weStale w + 1\<rparr>) s)"

definition RunOnce :: "u64 \<Rightarrow> WheelExpirer \<Rightarrow> Store \<Rightarrow> nat \<times> WheelExpirer \<times> Store" where
  "RunOnce nowMs w s =
     (let (due, wh) = Advance nowMs (weWheel w);
          w = w\<lparr>weWheel := wh\<rparr>
      in if due = [] then (0, w, s)
         else fire_timers due nowMs 0 (w\<lparr>weFired := weFired w + word_of_nat (length due)\<rparr>) s)"

text \<open>The loop that \<^verbatim>\<open>Start\<close> runs on a ticker; the list has the readings of the clock, one for each run.\<close>

fun run_expirer :: "u64 list \<Rightarrow> WheelExpirer \<Rightarrow> Store \<Rightarrow> WheelExpirer \<times> Store" where
  "run_expirer [] w s = (w, s)"
| "run_expirer (now # ts) w s = (let (_, w, s) = RunOnce now w s in run_expirer ts w s)"

section \<open>Removing expired entries\<close>

text \<open>\<open>t\<close> is \<open>s\<close> without the keys \<open>K\<close>, each of which had passed its deadline at time \<open>now\<close>.\<close>

definition store_expires :: "u64 \<Rightarrow> bytes set \<Rightarrow> Store \<Rightarrow> Store \<Rightarrow> bool" where
  "store_expires now K s t \<longleftrightarrow> wf_store t \<and> shardFor t = shardFor s \<and> length (shards t) = length (shards s)
     \<and> store_abs t = store_abs s |` (- K) \<and> (\<forall>k \<in> K. \<exists>v x. store_abs s k = Some (v, x) \<and> expired_at x now)"

lemma store_expires_refl: "wf_store s \<Longrightarrow> store_expires now {} s s"
  by (simp add: store_expires_def)

lemma store_expires_trans:
  assumes "store_expires now K s t" "store_expires now M t u"
  shows "store_expires now (K \<union> M) s u"
proof -
  have "store_abs s |` (- K) |` (- M) = store_abs s |` (- (K \<union> M))" by (simp add: restrict_restrict Compl_Un)
  moreover have "\<exists>v x. store_abs s k = Some (v, x) \<and> expired_at x now" if "k \<in> M" for k
    using assms that by (force simp: store_expires_def restrict_map_def split: if_splits)
  ultimately show ?thesis using assms by (auto simp: store_expires_def)
qed

lemma store_expires_mono: "store_expires now K s t \<Longrightarrow> now \<le> later \<Longrightarrow> store_expires later K s t"
  by (fastforce simp: store_expires_def expired_at_def)

lemma store_expires_live: "store_expires now K s t \<Longrightarrow> live now (store_abs t) = live now (store_abs s)"
  by (rule ext) (force simp: store_expires_def live_def restrict_map_def split: option.splits)

lemma withWrite_expires:
  assumes "wf_store s" "i < length (shards s)" "fn ((shards s ! i)\<lparr>evicted := []\<rparr>) = (r, sh)"
    and "expires now ((shards s ! i)\<lparr>evicted := []\<rparr>) sh L"
  shows "store_expires now (fst ` set L) s (snd (withWrite i fn s))"
proof -
  let ?K = "fst ` set L"
  have L: "shard_abs sh = shard_abs (shards s ! i) |` (- ?K)" "wf_shard sh" "?K \<subseteq> dom (shard_abs (shards s ! i))"
    "\<forall>(k, r) \<in> set L. \<exists>v x. shard_abs (shards s ! i) k = Some (v, x) \<and> expired_at x now"
    using assms(4) by (auto simp: expires_def shrinks_def)
  have K: "shardFor s k = i" if "k \<in> ?K" for k using L(3) that wf_storeD(4) [OF assms(1,2)] by blast
  have d: "dom (shard_abs sh) \<subseteq> {k. shardFor s k = i}" using L(1) wf_storeD(4) [OF assms(1,2)] by auto
  note W = withWrite_shard [of s i fn r sh, OF assms(1-3) L(2) d]
  note F = withWrite_fields [of fn s i r sh, OF assms(3)]
  have "store_abs (snd (withWrite i fn s)) k = (store_abs s |` (- ?K)) k" for k
    using W(2) [of k] K [of k] by (auto simp: L(1) restrict_map_def store_abs_def)
  moreover have "\<exists>v x. store_abs s k = Some (v, x) \<and> expired_at x now" if "k \<in> ?K" for k
    using L(4) K [OF that] that by (auto simp: store_abs_def)
  ultimately show ?thesis using W(1) F by (auto simp: store_expires_def)
qed

section \<open>The sweeper terminates and removes only expired keys\<close>

lemma ratio_le_zero: "0 \<le> fst th \<Longrightarrow> ratio_le 0 b th"
  by (cases th) (simp add: ratio_le_def float_quot_def Let_def)

lemma expired_in_ttl:
  assumes "wf_shard s" "e \<in> set (slots s)" "entry_Expired (heap s e) now"
  shows "e \<in> set (ttlSlots s)"
  using assms by (auto simp: wf_shard_def wf_ttl_def entry_Expired_def expired_at_def)

lemma expire_remove_ttl_less:
  assumes "wf_shard s" "e \<in> set (slots s)" "entry_Expired (heap s e) now"
  shows "length (ttlSlots (expire_remove e s)) < length (ttlSlots s)"
proof -
  obtain j where j: "j < length (ttlSlots s)" "e = ttlSlots s ! j"
    using expired_in_ttl [OF assms] by (auto simp: in_set_conv_nth)
  show ?thesis using expire_remove_ttlSlots [OF assms(1) j(1)] j by simp
qed

lemma sweep_remove_ttl_le:
  assumes "wf_shard s"
    "\<forall>e \<in> set vs. eSlot (heap s e) < 0 \<and> e \<notin> set (slots s) \<or> e \<in> set (slots s) \<and> entry_Expired (heap s e) now"
  shows "length (ttlSlots (sweep_remove vs s)) \<le> length (ttlSlots s)
    \<and> (vs \<noteq> [] \<longrightarrow> hd vs \<in> set (slots s) \<longrightarrow> length (ttlSlots (sweep_remove vs s)) < length (ttlSlots s))"
  using assms
proof (induction vs arbitrary: s)
  case (Cons e vs)
  show ?case
  proof (cases "e \<in> set (slots s)")
    case False
    then show ?thesis using Cons.IH [OF Cons.prems(1)] Cons.prems(2) by auto
  next
    case True
    then have ex: "entry_Expired (heap s e) now" using Cons.prems(2) by auto
    note S = expire_remove_eSlot [OF Cons.prems(1) True]
    have ix: "idx_ok (\<lambda>a. eSlot (heap s a)) (slots s)" using Cons.prems(1) by (simp add: wf_shard_def wf_slots_def)
    have w: "wf_shard (expire_remove e s)"
      using expire_remove_expires [OF Cons.prems(1) True ex] by (simp add: expires_def shrinks_def)
    have sub: "set (slots (expire_remove e s)) = set (slots s) - {e}"
      using removeEntry_slots(1) [OF Cons.prems(1) True] by (simp add: expire_remove_def fire_onEvict_def Let_def)
    have "\<forall>a \<in> set vs. eSlot (heap (expire_remove e s) a) < 0 \<and> a \<notin> set (slots (expire_remove e s))
        \<or> a \<in> set (slots (expire_remove e s)) \<and> entry_Expired (heap (expire_remove e s) a) now"
      using Cons.prems(2) S sub by (metis Diff_iff insertCI insert_iff list.set_intros(2))
    from Cons.IH [OF w this] expire_remove_ttl_less [OF Cons.prems(1) True ex]
    show ?thesis using idx_ok_memD(1) [OF ix True] by auto
  qed
qed simp

lemma sweepLocked_ttl:
  assumes "wf_shard s" "sweepLocked now n s = ((sm, cnt), t)"
  shows "length (ttlSlots t) \<le> length (ttlSlots s)" "0 < cnt \<Longrightarrow> length (ttlSlots t) < length (ttlSlots s)"
proof -
  have "length (ttlSlots t) \<le> length (ttlSlots s) \<and> (0 < cnt \<longrightarrow> length (ttlSlots t) < length (ttlSlots s))"
  proof (cases "ttlSlots s = []")
    case True
    then show ?thesis using assms by (auto simp: sweepLocked_def)
  next
    case False
    obtain vs u where vu: "sweep_sample (min n (length (ttlSlots s))) now s = (vs, u)" by force
    note V = sweep_sample_spec [OF assms(1) False vu]
    then obtain r where u: "u = s\<lparr>rng := r\<rparr>" by blast
    have w: "wf_shard u" using shrinks_rng [OF assms(1), of r] by (simp add: u shrinks_def)
    have tc: "t = sweep_remove vs u" "cnt = length vs" using assms(2) False vu by (auto simp: sweepLocked_def Let_def)
    have V3: "\<forall>e \<in> set vs. e \<in> set (slots u) \<and> entry_Expired (heap u e) now" using V(3) u by simp
    have "vs \<noteq> [] \<longrightarrow> hd vs \<in> set (slots u)" using V3 by (cases vs) auto
    then show ?thesis using sweep_remove_ttl_le [OF w, of vs now] V3 tc u by auto
  qed
  then show "length (ttlSlots t) \<le> length (ttlSlots s)" "0 < cnt \<Longrightarrow> length (ttlSlots t) < length (ttlSlots s)" by auto
qed

lemma withWrite_sweep:
  assumes "wf_store s" "i < length (shards s)" "withWrite i (sweepLocked now n) s = ((sm, cnt), t)"
  obtains K where "store_expires now K s t" "length (ttlSlots (shards t ! i)) \<le> length (ttlSlots (shards s ! i))"
    "0 < cnt \<longrightarrow> length (ttlSlots (shards t ! i)) < length (ttlSlots (shards s ! i))" "card K \<le> cnt" "cnt \<le> sm"
    "sm = min n (length (ttlSlots (shards s ! i)))" "\<forall>j. j \<noteq> i \<longrightarrow> shards t ! j = shards s ! j"
proof -
  let ?c = "(shards s ! i)\<lparr>evicted := []\<rparr>"
  obtain r sh where f: "sweepLocked now n ?c = (r, sh)" using surj_pair [of "sweepLocked now n ?c"] by blast
  note F = withWrite_fields [of "sweepLocked now n" s i r sh, OF f]
  have r: "r = (sm, cnt)" using F(1) assms(3) by simp
  have ti: "shards t ! i = sh\<lparr>evicted := []\<rparr>" "\<forall>j. j \<noteq> i \<longrightarrow> shards t ! j = shards s ! j"
    using F(2) assms(2,3) by simp_all
  have wc: "wf_shard ?c" using wf_storeD(3) [OF assms(1,2)] by simp
  have f': "sweepLocked now n ?c = ((sm, cnt), sh)" using f r by simp
  obtain L where L: "expires now ?c sh L" "length L \<le> cnt" "cnt \<le> sm" "sm = min n (length (ttlSlots ?c))"
    by (rule sweepLocked_spec [OF wc f'])
  have "store_expires now (fst ` set L) s t"
    using withWrite_expires [of s i "sweepLocked now n" r sh now L, OF assms(1,2) f L(1)] assms(3) by simp
  moreover have "card (fst ` set L) \<le> cnt"
    using card_image_le [of "set L" fst] card_length [of L] L(2) by simp
  ultimately show thesis using that [of "fst ` set L"] sweepLocked_ttl [OF wc f'] L(3,4) by (simp add: ti)
qed

lemma sweep_shard_spec:
  assumes "wf_store s" "i < length (shards s)" "length (ttlSlots (shards s ! i)) < fuel" "0 \<le> fst (swThreshold w)"
    and "\<forall>n. clk n \<le> now" "ssExpired st \<le> ssSampled st"
  shows "\<exists>b st' t K. sweep_shard fuel w since clk i st s = Some (b, st', t) \<and> store_expires now K s t
    \<and> ssExpired st + card K \<le> ssExpired st' \<and> ssExpired st' \<le> ssSampled st' \<and> ssRounds st' \<le> ssRounds st + fuel
    \<and> (\<forall>j. j \<noteq> i \<longrightarrow> shards t ! j = shards s ! j)"
  using assms(1-3,6)
proof (induction fuel arbitrary: st s)
  case (Suc fuel)
  let ?now = "clk (ssRounds st)" and ?n = "nat (swSample w)"
  show ?case
  proof (cases "since (ssRounds st) > swBudget w")
    case True
    then show ?thesis using store_expires_refl [OF Suc.prems(1), of now] Suc.prems(4)
      by (intro exI [of _ True] exI [of _ "st\<lparr>ssBudgeted := True\<rparr>"] exI [of _ s] exI [of _ "{}"]) auto
  next
    case False
    obtain sm c t where t: "withWrite i (sweepLocked ?now ?n) s = ((sm, c), t)" by (metis prod.exhaust)
    obtain K where K: "store_expires ?now K s t" "0 < c \<longrightarrow> length (ttlSlots (shards t ! i)) < length (ttlSlots (shards s ! i))"
      "card K \<le> c" "c \<le> sm" "\<forall>j. j \<noteq> i \<longrightarrow> shards t ! j = shards s ! j"
      by (rule withWrite_sweep [OF Suc.prems(1,2) t])
    have K': "store_expires now K s t" using store_expires_mono [OF K(1)] assms(5) by blast
    let ?st = "st\<lparr>ssRounds := ssRounds st + 1, ssSampled := ssSampled st + sm, ssExpired := ssExpired st + c\<rparr>"
    show ?thesis
    proof (cases "sm = 0 \<or> ratio_le c sm (swThreshold w)")
      case True
      then have "sweep_shard (Suc fuel) w since clk i st s = Some (False, ?st, t)" using t False by simp
      then show ?thesis using K' K Suc.prems(4)
        by (intro exI [of _ False] exI [of _ ?st] exI [of _ t] exI [of _ K]) auto
    next
      case rep: False
      then have "0 < c" using ratio_le_zero [OF assms(4), of sm] by (cases c) auto
      then have fl: "length (ttlSlots (shards t ! i)) < fuel" using K(2) Suc.prems(3) by linarith
      have wt: "wf_store t" "i < length (shards t)" "ssExpired ?st \<le> ssSampled ?st"
        using K' K(4) Suc.prems(2,4) by (auto simp: store_expires_def)
      obtain b st' u M where u: "sweep_shard fuel w since clk i ?st t = Some (b, st', u)" "store_expires now M t u"
        "ssExpired ?st + card M \<le> ssExpired st'" "ssExpired st' \<le> ssSampled st'" "ssRounds st' \<le> ssRounds ?st + fuel"
        "\<forall>j. j \<noteq> i \<longrightarrow> shards u ! j = shards t ! j"
        using Suc.IH [OF wt(1,2) fl wt(3)] by blast
      have "sweep_shard (Suc fuel) w since clk i st s = Some (b, st', u)" using t False rep u(1) by simp
      moreover have "card (K \<union> M) \<le> card K + card M" by (rule card_Un_le)
      ultimately show ?thesis using store_expires_trans [OF K' u(2)] u(3-6) K(3,5)
        by (intro exI [of _ b] exI [of _ st'] exI [of _ u] exI [of _ "K \<union> M"]) auto
    qed
  qed
qed simp

lemma sweep_shards_spec:
  assumes "wf_store s" "distinct is" "\<forall>i \<in> set is. i < length (shards s)" "0 \<le> fst (swThreshold w)"
    and "\<forall>n. clk n \<le> now" "ssExpired st \<le> ssSampled st"
  shows "\<exists>st' t K. sweep_shards is w since clk st s = Some (st', t) \<and> store_expires now K s t
    \<and> ssExpired st + card K \<le> ssExpired st' \<and> ssExpired st' \<le> ssSampled st'
    \<and> ssRounds st' \<le> ssRounds st + (\<Sum>i\<leftarrow>is. Suc (length (ttlSlots (shards s ! i))))"
  using assms(1-3,6)
proof (induction "is" arbitrary: st s)
  case Nil
  then show ?case using store_expires_refl [of s now] by (intro exI [of _ st] exI [of _ s] exI [of _ "{}"]) auto
next
  case (Cons i "is")
  let ?f = "Suc (length (ttlSlots (shards s ! i)))"
  have i: "i < length (shards s)" using Cons.prems(3) by simp
  obtain b st1 t K where t: "sweep_shard ?f w since clk i st s = Some (b, st1, t)" "store_expires now K s t"
    "ssExpired st + card K \<le> ssExpired st1" "ssExpired st1 \<le> ssSampled st1" "ssRounds st1 \<le> ssRounds st + ?f"
    "\<forall>j. j \<noteq> i \<longrightarrow> shards t ! j = shards s ! j"
    using sweep_shard_spec [OF Cons.prems(1) i lessI assms(4,5) Cons.prems(4)] by blast
  show ?case
  proof (cases b)
    case True
    then show ?thesis using t by (intro exI [of _ st1] exI [of _ t] exI [of _ K]) auto
  next
    case False
    have wt: "wf_store t" "\<forall>i \<in> set is. i < length (shards t)" using t(2) Cons.prems(3) by (auto simp: store_expires_def)
    have eq: "(\<Sum>i\<leftarrow>is. Suc (length (ttlSlots (shards t ! i)))) = (\<Sum>i\<leftarrow>is. Suc (length (ttlSlots (shards s ! i))))"
      using Cons.prems(2) t(6) by (intro arg_cong [of _ _ sum_list] map_cong) auto
    obtain st2 u M where u: "sweep_shards is w since clk st1 t = Some (st2, u)" "store_expires now M t u"
      "ssExpired st1 + card M \<le> ssExpired st2" "ssExpired st2 \<le> ssSampled st2"
      "ssRounds st2 \<le> ssRounds st1 + (\<Sum>i\<leftarrow>is. Suc (length (ttlSlots (shards s ! i))))"
      using Cons.IH [OF wt(1) _ wt(2) t(4)] Cons.prems(2) unfolding eq by auto
    have "sweep_shards (i # is) w since clk st s = Some (st2, u)" using t(1) u(1) False by simp
    moreover have "card (K \<union> M) \<le> card K + card M" by (rule card_Un_le)
    ultimately show ?thesis using store_expires_trans [OF t(2) u(2)] t(3,5) u(3-5)
      by (intro exI [of _ st2] exI [of _ u] exI [of _ "K \<union> M"]) auto
  qed
qed

text \<open>
  A sweep cycle always ends, within as many rounds as there are keys with a deadline plus one
  per shard even if the time budget never runs out. It removes only keys whose deadline had passed
  when the cycle's last clock reading was taken, keeps every other key as it was, and the reported number of expired
  keys is at least the number removed and at most the number sampled.
\<close>

theorem RunCycle_correct:
  assumes "wf_store s" "0 \<le> fst (swThreshold w)" "\<forall>n. clk n \<le> now"
  shows "\<exists>st w' t K. RunCycle since d clk w s = Some (st, w', t) \<and> wf_store t
    \<and> store_abs t = store_abs s |` (- K) \<and> (\<forall>k \<in> K. \<exists>v x. store_abs s k = Some (v, x) \<and> expired_at x now)
    \<and> card K \<le> ssExpired st \<and> ssExpired st \<le> ssSampled st
    \<and> ssRounds st \<le> length (shards s) + (\<Sum>sh\<leftarrow>shards s. length (ttlSlots sh))
    \<and> swTotalSwept w' = swTotalSwept w + word_of_nat (ssExpired st)"
proof -
  let ?st = "\<lparr>ssRounds = 0, ssSampled = 0, ssExpired = 0, ssDuration = 0, ssBudgeted = False\<rparr>"
  obtain st t K where t: "sweep_shards [0..<length (shards s)] w since clk ?st s = Some (st, t)" "store_expires now K s t"
    "card K \<le> ssExpired st" "ssExpired st \<le> ssSampled st"
    "ssRounds st \<le> (\<Sum>i\<leftarrow>[0..<length (shards s)]. Suc (length (ttlSlots (shards s ! i))))"
    using sweep_shards_spec [OF assms(1) _ _ assms(2,3), of "[0..<length (shards s)]" ?st since] by auto
  have "(\<Sum>i\<leftarrow>[0..<length (shards s)]. Suc (length (ttlSlots (shards s ! i)))) = (\<Sum>sh\<leftarrow>shards s. Suc (length (ttlSlots sh)))"
    by (subst (3) map_nth [symmetric]) (simp only: map_map comp_def)
  also have "\<dots> = length (shards s) + (\<Sum>sh\<leftarrow>shards s. length (ttlSlots sh))"
    by (induction "shards s") (simp_all add: sum_list_Suc)
  finally show ?thesis using t unfolding RunCycle_def store_expires_def
    by (intro exI [of _ "st\<lparr>ssDuration := d\<rparr>"] exI [of _ "w\<lparr>swCycles := swCycles w + 1,
        swTotalSwept := swTotalSwept w + word_of_nat (ssExpired st), swLast := Some (st\<lparr>ssDuration := d\<rparr>)\<rparr>"] exI [of _ t] exI [of _ K])
      (simp add: Let_def)
qed

theorem RunCycle_correct_witness:
  "\<exists>st w' t. RunCycle (\<lambda>_. 0) 0 (\<lambda>_. 5) (NewSweeper 0 0 (0, 0) 0) (store_New None \<lparr>oEngine = [], oShards = 4, oSeed = 7,
      oMaxMemory = 0, oLowWater = 0, oPolicy = [], oExactLRU = False, oEvictSampleK = 5, oEvictBatch = 200, oActorQueue = 1\<rparr>)
     = Some (st, w', t) \<and> wf_store t"
proof -
  let ?s = "store_New None \<lparr>oEngine = [], oShards = 4, oSeed = 7, oMaxMemory = 0, oLowWater = 0, oPolicy = [],
      oExactLRU = False, oEvictSampleK = 5, oEvictBatch = 200, oActorQueue = 1\<rparr>"
  have "wf_store ?s" by (rule store_New_spec) (simp add: withDefaults_def)
  from RunCycle_correct [OF this, of "NewSweeper 0 0 (0, 0) 0" "\<lambda>_. 5" 5 "\<lambda>_. 0" 0]
  show ?thesis by (auto simp: NewSweeper_def)
qed

section \<open>The wheel expirer reclaims what its timers name\<close>

text \<open>The keys of \<open>m\<close> that a list of fired timers removes.\<close>

definition timer_hits :: "u64 \<Rightarrow> wheelTimer list \<Rightarrow> kv \<Rightarrow> bytes set" where
  "timer_hits now ts m = {k. \<exists>v x. m k = Some (v, x) \<and> expired_at x now \<and> \<lparr>tKey = k, tExpireAt = x\<rparr> \<in> set ts}"

lemma timer_hits_Nil [simp]: "timer_hits now [] m = {}"
  by (simp add: timer_hits_def)

lemma timer_hits_finite: "finite (timer_hits now ts m)"
  by (rule finite_subset [of _ "tKey ` set ts"]) (force simp: timer_hits_def)+

lemma timer_hits_Cons:
  assumes "hit \<longleftrightarrow> (\<exists>v. m (tKey t) = Some (v, tExpireAt t) \<and> expired_at (tExpireAt t) now)"
  shows "timer_hits now (t # ts) m = (if hit then insert (tKey t) (timer_hits now ts (m |` (- {tKey t}))) else timer_hits now ts m)"
proof (cases hit)
  case True
  then obtain v where "m (tKey t) = Some (v, tExpireAt t)" "expired_at (tExpireAt t) now" using assms by blast
  then show ?thesis using True by (cases t) (auto simp: timer_hits_def restrict_map_def)
next
  case False
  then show ?thesis using assms by (cases t) (auto simp: timer_hits_def)
qed

lemma fire_timer_expires:
  assumes "wf_shard sh" "fire_timer t now sh = (b, sh')"
  shows "expires now sh sh' (if b then [(tKey t, ReasonExpired)] else [])"
    "b \<longleftrightarrow> (\<exists>v. shard_abs sh (tKey t) = Some (v, tExpireAt t) \<and> expired_at (tExpireAt t) now)"
proof -
  have "expires now sh sh' (if b then [(tKey t, ReasonExpired)] else [])
    \<and> (b \<longleftrightarrow> (\<exists>v. shard_abs sh (tKey t) = Some (v, tExpireAt t) \<and> expired_at (tExpireAt t) now))"
  proof (cases "map_of (entries sh) (tKey t)")
    case None
    then show ?thesis using assms expires_refl [OF assms(1)] by (auto simp: fire_timer_def shard_abs_def)
  next
    case (Some e)
    note k = wf_key [OF wf_shardD(1) [OF assms(1)] Some]
    show ?thesis
    proof (cases "eExpireAt (heap sh e) = tExpireAt t \<and> entry_Expired (heap sh e) now")
      case True
      then show ?thesis using assms(2) Some k expire_remove_expires [OF assms(1) k(2), of now]
        by (auto simp: fire_timer_def shard_abs_def entry_Expired_def)
    next
      case False
      then show ?thesis using assms(2) Some expires_refl [OF assms(1)]
        by (auto simp: fire_timer_def shard_abs_def entry_Expired_def split: if_splits)
    qed
  qed
  then show "expires now sh sh' (if b then [(tKey t, ReasonExpired)] else [])"
    "b \<longleftrightarrow> (\<exists>v. shard_abs sh (tKey t) = Some (v, tExpireAt t) \<and> expired_at (tExpireAt t) now)" by blast+
qed

lemma fire_timers_spec:
  assumes "wf_store s"
  shows "\<exists>t w'. fire_timers ts now n w s = (n + card (timer_hits now ts (store_abs s)), w', t)
    \<and> store_expires now (timer_hits now ts (store_abs s)) s t \<and> weWheel w' = weWheel w
    \<and> weExpired w' = weExpired w + word_of_nat (card (timer_hits now ts (store_abs s)))
    \<and> weExpired w' + weStale w' = weExpired w + weStale w + word_of_nat (length ts)"
  using assms
proof (induction ts arbitrary: n w s)
  case Nil
  then show ?case using store_expires_refl by simp
next
  case (Cons tm ts)
  let ?i = "shardFor s (tKey tm)" and ?m = "store_abs s"
  obtain b sh where f: "fire_timer tm now ((cell s (tKey tm))\<lparr>evicted := []\<rparr>) = (b, sh)" by force
  note i = wf_storeD(1) [OF Cons.prems, of "tKey tm"]
  have wc: "wf_shard ((cell s (tKey tm))\<lparr>evicted := []\<rparr>)" using wf_storeD(2) [OF Cons.prems] by simp
  note E = fire_timer_expires [OF wc f]
  define u where "u = snd (withWrite ?i (fire_timer tm now) s)"
  have u: "withWrite ?i (fire_timer tm now) s = (b, u)"
    using withWrite_fields(1) [of "fire_timer tm now" s ?i b sh, OF f] by (simp add: u_def prod_eq_iff)
  have hit: "b \<longleftrightarrow> (\<exists>v. ?m (tKey tm) = Some (v, tExpireAt tm) \<and> expired_at (tExpireAt tm) now)"
    using E(2) by (simp add: store_abs_def)
  have x: "store_expires now (if b then {tKey tm} else {}) s u"
    using withWrite_expires [of s ?i "fire_timer tm now" b sh, OF Cons.prems i f E(1)] u by (cases b) simp_all
  have wu: "wf_store u" using x by (simp add: store_expires_def)
  have mu: "store_abs u = (if b then ?m |` (- {tKey tm}) else ?m)" using x by (simp add: store_expires_def)
  let ?K = "timer_hits now ts (store_abs u)"
  have K: "timer_hits now (tm # ts) ?m = (if b then {tKey tm} else {}) \<union> ?K"
    using timer_hits_Cons [of b ?m tm now ts, OF hit] mu by simp
  have new: "b \<Longrightarrow> tKey tm \<notin> ?K" by (simp add: mu timer_hits_def restrict_map_def)
  let ?w = "if b then w\<lparr>weExpired := weExpired w + 1\<rparr> else w\<lparr>weStale := weStale w + 1\<rparr>"
  let ?n = "if b then n + 1 else n"
  obtain t w' where t: "fire_timers ts now ?n ?w u = (?n + card ?K, w', t)" "store_expires now ?K u t"
    "weWheel w' = weWheel ?w" "weExpired w' = weExpired ?w + word_of_nat (card ?K)"
    "weExpired w' + weStale w' = weExpired ?w + weStale ?w + word_of_nat (length ts)"
    using Cons.IH [OF wu, of ?n ?w] by blast
  have c: "card (timer_hits now (tm # ts) ?m) = (if b then Suc (card ?K) else card ?K)"
    using new timer_hits_finite [of now ts "store_abs u"] by (simp add: K)
  have "fire_timers (tm # ts) now n w s = (n + card (timer_hits now (tm # ts) ?m), w', t)" 
    using t(1) u by (cases b) (simp_all add: c)
  moreover have "store_expires now (timer_hits now (tm # ts) ?m) s t"
    unfolding K by (rule store_expires_trans [OF x t(2)])
  ultimately show ?case using t(3-5) by (cases b) (auto simp: c)
qed

lemma tickFor_mono: "x \<le> y \<Longrightarrow> tickFor w x \<le> tickFor w y"
  by (auto simp: tickFor_def word_le_nat_alt intro!: div_le_mono)

text \<open>
  C32. One run of the wheel expirer removes exactly the keys its due timers name whose current
  deadline is the timer's and has passed, and returns their number. In particular every key with a
  timer whose deadline lies in an earlier tick than the current time is gone afterwards.
\<close>

theorem RunOnce_correct:
  assumes "wheel_reach (weWheel w)" "wf_store s" "nowTick (weWheel w) < tickFor (weWheel w) now"
    and "tickFor (weWheel w) now \<le> nowTick (weWheel w) + 2 ^ 40" "tickFor (weWheel w) now + 2 ^ 40 + 1 < 2 ^ 64"
    and "RunOnce now w s = (n, w', t)"
  shows "\<exists>K. store_expires now K s t \<and> n = card K
    \<and> K = timer_hits now (fst (Advance now (weWheel w))) (store_abs s)
    \<and> (\<forall>k v x. store_abs s k = Some (v, x) \<longrightarrow> x \<noteq> 0 \<longrightarrow> \<lparr>tKey = k, tExpireAt = x\<rparr> \<in># wheel_mset (weWheel w) \<longrightarrow>
          tickFor (weWheel w) x < tickFor (weWheel w) now \<longrightarrow> store_abs t k = None)
    \<and> wheel_reach (weWheel w') \<and> nowTick (weWheel w') = tickFor (weWheel w) now"
proof -
  let ?w = "weWheel w"
  obtain due wh where a: "Advance now ?w = (due, wh)" by force
  define K where "K = timer_hits now due (store_abs s)"
  note L = Advance_lemma [OF wheel_reach_inv [OF assms(1)] assms(4,5) a]
  have wr: "wheel_reach wh" using wheel_reach.advance [OF assms(1,4,5)] a by simp
  have "store_expires now K s t \<and> n = card K \<and> weWheel w' = wh"
  proof (cases "due = []")
    case True
    then show ?thesis using assms(6) a store_expires_refl [OF assms(2)] by (auto simp: RunOnce_def K_def)
  next
    case False
    then show ?thesis
      using assms(6) a fire_timers_spec [OF assms(2), of due now 0 "w\<lparr>weWheel := wh, weFired := weFired w + word_of_nat (length due)\<rparr>"]
      by (auto simp: RunOnce_def K_def)
  qed
  note R = this
  have "store_abs t k = None" if k: "store_abs s k = Some (v, x)" "x \<noteq> 0" "\<lparr>tKey = k, tExpireAt = x\<rparr> \<in># wheel_mset ?w"
    "tickFor ?w x < tickFor ?w now" for k v x
  proof -
    have "\<forall>t \<in># wheel_mset wh. tickFor ?w now \<le> due_tick ?w t" using L assms(3) by blast
    then have "\<lparr>tKey = k, tExpireAt = x\<rparr> \<notin># wheel_mset wh" using k(4) by auto
    moreover have "\<lparr>tKey = k, tExpireAt = x\<rparr> \<in># mset due + wheel_mset wh" using L k(3) by simp
    ultimately have "\<lparr>tKey = k, tExpireAt = x\<rparr> \<in> set due" by simp
    moreover have "x \<le> now" using tickFor_mono [of now x ?w] k(4) linear [of x now] by auto
    ultimately have "k \<in> K" using k(1,2) by (auto simp: K_def timer_hits_def expired_at_def)
    then show ?thesis using R by (simp add: store_expires_def)
  qed
  then show ?thesis using R wr L assms(3) a by (intro exI [of _ K]) (auto simp: K_def)
qed

section \<open>A timer that fires early\<close>

text \<open>A store of one shard, an expirer with a tick of 10 ms started at 1000, and a key with deadline 1015.\<close>

definition early_opts :: Options where
  "early_opts = \<lparr>oEngine = EngineGlobal, oShards = 1, oSeed = 7, oMaxMemory = 0, oLowWater = 0, oPolicy = [],
      oExactLRU = False, oEvictSampleK = 5, oEvictBatch = 200, oActorQueue = 1\<rparr>"

definition early_start :: "WheelExpirer \<times> Store" where
  "early_start = (let (w, s) = NewWheelExpirer (store_New None early_opts) 10000000 1000 1000
     in deliver_ttl (w, snd (store_Set [107] [1] 1015 0 s)))"

definition early_timer :: wheelTimer where
  "early_timer = \<lparr>tKey = [107], tExpireAt = 1015\<rparr>"

lemma early_Advance: "fst (Advance 1010 (wheel_Add [107] 1015 (NewWheel 10000000 1000))) = [early_timer]"
proof -
  let ?n = "NewWheel 10000000 1000" and ?e = "\<lparr>tKey = [107], tExpireAt = 1015\<rparr>"
  let ?a = "wheel_Add [107] 1015 ?n"
  have n: "wf_clock ?n" "nowTick ?n = 0" "levels ?n = (\<lambda>_ _. [])" "overflow ?n = []"
    "tickFor ?n 1015 = 1" "tickFor ?n 1010 = 1"
    by (simp_all add: NewWheel_def wf_clock_def tickFor_def)
  have "place (Suc 4) 0 1 1 ?e ?n = put_slot 0 1 [?e] ?n" by (subst place.simps(2)) (simp add: n Let_def)
  then have "addLocked ?e ?n = put_slot 0 1 [?e] ?n" using addLocked_eq [OF n(1), of ?e] n by simp
  then have a: "nowTick ?a = 0" "levels ?a = (\<lambda>l i. if l = 0 \<and> i = 1 then [?e] else [])" "overflow ?a = []" "tickFor ?a 1010 = 1"
    using n by (auto simp: wheel_Add_def Let_def put_slot_levels fun_eq_iff)
  have "cascade (Suc 3) 1 (?a\<lparr>nowTick := 1\<rparr>) = ?a\<lparr>nowTick := 1\<rparr>" by (subst cascade.simps(2)) simp
  then have "fst (wheel_tick ?a) = [?e] \<and> overflow (snd (wheel_tick ?a)) = []" by (simp add: wheel_tick_eq Let_def a)
  then have "fst (wheel_ticks (Suc 0) [] ?a) = [?e]" by (simp add: split_beta Let_def)
  then show ?thesis by (simp add: Advance_def Let_def split_beta a early_timer_def)
qed

lemma early_store: "store_room 5 (store_New None early_opts)" "store_abs (store_New None early_opts) = Map.empty"
  "\<forall>sh \<in> set (shards (store_New None early_opts)). slots sh = []" "firedTTL (store_New None early_opts) = []"
proof -
  have "oShards (withDefaults None early_opts) \<le> 2 ^ 64" by (simp add: early_opts_def withDefaults_def)
  note N = store_New_spec [OF this]
  show "store_room 5 (store_New None early_opts)" by (rule N(3)) (simp_all add: early_opts_def)
  show "store_abs (store_New None early_opts) = Map.empty" by (rule N(2))
  show "\<forall>sh \<in> set (shards (store_New None early_opts)). slots sh = []" by (auto simp: store_New_def Let_def new_shard_i_spec)
  show "firedTTL (store_New None early_opts) = []" by (simp add: store_New_def Let_def)
qed

lemma range_shards_empty: "\<forall>sh \<in> set shs. slots sh = [] \<Longrightarrow> range_shards fn now shs c = c"
  by (induction shs) (simp_all add: range_shard.simps)

lemma SetOnTTL_simps [simp]:
  "shards (SetOnTTL b s) = shards s" "firedTTL (SetOnTTL b s) = firedTTL s" "onTTLSet (SetOnTTL b s) = b"
  "store_abs (SetOnTTL b s) = store_abs s" "wf_store (SetOnTTL b s) = wf_store s" "store_room n (SetOnTTL b s) = store_room n s"
  by (simp_all add: SetOnTTL_def store_abs_def shardFor_def wf_store_def store_room_def fun_eq_iff)

lemma firedTTL_upd [simp]:
  "store_abs (s\<lparr>firedTTL := x\<rparr>) = store_abs s" "wf_store (s\<lparr>firedTTL := x\<rparr>) = wf_store s"
  by (simp_all add: store_abs_def shardFor_def wf_store_def fun_eq_iff)

lemma withWrite_hooks: "firedTTL (snd (withWrite i fn s)) = firedTTL s" "onTTLSet (snd (withWrite i fn s)) = onTTLSet s"
  by (simp_all add: withWrite_def Let_def split_beta)

lemma early_start_vals:
  "weWheel (fst early_start) = wheel_Add [107] 1015 (NewWheel 10000000 1000)" "wf_store (snd early_start)"
  "store_abs (snd early_start) = [[107] \<mapsto> ([1], 1015)]"
proof -
  let ?s = "SetOnTTL True (store_New None early_opts)"
  have room: "store_room (Suc 4) ?s" using early_store(1) by simp
  have fits: "cost_fits [107] [1]" by (simp add: cost_fits_def EntryCost_def)
  note S = store_Set_unlimited [OF room fits, of 1015 0]
  have f: "firedTTL (snd (store_Set [107] [1] 1015 0 ?s)) = [([107], 1015)]"
    using S(1) early_store(4) by (auto simp: store_Set_def fireTTL_def withWrite_hooks Let_def split_beta split: if_splits)
  have n: "NewWheelExpirer (store_New None early_opts) 10000000 1000 1000
     = (\<lparr>weWheel = NewWheel 10000000 1000, weTick = 10000000, weFired = 0, weStale = 0, weExpired = 0\<rparr>, ?s)"
    using early_store(3) by (simp add: NewWheelExpirer_def Let_def store_Range_def range_shards_empty)
  show "weWheel (fst early_start) = wheel_Add [107] 1015 (NewWheel 10000000 1000)" "wf_store (snd early_start)"
    "store_abs (snd early_start) = [[107] \<mapsto> ([1], 1015)]"
    unfolding early_start_def n by (simp_all add: deliver_ttl_def f S(2) early_store(2))
      (use S(3) in \<open>simp add: store_room_def\<close>)
qed

lemma early_wheel: "wheel_reach (weWheel (fst early_start))" "nowTick (weWheel (fst early_start)) = 0"
  "tickFor (weWheel (fst early_start)) x = (if x \<le> 1000 then 0 else (unat x - 1000) div 10)"
  "wheel_mset (weWheel (fst early_start)) = {#early_timer#}"
proof -
  have "wheel_mset (NewWheel 10000000 1000) = {#}" by (simp add: wheel_mset_def NewWheel_def Let_def)
  then show "wheel_mset (weWheel (fst early_start)) = {#early_timer#}"
    unfolding early_start_vals(1) by (simp add: wheel_Add_def Let_def addLocked_mset early_timer_def)
  show "wheel_reach (weWheel (fst early_start))" unfolding early_start_vals(1) by (intro wheel_reach.intros)
qed (simp_all add: early_start_vals(1) wheel_Add_def Let_def NewWheel_def tickFor_def word_le_nat_alt)

text \<open>A run does not touch a key none of whose timers for its deadline fires after the deadline.\<close>

lemma RunOnce_keeps:
  assumes "wheel_reach (weWheel w)" "wf_store s" "tickFor (weWheel w) now \<le> 2 ^ 40" "store_abs s k = Some (v, x)"
    and "expired_at x now \<Longrightarrow> \<lparr>tKey = k, tExpireAt = x\<rparr> \<notin># wheel_mset (weWheel w)" "RunOnce now w s = (n, w', t)"
  shows "wheel_reach (weWheel w')" "wf_store t" "store_abs t k = Some (v, x)" "tickFor (weWheel w') = tickFor (weWheel w)"
    "mset (fst (Advance now (weWheel w))) + wheel_mset (weWheel w') = wheel_mset (weWheel w)"
proof -
  obtain due wh where a: "Advance now (weWheel w) = (due, wh)" by force
  have b: "tickFor (weWheel w) now \<le> nowTick (weWheel w) + 2 ^ 40" "tickFor (weWheel w) now + 2 ^ 40 + 1 < 2 ^ 64" using assms(3) by simp_all
  note L = Advance_lemma [OF wheel_reach_inv [OF assms(1)] b a]
  have wr: "wheel_reach wh" using wheel_reach.advance [OF assms(1) b] a by simp
  have R: "store_expires now (timer_hits now due (store_abs s)) s t \<and> weWheel w' = wh"
  proof (cases "due = []")
    case True
    then show ?thesis using assms(6) a store_expires_refl [OF assms(2)] by (auto simp: RunOnce_def)
  next
    case False
    then show ?thesis
      using assms(6) a fire_timers_spec [OF assms(2), of due now 0 "w\<lparr>weWheel := wh, weFired := weFired w + word_of_nat (length due)\<rparr>"]
      by (auto simp: RunOnce_def)
  qed
  have "k \<notin> timer_hits now due (store_abs s)"
  proof
    assume "k \<in> timer_hits now due (store_abs s)"
    then have "expired_at x now" "\<lparr>tKey = k, tExpireAt = x\<rparr> \<in># mset due" using assms(4) by (auto simp: timer_hits_def)
    moreover have "mset due \<subseteq># wheel_mset (weWheel w)" using L by (metis mset_subset_eq_add_left)
    ultimately show False using assms(5) by (meson mset_subset_eqD)
  qed
  then show "wheel_reach (weWheel w')" "wf_store t" "store_abs t k = Some (v, x)" "tickFor (weWheel w') = tickFor (weWheel w)"
    "mset (fst (Advance now (weWheel w))) + wheel_mset (weWheel w') = wheel_mset (weWheel w)"
    using R L wr assms(4) a by (simp_all add: store_expires_def)
qed

lemma run_expirer_keeps:
  assumes "wheel_reach (weWheel w)" "wf_store s" "\<forall>now \<in> set ts. tickFor (weWheel w) now \<le> 2 ^ 40" "store_abs s k = Some (v, x)"
    and "\<lparr>tKey = k, tExpireAt = x\<rparr> \<notin># wheel_mset (weWheel w)"
  shows "store_abs (snd (run_expirer ts w s)) k = Some (v, x)"
  using assms
proof (induction ts arbitrary: w s)
  case (Cons now ts)
  obtain n w' t where r: "RunOnce now w s = (n, w', t)" by (metis prod.exhaust)
  have "tickFor (weWheel w) now \<le> 2 ^ 40" using Cons.prems(3) by simp
  note K = RunOnce_keeps [OF Cons.prems(1,2) this Cons.prems(4) Cons.prems(5) r]
  have "\<lparr>tKey = k, tExpireAt = x\<rparr> \<notin># wheel_mset (weWheel w')" using K(5) Cons.prems(5) by (metis union_iff)
  then show ?case using Cons.IH [OF K(1,2) _ K(3)] Cons.prems(3) r K(4) by simp
qed simp

text \<open>
  C33. A timer that fires early is lost. Let the wheel hold one timer for a key and the key's deadline, and let a run of the expirer at a time
  before the deadline take the timer off the wheel, as happens when the run falls into the tick of the deadline. Then that run and every sequence
  of later runs, however late, leave the key in the store. The ticks of the runs are within \<open>2 ^ 40\<close> of the start, which is 34 years with ticks of a millisecond.
\<close>

theorem early_timer_lost:
  assumes "wheel_reach (weWheel w)" "wf_store s" "store_abs s k = Some (v, x)" "now < x"
    and "count (wheel_mset (weWheel w)) \<lparr>tKey = k, tExpireAt = x\<rparr> = 1"
    and "\<lparr>tKey = k, tExpireAt = x\<rparr> \<in> set (fst (Advance now (weWheel w)))"
    and "\<forall>t \<in> set (now # later). tickFor (weWheel w) t \<le> 2 ^ 40"
  shows "store_abs (snd (run_expirer (now # later) w s)) k = Some (v, x)"
proof -
  let ?tm = "\<lparr>tKey = k, tExpireAt = x\<rparr>"
  obtain n w' t where r: "RunOnce now w s = (n, w', t)" by (metis prod.exhaust)
  have b: "tickFor (weWheel w) now \<le> 2 ^ 40" using assms(7) by simp
  have "\<not> expired_at x now" using assms(4) by (simp add: expired_at_def not_le)
  note K = RunOnce_keeps [OF assms(1,2) b assms(3) _ r, simplified this, simplified]
  have "count (mset (fst (Advance now (weWheel w)))) ?tm + count (wheel_mset (weWheel w')) ?tm = 1"
    using assms(5) unfolding K(5) [symmetric] by (simp only: count_union)
  moreover have "1 \<le> count (mset (fst (Advance now (weWheel w)))) ?tm" using assms(6) by (simp only: count_greater_eq_one_iff set_mset_mset)
  ultimately have "count (wheel_mset (weWheel w')) ?tm = 0" by linarith
  then have "?tm \<notin># wheel_mset (weWheel w')" by (simp add: not_in_iff)
  then have "store_abs (snd (run_expirer later w' t)) k = Some (v, x)"
    using assms(7) K(4) by (intro run_expirer_keeps [OF K(1,2) _ K(3)]) simp_all
  then show ?thesis by (simp add: r)
qed

theorem early_timer_lost_witness:
  "store_abs (snd (run_expirer [1010, 1020, 2000, 1000000] (fst early_start) (snd early_start))) [107] = Some ([1], 1015)"
proof (rule early_timer_lost [OF early_wheel(1) early_start_vals(2)])
  have "fst (Advance 1010 (weWheel (fst early_start))) = [early_timer]" unfolding early_start_vals(1) by (rule early_Advance)
  then show "\<lparr>tKey = [107], tExpireAt = 1015\<rparr> \<in> set (fst (Advance 1010 (weWheel (fst early_start))))" by (simp add: early_timer_def)
qed (simp_all add: early_start_vals(3) early_wheel early_timer_def)

theorem RunOnce_correct_witness:
  "store_abs (snd (snd (RunOnce 1040 (fst early_start) (snd early_start)))) [107] = None"
proof -
  have a: "tickFor (weWheel (fst early_start)) 1040 = 4" "tickFor (weWheel (fst early_start)) 1015 = 1"
    by (simp_all add: early_wheel)
  show ?thesis
    using RunOnce_correct [OF early_wheel(1) early_start_vals(2), of 1040 "fst (RunOnce 1040 (fst early_start) (snd early_start))"
        "fst (snd (RunOnce 1040 (fst early_start) (snd early_start)))" "snd (snd (RunOnce 1040 (fst early_start) (snd early_start)))"]
    by (auto simp: a early_wheel(2,4) early_start_vals(3) early_timer_def)
qed

end
