(* ===== verification/Wal_Scan.thy ===== *)
theory Wal_Scan
  imports Wal_Record
begin

text \<open>
  \<^verbatim>\<open>internal/wal/reader.go\<close>: scanning one segment file. A file is the size reported by \<^verbatim>\<open>Stat\<close>
  and the bytes that can be read; the callback transforms a state and may return an error. A scan
  delivers the records at the start of the file and nothing else, and it classifies a file cut short
  in the middle of a record as a torn tail after the last complete record.
\<close>

section \<open>Scanning\<close>

datatype Fault = FaultNone | FaultTornTail | FaultCorrupt

record ScanResult =
  scFirstLSN :: u64
  scLastLSN :: u64
  scRecords :: nat
  scLastGood :: nat
  scFileSize :: nat
  scFault :: Fault
  scFaultOffset :: nat
  scFaultErr :: "wal_error option"

definition scan_Healthy :: "ScanResult \<Rightarrow> bool" where
  "scan_Healthy r \<longleftrightarrow> scFault r = FaultNone"

definition set_fault :: "Fault \<Rightarrow> nat \<Rightarrow> wal_error \<Rightarrow> ScanResult \<Rightarrow> ScanResult" where
  "set_fault f off e res = res\<lparr>scFault := f, scFaultOffset := off, scFaultErr := Some e\<rparr>"

lemma DecodeRecord_size: "DecodeRecord buf rem = Inr (r, n) \<Longrightarrow> 8 \<le> n \<and> int n \<le> rem"
  using DecodeRecord_Inr(1,4) [of buf rem r n] by (simp add: EncodedLen_def)

function scan_loop :: "(Record \<Rightarrow> 'c \<Rightarrow> 'e option \<times> 'c) \<Rightarrow> nat \<Rightarrow> bytes \<Rightarrow> nat \<Rightarrow> bool \<Rightarrow> ScanResult \<Rightarrow> 'c
    \<Rightarrow> bool \<times> ScanResult \<times> 'c \<times> 'e option" where
  "scan_loop fn fsize content offset first res c =
     (let remaining = fsize - offset
      in if remaining = 0 then (first, res, c, None)
         else if remaining < recHeaderLen then (first, set_fault FaultTornTail offset ErrTornTail res, c, None)
         else if length content < offset + recHeaderLen then (first, set_fault FaultTornTail offset ErrTornTail res, c, None)
         else let hdr = subslice offset (offset + recHeaderLen) content;
                  len = unat (Uint32 (subslice 4 8 hdr))
              in if len > MaxRecordLen then (first, set_fault FaultCorrupt offset (ErrLengthTooBig len) res, c, None)
         else if recHeaderLen + len > remaining then (first, set_fault FaultTornTail offset ErrTornTail res, c, None)
         else if length content < offset + recHeaderLen + len then (first, set_fault FaultTornTail offset ErrTornTail res, c, None)
         else let payload = subslice (offset + recHeaderLen) (offset + recHeaderLen + len) content
              in case DecodeRecord (hdr @ payload) (int remaining) of
                   Inl e \<Rightarrow> (first, set_fault (if e = ErrTornTail then FaultTornTail else FaultCorrupt) offset e res, c, None)
                 | Inr (rec, n) \<Rightarrow>
                     if first
                     then (case parseSegmentHeader rec of
                             Inl e \<Rightarrow> (first, set_fault FaultCorrupt offset e res, c, None)
                           | Inr v \<Rightarrow> scan_loop fn fsize content (offset + n) False
                                        (res\<lparr>scFirstLSN := rLSN rec, scLastGood := offset + n\<rparr>) c)
                     else (case fn rec c of
                             (Some e, c) \<Rightarrow> (first, res, c, Some e)
                           | (None, c) \<Rightarrow> scan_loop fn fsize content (offset + n) False
                                            (res\<lparr>scRecords := scRecords res + 1, scLastLSN := rLSN rec, scLastGood := offset + n\<rparr>) c))"
  by pat_completeness auto
termination
  by (relation "measure (\<lambda>(fn, fsize, content, offset, first, res, c). fsize - offset)") (auto dest!: DecodeRecord_size)

declare scan_loop.simps [simp del]

definition ScanSegment :: "(Record \<Rightarrow> 'c \<Rightarrow> 'e option \<times> 'c) \<Rightarrow> nat \<Rightarrow> bytes \<Rightarrow> 'c \<Rightarrow> ScanResult \<times> 'c \<times> 'e option" where
  "ScanSegment fn fsize content c =
     (let (first, res, c, err) = scan_loop fn fsize content 0 True
            \<lparr>scFirstLSN = 0, scLastLSN = 0, scRecords = 0, scLastGood = 0, scFileSize = fsize, scFault = FaultNone,
             scFaultOffset = 0, scFaultErr = None\<rparr> c
      in case err of
           Some e \<Rightarrow> (res, c, Some e)
         | None \<Rightarrow> (if first \<and> scFault res = FaultNone then set_fault FaultTornTail 0 ErrNoSegmentHdr res else res, c, None))"

section \<open>One step on a complete file\<close>

lemma subslice_take: "b \<le> t \<Longrightarrow> subslice a b (take t xs) = subslice a b xs"
  by (cases "a \<le> b") (auto simp: subslice_def take_drop min_def)

lemma DecodeRecord_take:
  assumes "8 \<le> length buf" "8 + unat (Uint32 (subslice 4 8 buf)) \<le> length buf"
  shows "DecodeRecord (take (8 + unat (Uint32 (subslice 4 8 buf))) buf) rem = DecodeRecord buf rem"
proof -
  define t where "t = 8 + unat (Uint32 (subslice 4 8 buf))"
  have s: "subslice 0 4 (take t buf) = subslice 0 4 buf" "subslice 4 8 (take t buf) = subslice 4 8 buf"
    "subslice 8 t (take t buf) = subslice 8 t buf" "length (take t buf) = t" "\<not> t < 8" "\<not> length buf < 8" "\<not> length buf < t"
    using assms by (simp_all add: subslice_take t_def)
  show ?thesis
    unfolding t_def [symmetric]
    unfolding DecodeRecord_def s(1,2,4) Let_def t_def [symmetric] s(3) using s(5-7) by simp
qed

definition scan_err :: "wal_error \<Rightarrow> wal_error" where
  "scan_err e = (if e = ErrShortRecord then ErrTornTail else e)"

lemma scan_step:
  fixes c :: 'c and fn :: "Record \<Rightarrow> 'c \<Rightarrow> 'e option \<times> 'c"
  assumes "off \<le> length content"
  defines "buf \<equiv> drop off content"
  shows "scan_loop fn (length content) content off first res c =
    (if buf = [] then (first, res, c, None)
     else case DecodeRecord buf (int (length buf)) of
        Inl e \<Rightarrow> (first, set_fault (if scan_err e = ErrTornTail then FaultTornTail else FaultCorrupt) off (scan_err e) res, c, None)
      | Inr (rec, n) \<Rightarrow>
          if first
          then (case parseSegmentHeader rec of
                  Inl e \<Rightarrow> (first, set_fault FaultCorrupt off e res, c, None)
                | Inr v \<Rightarrow> scan_loop fn (length content) content (off + n) False (res\<lparr>scFirstLSN := rLSN rec, scLastGood := off + n\<rparr>) c)
          else (case fn rec c of
                  (Some e, c) \<Rightarrow> (first, res, c, Some e)
                | (None, c) \<Rightarrow> scan_loop fn (length content) content (off + n) False
                    (res\<lparr>scRecords := scRecords res + 1, scLastLSN := rLSN rec, scLastGood := off + n\<rparr>) c))"
proof -
  define len where "len = unat (Uint32 (subslice 4 8 buf))"
  have ln: "unat (le_word (subslice 4 8 buf) :: u32) = len" by (simp add: len_def)
  have lb: "length content - off = length buf" by (simp add: buf_def)
  have h: "subslice off (off + 8) content = take 8 buf" "subslice (off + 8) (off + 8 + len) content = take len (drop 8 buf)"
    by (simp_all add: subslice_def buf_def drop_drop add.commute)
  have l: "subslice 4 8 (take 8 buf) = subslice 4 8 buf" by (simp add: subslice_take)
  have g: "length content < off + 8 \<longleftrightarrow> length buf < 8" "length content < off + 8 + len \<longleftrightarrow> length buf < 8 + len"
    using assms(1) by (auto simp: buf_def)
  have hp: "take 8 buf @ take len (drop 8 buf) = take (8 + len) buf" by (simp add: take_add)
  consider "buf = []" | "buf \<noteq> []" "length buf < 8" | "8 \<le> length buf" "len > MaxRecordLen"
    | "8 \<le> length buf" "len \<le> MaxRecordLen" "length buf < 8 + len" | "8 \<le> length buf" "len \<le> MaxRecordLen" "8 + len \<le> length buf"
    by linarith
  then show ?thesis
  proof cases
    case 1
    then show ?thesis using lb by (subst scan_loop.simps) simp
  next
    case 2
    then show ?thesis using lb by (subst scan_loop.simps) (simp add: DecodeRecord_def scan_err_def)
  next
    case 3
    then have "DecodeRecord buf (int (length buf)) = Inl (ErrLengthTooBig len)" by (simp add: DecodeRecord_def len_def)
    then show ?thesis using 3 g unfolding lb
      by (subst scan_loop.simps) (simp add: lb h l scan_err_def Let_def ln)
  next
    case 4
    then have "DecodeRecord buf (int (length buf)) = Inl ErrTornTail" by (simp add: DecodeRecord_def len_def Let_def)
    then show ?thesis using 4 g
      by (subst scan_loop.simps) (auto simp add: lb h l scan_err_def Let_def ln)
  next
    case 5
    have D: "DecodeRecord (take (8 + len) buf) (int (length buf)) = DecodeRecord buf (int (length buf))"
      unfolding len_def using 5 by (intro DecodeRecord_take) (auto simp: len_def)
    have ns: "DecodeRecord buf (int (length buf)) \<noteq> Inl ErrShortRecord"
      using 5(1) by (auto simp: DecodeRecord_def Let_def)
    have b: "buf \<noteq> []" using 5 by auto
    show ?thesis using 5 g ns b
      by (subst scan_loop.simps) (auto simp add: lb h l hp D scan_err_def Let_def ln split: sum.splits)
  qed
qed

section \<open>What a scan delivers\<close>

definition enc_records :: "Record list \<Rightarrow> bytes" where
  "enc_records rs = concat (map (AppendRecord []) rs)"

lemma enc_records_simps [simp]: "enc_records [] = []" "enc_records (r # rs) = AppendRecord [] r @ enc_records rs"
  "enc_records (rs @ qs) = enc_records rs @ enc_records qs"
  by (simp_all add: enc_records_def)

lemma AppendRecord_neq_Nil [simp]: "AppendRecord [] r \<noteq> []"
  by (simp add: AppendRecord_Nil payload_of_def numeral_eq_Suc)

text \<open>The callback on a list of records, up to the first error.\<close>

fun deliver :: "(Record \<Rightarrow> 'c \<Rightarrow> 'e option \<times> 'c) \<Rightarrow> Record list \<Rightarrow> 'c \<Rightarrow> 'e option \<times> 'c" where
  "deliver fn [] c = (None, c)"
| "deliver fn (r # rs) c = (case fn r c of (Some e, c) \<Rightarrow> (Some e, c) | (None, c) \<Rightarrow> deliver fn rs c)"

text \<open>The part of a file after its records: nothing, or bytes that do not start with a record.\<close>

definition stuck :: "bytes \<Rightarrow> bool" where
  "stuck tr \<longleftrightarrow> tr = [] \<or> (\<exists>e. DecodeRecord tr (int (length tr)) = Inl e)"

definition tail_fault :: "bytes \<Rightarrow> nat \<Rightarrow> ScanResult \<Rightarrow> ScanResult" where
  "tail_fault tr off res = (if tr = [] then res else case DecodeRecord tr (int (length tr)) of
     Inl e \<Rightarrow> set_fault (if scan_err e = ErrTornTail then FaultTornTail else FaultCorrupt) off (scan_err e) res | Inr _ \<Rightarrow> res)"

definition scanned :: "Record list \<Rightarrow> nat \<Rightarrow> ScanResult \<Rightarrow> ScanResult" where
  "scanned rs off res = res\<lparr>scRecords := scRecords res + length rs,
     scLastLSN := (if rs = [] then scLastLSN res else rLSN (last rs)), scLastGood := off + length (enc_records rs)\<rparr>"

lemma records_split: "\<exists>rs tr. buf = enc_records rs @ tr \<and> list_all wf_record rs \<and> stuck tr"
proof (induction buf rule: length_induct)
  case (1 buf)
  show ?case
  proof (cases "stuck buf")
    case True
    then show ?thesis by (intro exI [of _ "[]"] exI [of _ buf]) simp
  next
    case False
    then obtain r n where d: "DecodeRecord buf (int (length buf)) = Inr (r, n)"
      by (cases "DecodeRecord buf (int (length buf))") (auto simp: stuck_def)
    note R = DecodeRecord_Inr [OF d]
    have "buf = AppendRecord [] r @ drop n buf" using append_take_drop_id [of n buf] R(2) by metis
    moreover have "length (drop n buf) < length buf" using R(1,5) by (simp add: EncodedLen_def)
    then obtain rs tr where "drop n buf = enc_records rs @ tr" "list_all wf_record rs" "stuck tr" using 1 by blast
    ultimately show ?thesis using R(3) by (intro exI [of _ "r # rs"] exI [of _ tr]) simp
  qed
qed

lemma decode_front:
  assumes "wf_record r" "buf = AppendRecord [] r @ rest"
  shows "DecodeRecord buf (int (length buf)) = Inr (r, EncodedLen r)"
  using DecodeRecord_Append [OF assms(1), of "int (length buf)" rest] assms(2) by simp

lemma drop_next:
  assumes "drop off content = AppendRecord [] r @ rest"
  shows "drop (off + EncodedLen r) content = rest" "off + EncodedLen r \<le> length content"
proof -
  have "drop (off + EncodedLen r) content = drop (EncodedLen r) (drop off content)" by (simp add: add.commute)
  then show "drop (off + EncodedLen r) content = rest" using assms by simp
  have "length (drop off content) = EncodedLen r + length rest" using assms by simp
  moreover have "0 < EncodedLen r" by (simp add: EncodedLen_def)
  ultimately show "off + EncodedLen r \<le> length content" unfolding length_drop by linarith
qed

lemma scan_loop_enc:
  assumes "drop off content = enc_records rs @ tr" "off \<le> length content" "list_all wf_record rs" "stuck tr"
    and "scLastGood res = off" "deliver fn rs c = (err, c')"
  shows "\<exists>res'. scan_loop fn (length content) content off False res c = (False, res', c', err)
    \<and> (err = None \<longrightarrow> res' = tail_fault tr (off + length (enc_records rs)) (scanned rs off res))"
  using assms
proof (induction rs arbitrary: off res c)
  case Nil
  have "scanned [] off res = res" using Nil.prems(5) by (simp add: scanned_def)
  then show ?case using Nil scan_step [of off content fn False res c]
    by (auto simp: stuck_def tail_fault_def)
next
  case (Cons r rs)
  have w: "wf_record r" "list_all wf_record rs" using Cons.prems(3) by simp_all
  have d: "drop off content = AppendRecord [] r @ (enc_records rs @ tr)" using Cons.prems(1) by simp
  note D = decode_front [OF w(1) d] and N = drop_next [OF d]
  have ne: "drop off content \<noteq> []" using d by simp
  note st = scan_step [OF Cons.prems(2), of fn False res c, unfolded D]
  show ?case
  proof (cases "fn r c")
    case (Pair e1 c1)
    show ?thesis
    proof (cases e1)
      case None
      let ?res = "res\<lparr>scRecords := scRecords res + 1, scLastLSN := rLSN r, scLastGood := off + EncodedLen r\<rparr>"
      have s1: "scan_loop fn (length content) content off False res c = scan_loop fn (length content) content (off + EncodedLen r) False ?res c1"
        using st ne Pair None by simp
      have s2: "scanned rs (off + EncodedLen r) ?res = scanned (r # rs) off res" by (simp add: scanned_def)
      from Cons.IH [OF N w(2) Cons.prems(4), of ?res c1] Cons.prems(6) Pair None
      show ?thesis unfolding s1 s2 by (simp add: add.assoc)
    next
      case (Some e)
      have "err = Some e" "c' = c1" using Cons.prems(6) Pair Some by auto
      then show ?thesis using st ne Pair Some by simp
    qed
  qed
qed

text \<open>A whole segment file: the header record, the records, the rest.\<close>

definition wf_header :: "Record \<Rightarrow> bool" where
  "wf_header h \<longleftrightarrow> wf_record h \<and> parseSegmentHeader h = Inr segmentFormatVersion"

lemma newSegmentHeader_wf: "wf_header (newSegmentHeader l now)"
  by (simp add: wf_header_def wf_record_def newSegmentHeader_def parseSegmentHeader_def rectype_Valid_def segmentMagic_def)

lemma parseSegmentHeader_Inr: "parseSegmentHeader h = Inr v \<Longrightarrow> v = segmentFormatVersion"
  by (auto simp: parseSegmentHeader_def Let_def split: if_splits)

definition scan_start :: "nat \<Rightarrow> ScanResult" where
  "scan_start n = \<lparr>scFirstLSN = 0, scLastLSN = 0, scRecords = 0, scLastGood = 0, scFileSize = n, scFault = FaultNone,
     scFaultOffset = 0, scFaultErr = None\<rparr>"

lemma tail_fault_None: "stuck tr \<Longrightarrow> scFault res = FaultNone \<Longrightarrow> scFault (tail_fault tr off res) = FaultNone \<longleftrightarrow> tr = []"
  by (auto simp: stuck_def tail_fault_def set_fault_def split: if_splits)

lemma tail_fault_fields [simp]:
  "scLastGood (tail_fault tr off res) = scLastGood res" "scRecords (tail_fault tr off res) = scRecords res"
  "scFirstLSN (tail_fault tr off res) = scFirstLSN res" "scLastLSN (tail_fault tr off res) = scLastLSN res"
  by (auto simp: tail_fault_def set_fault_def split: sum.splits)

lemma ScanSegment_enc:
  assumes "wf_header h" "list_all wf_record rs" "stuck tr" "deliver fn rs c = (err, c')"
    and "content = AppendRecord [] h @ enc_records rs @ tr"
  shows "\<exists>res'. ScanSegment fn (length content) content c = (res', c', err)
    \<and> (err = None \<longrightarrow> res' = tail_fault tr (length (AppendRecord [] h @ enc_records rs))
          (scanned rs (EncodedLen h) ((scan_start (length content))\<lparr>scFirstLSN := rLSN h, scLastGood := EncodedLen h\<rparr>)))"
proof -
  let ?r0 = "scan_start (length content)" and ?r1 = "(scan_start (length content))\<lparr>scFirstLSN := rLSN h, scLastGood := EncodedLen h\<rparr>"
  have w: "wf_record h" "parseSegmentHeader h = Inr segmentFormatVersion" using assms(1) by (auto simp: wf_header_def)
  have D: "DecodeRecord content (int (length content)) = Inr (h, EncodedLen h)" by (rule decode_front [OF w(1) assms(5)])
  have N: "drop (EncodedLen h) content = enc_records rs @ tr" "EncodedLen h \<le> length content"
    using drop_next [of 0 content h "enc_records rs @ tr"] assms(5) by simp_all
  have s: "scan_loop fn (length content) content 0 True ?r0 c = scan_loop fn (length content) content (EncodedLen h) False ?r1 c"
    using scan_step [of 0 content fn True ?r0 c] D w(2) assms(5) by simp
  obtain res' where r: "scan_loop fn (length content) content (EncodedLen h) False ?r1 c = (False, res', c', err)"
    "err = None \<longrightarrow> res' = tail_fault tr (EncodedLen h + length (enc_records rs)) (scanned rs (EncodedLen h) ?r1)"
    using scan_loop_enc [OF N assms(2,3) _ assms(4), of ?r1] by auto
  have "ScanSegment fn (length content) content c = (res', c', err)"
    unfolding ScanSegment_def scan_start_def [symmetric] s r by (simp split: option.splits)
  then show ?thesis using r(2) by simp
qed

lemma ScanSegment_no_header:
  assumes "stuck content \<or> (\<exists>r n e. DecodeRecord content (int (length content)) = Inr (r, n) \<and> parseSegmentHeader r = Inl e)"
  shows "\<exists>res. ScanSegment fn (length content) content c = (res, c, None) \<and> scLastGood res = 0 \<and> scRecords res = 0 \<and> scFault res \<noteq> FaultNone"
proof -
  note st = scan_step [of 0 content fn True "scan_start (length content)" c]
  show ?thesis
    unfolding ScanSegment_def scan_start_def [symmetric] st [simplified]
    using assms by (auto simp: stuck_def set_fault_def scan_start_def split: sum.splits)
qed

text \<open>
  Whatever bytes a segment file holds, a scan hands to the callback, in order, exactly the
  records with which the file starts (up to the first error of the callback) after a valid segment
  header, and reports the end of the last of them as the last good offset. It reports no fault exactly when
  the file consists of the header and those records.
\<close>

theorem ScanSegment_sound:
  assumes "ScanSegment fn (length content) content c = (res, c', err)"
  shows "(err = None \<and> c' = c \<and> scFault res \<noteq> FaultNone \<and> scLastGood res = 0 \<and> scRecords res = 0)
    \<or> (\<exists>h rs tr. content = AppendRecord [] h @ enc_records rs @ tr \<and> wf_header h \<and> list_all wf_record rs
        \<and> deliver fn rs c = (err, c')
        \<and> (err = None \<longrightarrow> scRecords res = length rs \<and> scFirstLSN res = rLSN h
              \<and> scLastGood res = length (AppendRecord [] h @ enc_records rs) \<and> (scFault res = FaultNone \<longleftrightarrow> tr = [])))"
proof -
  obtain qs tr where q: "content = enc_records qs @ tr" "list_all wf_record qs" "stuck tr" using records_split by blast
  show ?thesis
  proof (cases "\<exists>h rs. qs = h # rs \<and> wf_header h")
    case True
    then obtain h rs where h: "qs = h # rs" "wf_header h" by blast
    have c: "content = AppendRecord [] h @ enc_records rs @ tr" "list_all wf_record rs" using q h by simp_all
    obtain e d where d: "deliver fn rs c = (e, d)" by force
    obtain r where r: "ScanSegment fn (length content) content c = (r, d, e)"
      "e = None \<longrightarrow> r = tail_fault tr (length (AppendRecord [] h @ enc_records rs))
          (scanned rs (EncodedLen h) ((scan_start (length content))\<lparr>scFirstLSN := rLSN h, scLastGood := EncodedLen h\<rparr>))"
      using ScanSegment_enc [OF h(2) c(2) q(3) d c(1)] by blast
    have "r = res" "d = c'" "e = err" using r(1) assms by auto
    then show ?thesis using c h(2) d r(2) q(3)
      by (intro disjI2 exI [of _ h] exI [of _ rs] exI [of _ tr]) (auto simp: scanned_def scan_start_def tail_fault_None)
  next
    case False
    have "stuck content \<or> (\<exists>r n e. DecodeRecord content (int (length content)) = Inr (r, n) \<and> parseSegmentHeader r = Inl e)"
    proof (cases qs)
      case Nil
      then show ?thesis using q by simp
    next
      case (Cons h rs)
      then have "DecodeRecord content (int (length content)) = Inr (h, EncodedLen h)" using q by (intro decode_front) auto
      moreover have "\<exists>e. parseSegmentHeader h = Inl e"
        using False Cons q(2) parseSegmentHeader_Inr [of h] by (cases "parseSegmentHeader h") (auto simp: wf_header_def)
      ultimately show ?thesis by blast
    qed
    from ScanSegment_no_header [OF this, of fn c] show ?thesis using assms by auto
  qed
qed

section \<open>Torn tails\<close>

lemma torn_record:
  assumes "wf_record r" "0 < q" "q < EncodedLen r"
  shows "\<exists>e. DecodeRecord (take q (AppendRecord [] r)) (int q) = Inl e \<and> scan_err e = ErrTornTail"
proof (cases "q < 8")
  case True
  then show ?thesis using assms by (auto simp: DecodeRecord_def scan_err_def)
next
  case False
  have "subslice 4 8 (take q (AppendRecord [] r)) = subslice 4 8 (AppendRecord [] r @ [])"
    using False by (simp add: subslice_take)
  also have "\<dots> = PutUint32 (word_of_nat (length (payload_of r)))" by (rule AppendRecord_slices(2) [OF assms(1)])
  finally have l: "unat (Uint32 (subslice 4 8 (take q (AppendRecord [] r)))) = length (payload_of r)"
    using wf_record_len(2) [OF assms(1)] by (simp del: length_payload_of)
  have "q < 8 + length (payload_of r)" using assms(3) by (simp add: EncodedLen_def)
  then show ?thesis
    using False assms(3) wf_record_len(1) [OF assms(1)] unfolding DecodeRecord_def l Let_def
    by (auto simp: scan_err_def simp del: length_payload_of)
qed

lemma torn_split:
  assumes "list_all wf_record rs" "p \<le> length (enc_records rs)"
  shows "\<exists>k tr. k \<le> length rs \<and> take p (enc_records rs) = enc_records (take k rs) @ tr \<and>
    (tr = [] \<or> (\<exists>e. DecodeRecord tr (int (length tr)) = Inl e \<and> scan_err e = ErrTornTail))
    \<and> (k < length rs \<longrightarrow> p < length (enc_records (take (Suc k) rs)))"
  using assms
proof (induction rs arbitrary: p)
  case (Cons r rs)
  show ?case
  proof (cases "p < EncodedLen r")
    case True
    have "take p (AppendRecord [] r) = [] \<or> (\<exists>e. DecodeRecord (take p (AppendRecord [] r)) (int (length (take p (AppendRecord [] r)))) = Inl e
        \<and> scan_err e = ErrTornTail)"
      using torn_record [of r p] Cons.prems(1) True by (cases "p = 0") (auto simp: min_def)
    then show ?thesis using True by (intro exI [of _ 0] exI [of _ "take p (AppendRecord [] r)"]) auto
  next
    case False
    have "p - EncodedLen r \<le> length (enc_records rs)" using Cons.prems(2) by simp
    from Cons.IH [OF _ this] Cons.prems(1)
    obtain k tr where "k \<le> length rs" "take (p - EncodedLen r) (enc_records rs) = enc_records (take k rs) @ tr"
      "tr = [] \<or> (\<exists>e. DecodeRecord tr (int (length tr)) = Inl e \<and> scan_err e = ErrTornTail)"
      "k < length rs \<longrightarrow> p - EncodedLen r < length (enc_records (take (Suc k) rs))"
      by auto
    then show ?thesis using False by (intro exI [of _ "Suc k"] exI [of _ tr]) auto
  qed
qed (auto intro: exI [of _ 0])

text \<open>
  If a crash leaves only the first \<open>p\<close> bytes of a segment the writer produced, the scan delivers
  exactly the records that are complete in those bytes and reports either no fault or a torn tail, never
  corruption; the last good offset is the end of the last complete record.
\<close>

theorem ScanSegment_torn_tail:
  assumes "list_all wf_record rs" "p \<le> length (AppendRecord [] (newSegmentHeader l now) @ enc_records rs)"
    and "EncodedLen (newSegmentHeader l now) \<le> p" "\<And>r c. fst (fn r c) = None"
  shows "\<exists>k res. k \<le> length rs
    \<and> ScanSegment fn p (take p (AppendRecord [] (newSegmentHeader l now) @ enc_records rs)) c
        = (res, fold (\<lambda>r c. snd (fn r c)) (take k rs) c, None)
    \<and> scFault res \<noteq> FaultCorrupt \<and> scRecords res = k
    \<and> scLastGood res = EncodedLen (newSegmentHeader l now) + length (enc_records (take k rs)) \<and> scLastGood res \<le> p
    \<and> (k < length rs \<longrightarrow> p < EncodedLen (newSegmentHeader l now) + length (enc_records (take (Suc k) rs)))"
proof -
  let ?h = "newSegmentHeader l now"
  let ?q = "p - EncodedLen ?h"
  have q: "?q \<le> length (enc_records rs)" using assms(2) by simp
  obtain k tr where k: "k \<le> length rs" "take ?q (enc_records rs) = enc_records (take k rs) @ tr"
    "tr = [] \<or> (\<exists>e. DecodeRecord tr (int (length tr)) = Inl e \<and> scan_err e = ErrTornTail)"
    "k < length rs \<longrightarrow> ?q < length (enc_records (take (Suc k) rs))"
    using torn_split [OF assms(1) q] by blast
  let ?c = "take p (AppendRecord [] ?h @ enc_records rs)"
  have c: "?c = AppendRecord [] ?h @ enc_records (take k rs) @ tr" using k(2) assms(3) by simp
  have lc: "length ?c = p" using assms(2) by (simp only: length_take min_absorb2)
  have st: "stuck tr" using k(3) by (auto simp: stuck_def)
  have w: "list_all wf_record (take k rs)" using assms(1) by (metis append_take_drop_id list_all_append)
  have d: "deliver fn xs c = (None, fold (\<lambda>r c. snd (fn r c)) xs c)" for xs c
    using assms(4) by (induction xs arbitrary: c) (auto split: prod.splits option.splits simp: prod_eq_iff)
  obtain res where r: "ScanSegment fn p ?c c = (res, fold (\<lambda>r c. snd (fn r c)) (take k rs) c, None)"
    "res = tail_fault tr (length (AppendRecord [] ?h @ enc_records (take k rs)))
        (scanned (take k rs) (EncodedLen ?h) ((scan_start p)\<lparr>scFirstLSN := rLSN ?h, scLastGood := EncodedLen ?h\<rparr>))"
    using ScanSegment_enc [OF newSegmentHeader_wf w st d c, of c] unfolding lc by blast
  have "scFault res \<noteq> FaultCorrupt" using k(3) by (auto simp: r(2) tail_fault_def set_fault_def scanned_def scan_start_def)
  moreover have "scRecords res = k" "scLastGood res = EncodedLen ?h + length (enc_records (take k rs))"
    using k(1) by (simp_all add: r(2) scanned_def scan_start_def)
  moreover have "EncodedLen ?h + length (enc_records (take k rs)) \<le> p"
    using arg_cong [OF c, of length] unfolding lc by simp
  ultimately show ?thesis using k(1,4) r(1) assms(3) by (intro exI [of _ k] exI [of _ res]) auto
qed

lemma sample_header_len: "EncodedLen (newSegmentHeader l now) = 52"
  by (simp add: EncodedLen_def newSegmentHeader_def segmentMagic_def)

theorem ScanSegment_torn_tail_witness:
  "\<exists>res. ScanSegment (\<lambda>r acc. (None :: unit option, acc @ [r])) 60
       (take 60 (AppendRecord [] (newSegmentHeader 1 0) @ enc_records [sample_record])) [] = (res, [], None)
     \<and> scFault res \<noteq> FaultCorrupt \<and> scLastGood res = 52"
proof -
  have l: "EncodedLen sample_record = 43" by (simp add: EncodedLen_def sample_record_def)
  obtain k res where k: "k \<le> 1" "ScanSegment (\<lambda>r acc. (None :: unit option, acc @ [r])) 60
       (take 60 (AppendRecord [] (newSegmentHeader 1 0) @ enc_records [sample_record])) []
         = (res, fold (\<lambda>r c. c @ [r]) (take k [sample_record]) [], None)"
    "scFault res \<noteq> FaultCorrupt" "scLastGood res = 52 + length (enc_records (take k [sample_record]))" "scLastGood res \<le> 60"
    using ScanSegment_torn_tail [of "[sample_record]" 60 1 0 "\<lambda>r acc. (None :: unit option, acc @ [r])" "[]"]
    by (auto simp: sample_record_wf sample_header_len l)
  then have "k = 0" by (cases k) (auto simp: l)
  then show ?thesis using k by auto
qed

theorem ScanSegment_sound_witness:
  "\<exists>res. ScanSegment (\<lambda>r acc. (None :: unit option, acc @ [r])) (length [1, 2, 3 :: u8]) [1, 2, 3] [] = (res, [], None) \<and> scFault res \<noteq> FaultNone"
proof -
  obtain res c' err where s: "ScanSegment (\<lambda>r acc. (None :: unit option, acc @ [r])) (length [1, 2, 3 :: u8]) [1, 2, 3] [] = (res, c', err)"
    by (metis prod.exhaust)
  have "\<not> (\<exists>h rs tr. [1, 2, 3] = AppendRecord [] h @ enc_records rs @ tr)"
  proof
    assume "\<exists>h rs tr. [1, 2, 3] = AppendRecord [] h @ enc_records rs @ tr"
    then obtain h rs tr where "[1, 2, 3] = AppendRecord [] h @ enc_records rs @ tr" by blast
    then have "length [1, 2, 3 :: u8] = EncodedLen h + length (enc_records rs) + length tr" by simp
    then show False by (simp add: EncodedLen_def)
  qed
  with ScanSegment_sound [OF s] s show ?thesis by auto
qed

end
