(* ===== verification/Wal_Segment.thy ===== *)
theory Wal_Segment
  imports Wal_Scan
begin

text \<open>
  \<^verbatim>\<open>internal/wal/segment.go\<close> and \<^verbatim>\<open>internal/wal/recover.go\<close> on a model of the log directory. A file
  has its current bytes and the bytes that are on stable storage; a plan lists the outcomes of the
  coming system calls (an empty plan means that everything succeeds), so that every error branch of
  the code can be exercised. Directories hold no subdirectories. Two things are idealised: a crash keeps a
  prefix of the bytes appended since the last sync (no reordered or zero-filled blocks), and the removal of a file is durable at once,
  although the code syncs the directory after only some of its removals.
\<close>

section \<open>The log directory\<close>

datatype outcome = Done | Fail nat

record dfile =
  fCur :: bytes
  fDur :: bytes
  fLinked :: bool

record fs =
  files :: "(string \<times> dfile) list"
  plan :: "outcome list"

definition next_outcome :: "fs \<Rightarrow> outcome \<times> fs" where
  "next_outcome d = (case plan d of [] \<Rightarrow> (Done, d) | x # xs \<Rightarrow> (x, d\<lparr>plan := xs\<rparr>))"

definition upd_file :: "string \<Rightarrow> (dfile \<Rightarrow> dfile) \<Rightarrow> fs \<Rightarrow> fs" where
  "upd_file name f d = d\<lparr>files := map (\<lambda>(n, x). if n = name then (n, f x) else (n, x)) (files d)\<rparr>"

text \<open>\<^verbatim>\<open>os.OpenFile\<close> with \<^verbatim>\<open>O_CREATE|O_EXCL\<close>.\<close>

definition os_create :: "string \<Rightarrow> fs \<Rightarrow> bool \<times> fs" where
  "os_create name d = (case next_outcome d of
       (Fail _, d) \<Rightarrow> (False, d)
     | (Done, d) \<Rightarrow> if map_of (files d) name \<noteq> None then (False, d)
                    else (True, d\<lparr>files := files d @ [(name, \<lparr>fCur = [], fDur = [], fLinked = False\<rparr>)]\<rparr>))"

definition write_at :: "bytes \<Rightarrow> nat \<Rightarrow> bytes \<Rightarrow> bytes" where
  "write_at bs pos b = take pos bs @ replicate (pos - length bs) 0 @ b @ drop (pos + length b) bs"

text \<open>\<^verbatim>\<open>File.Write\<close> at a position: the number of bytes written and whether all went well.\<close>

definition os_write :: "string \<Rightarrow> nat \<Rightarrow> bytes \<Rightarrow> fs \<Rightarrow> nat \<times> bool \<times> fs" where
  "os_write name pos b d = (case next_outcome d of
       (Fail n, d) \<Rightarrow> (let n = min n (length b)
                       in (n, False, upd_file name (\<lambda>f. f\<lparr>fCur := write_at (fCur f) pos (take n b)\<rparr>) d))
     | (Done, d) \<Rightarrow> (length b, True, upd_file name (\<lambda>f. f\<lparr>fCur := write_at (fCur f) pos b\<rparr>) d))"

definition os_sync :: "string \<Rightarrow> fs \<Rightarrow> bool \<times> fs" where
  "os_sync name d = (case next_outcome d of
       (Fail _, d) \<Rightarrow> (False, d)
     | (Done, d) \<Rightarrow> (True, upd_file name (\<lambda>f. f\<lparr>fDur := fCur f\<rparr>) d))"

definition os_truncate :: "string \<Rightarrow> nat \<Rightarrow> fs \<Rightarrow> bool \<times> fs" where
  "os_truncate name n d = (case next_outcome d of
       (Fail _, d) \<Rightarrow> (False, d)
     | (Done, d) \<Rightarrow> (True, upd_file name (\<lambda>f. f\<lparr>fCur := take n (fCur f)\<rparr>) d))"

definition os_remove :: "string \<Rightarrow> fs \<Rightarrow> bool \<times> fs" where
  "os_remove name d = (case next_outcome d of
       (Fail _, d) \<Rightarrow> (False, d)
     | (Done, d) \<Rightarrow> (map_of (files d) name \<noteq> None, d\<lparr>files := filter (\<lambda>(n, _). n \<noteq> name) (files d)\<rparr>))"

definition os_close :: "fs \<Rightarrow> bool \<times> fs" where
  "os_close d = (case next_outcome d of (Fail _, d) \<Rightarrow> (False, d) | (Done, d) \<Rightarrow> (True, d))"

definition SyncDir :: "fs \<Rightarrow> bool \<times> fs" where
  "SyncDir d = (case next_outcome d of
       (Fail _, d) \<Rightarrow> (False, d)
     | (Done, d) \<Rightarrow> (True, d\<lparr>files := map (\<lambda>(n, f). (n, f\<lparr>fLinked := True\<rparr>)) (files d)\<rparr>))"

section \<open>Segment names\<close>

fun dec_digits :: "nat \<Rightarrow> string" where
  "dec_digits n = (if n < 10 then [char_of (48 + n)] else dec_digits (n div 10) @ [char_of (48 + n mod 10)])"

declare dec_digits.simps [simp del]

definition pad_left :: "nat \<Rightarrow> string \<Rightarrow> string" where
  "pad_left w s = replicate (w - length s) CHR ''0'' @ s"

definition SegmentName :: "u64 \<Rightarrow> string" where
  "SegmentName firstLSN = pad_left 16 (dec_digits (unat firstLSN)) @ ''.log''"

text \<open>\<^verbatim>\<open>filepath.Base\<close>: the last element of a slash-separated path.\<close>

definition filepath_Base :: "string \<Rightarrow> string" where
  "filepath_Base p =
     (if p = '''' then ''.''
      else let q = dropWhile (\<lambda>c. c = CHR ''/'') (rev p);
               b = rev (takeWhile (\<lambda>c. c \<noteq> CHR ''/'') q)
           in if b = '''' then ''/'' else b)"

text \<open>\<^verbatim>\<open>strconv.ParseUint(s, 10, 64)\<close>; \<open>None\<close> is an error.\<close>

definition is_dec :: "char \<Rightarrow> bool" where
  "is_dec c \<longleftrightarrow> 48 \<le> (of_char c :: nat) \<and> (of_char c :: nat) \<le> 57"

definition dec_value :: "string \<Rightarrow> nat" where
  "dec_value s = fold (\<lambda>c n. n * 10 + (of_char c - 48)) s 0"

definition ParseUint64 :: "string \<Rightarrow> u64 option" where
  "ParseUint64 s = (if s = '''' \<or> \<not> list_all is_dec s \<or> dec_value s \<ge> 2 ^ 64 then None else Some (word_of_nat (dec_value s)))"

definition ParseSegmentName :: "string \<Rightarrow> u64 option" where
  "ParseSegmentName name =
     (let base = filepath_Base name
      in if drop (length base - 4) base \<noteq> ''.log'' then None
         else let numPart = take (length base - 4) base
              in if length numPart \<noteq> 16 then None else ParseUint64 numPart)"

record SegmentInfo =
  siPath :: string
  siFirstLSN :: u64
  siSize :: nat

definition ListSegments :: "fs \<Rightarrow> SegmentInfo list" where
  "ListSegments d = sort_key siFirstLSN
     (List.map_filter (\<lambda>(name, f). map_option (\<lambda>lsn. \<lparr>siPath = name, siFirstLSN = lsn, siSize = length (fCur f)\<rparr>)
        (ParseSegmentName name)) (files d))"

section \<open>Segments\<close>

text \<open>\<open>sgOpen\<close>: the file handle of the segment was not closed; every call on a closed handle fails.\<close>

record segment =
  sgPath :: string
  sgFirstLSN :: u64
  sgSize :: nat
  sgOpen :: bool

definition createSegment :: "u64 \<Rightarrow> u64 \<Rightarrow> fs \<Rightarrow> segment option \<times> fs" where
  "createSegment firstLSN nowMs d =
     (let path = SegmentName firstLSN;
          (ok, d) = os_create path d
      in if \<not> ok then (None, d)
      else let hdr = AppendRecord [] (newSegmentHeader firstLSN nowMs);
               (n, ok, d) = os_write path 0 hdr d
           in if \<not> ok then (None, d)
      else let (ok, d) = os_sync path d
           in if \<not> ok then (None, d)
      else let (ok, d) = SyncDir d
           in if \<not> ok then (None, d)
      else (Some \<lparr>sgPath = path, sgFirstLSN = firstLSN, sgSize = length hdr, sgOpen = True\<rparr>, d))"

definition openSegmentForAppend :: "string \<Rightarrow> u64 \<Rightarrow> nat \<Rightarrow> fs \<Rightarrow> segment option \<times> fs" where
  "openSegmentForAppend path firstLSN offset d = (case map_of (files d) path of
       None \<Rightarrow> (None, d)
     | Some f \<Rightarrow>
         (if length (fCur f) > offset
          then let (ok, d) = os_truncate path offset d
               in if \<not> ok then (None, d)
                  else let (ok, d) = os_sync path d
                       in if \<not> ok then (None, d) else (Some \<lparr>sgPath = path, sgFirstLSN = firstLSN, sgSize = offset, sgOpen = True\<rparr>, d)
          else (Some \<lparr>sgPath = path, sgFirstLSN = firstLSN, sgSize = offset, sgOpen = True\<rparr>, d)))"

definition segment_write :: "bytes \<Rightarrow> segment \<Rightarrow> fs \<Rightarrow> bool \<times> segment \<times> fs" where
  "segment_write b s d =
     (if \<not> sgOpen s then (False, s, d)
      else let (n, ok, d) = os_write (sgPath s) (sgSize s) b d;
               s = s\<lparr>sgSize := sgSize s + n\<rparr>
           in (ok \<and> n = length b, s, d))"

definition segment_sync :: "segment \<Rightarrow> fs \<Rightarrow> bool \<times> fs" where
  "segment_sync s d = (if \<not> sgOpen s then (False, d) else os_sync (sgPath s) d)"

definition segment_close :: "segment \<Rightarrow> fs \<Rightarrow> bool \<times> segment \<times> fs" where
  "segment_close s d =
     (if \<not> sgOpen s then (False, s, d) else let (ok, d) = os_close d in (ok, s\<lparr>sgOpen := False\<rparr>, d))"

section \<open>Recovery\<close>

datatype 'e replay_error = ScanErr 'e | OpenErr | ErrCorruptMidLog nat | TruncateErr | RemoveErr

record ReplayResult =
  rpSegments :: int
  rpRecords :: nat
  rpApplied :: nat
  rpSkipped :: nat
  rpLastLSN :: u64
  rpNextLSN :: u64
  rpResumePath :: string
  rpResumeOffset :: nat
  rpTruncated :: bool
  rpTruncatedAt :: nat
  rpTruncatedPath :: string
  rpUnsafeTruncated :: bool

text \<open>The callback that \<^verbatim>\<open>Replay\<close> passes to the scanner.\<close>

definition replay_record :: "u64 \<Rightarrow> (Record \<Rightarrow> 'c \<Rightarrow> 'e option \<times> 'c) \<Rightarrow> Record \<Rightarrow> ReplayResult \<times> 'c \<Rightarrow> 'e option \<times> (ReplayResult \<times> 'c)" where
  "replay_record minLSN app r = (\<lambda>(res, c).
     let res = res\<lparr>rpRecords := rpRecords res + 1\<rparr>
     in if rLSN r \<le> minLSN then (None, res\<lparr>rpSkipped := rpSkipped res + 1\<rparr>, c)
        else case app r c of
               (Some e, c) \<Rightarrow> (Some e, res, c)
             | (None, c) \<Rightarrow> (None, res\<lparr>rpApplied := rpApplied res + 1,
                                      rpLastLSN := (if rLSN r > rpLastLSN res then rLSN r else rpLastLSN res)\<rparr>, c))"

definition truncateSegment :: "string \<Rightarrow> nat \<Rightarrow> fs \<Rightarrow> bool \<times> fs" where
  "truncateSegment path offset d =
     (let (ok, d) = os_truncate path offset d in if \<not> ok then (False, d) else os_sync path d)"

fun remove_later :: "SegmentInfo list \<Rightarrow> ReplayResult \<Rightarrow> fs \<Rightarrow> bool \<times> ReplayResult \<times> fs" where
  "remove_later [] res d = (True, res, d)"
| "remove_later (s # ss) res d =
     (let (ok, d) = os_remove (siPath s) d
      in if \<not> ok then (False, res, d) else remove_later ss (res\<lparr>rpSegments := rpSegments res - 1\<rparr>) d)"

fun replay_segs :: "u64 \<Rightarrow> bool \<Rightarrow> (Record \<Rightarrow> 'c \<Rightarrow> 'e option \<times> 'c) \<Rightarrow> SegmentInfo list \<Rightarrow> ReplayResult \<Rightarrow> fs \<Rightarrow> 'c
    \<Rightarrow> 'e replay_error option \<times> ReplayResult \<times> fs \<times> 'c" where
  "replay_segs minLSN unsafeTruncate app [] res d c = (None, res, d, c)"
| "replay_segs minLSN unsafeTruncate app (seg # later) res d c =
     (case map_of (files d) (siPath seg) of
        None \<Rightarrow> (Some OpenErr, res, d, c)
      | Some f \<Rightarrow>
         (let (scan, (res, c), err) = ScanSegment (replay_record minLSN app) (length (fCur f)) (fCur f) (res, c)
          in case err of
               Some e \<Rightarrow> (Some (ScanErr e), res, d, c)
             | None \<Rightarrow>
                 if scFault scan = FaultNone
                 then replay_segs minLSN unsafeTruncate app later
                        (res\<lparr>rpResumePath := siPath seg, rpResumeOffset := scLastGood scan\<rparr>) d c
                 else if later \<noteq> [] \<and> \<not> unsafeTruncate then (Some (ErrCorruptMidLog (scFaultOffset scan)), res, d, c)
                 else if later = [] \<and> scFault scan = FaultCorrupt \<and> \<not> unsafeTruncate
                      then (Some (ErrCorruptMidLog (scFaultOffset scan)), res, d, c)
                 else let res = (if later \<noteq> [] then res\<lparr>rpUnsafeTruncated := True\<rparr> else res);
                          (ok, d) = truncateSegment (siPath seg) (scLastGood scan) d
                      in if \<not> ok then (Some TruncateErr, res, d, c)
                 else let res = res\<lparr>rpTruncated := True, rpTruncatedAt := scLastGood scan, rpTruncatedPath := siPath seg,
                                    rpResumePath := siPath seg, rpResumeOffset := scLastGood scan\<rparr>;
                          (ok, res, d) = remove_later later res d
                      in (if ok then None else Some RemoveErr, res, d, c)))"

definition Replay :: "u64 \<Rightarrow> bool \<Rightarrow> (Record \<Rightarrow> 'c \<Rightarrow> 'e option \<times> 'c) \<Rightarrow> fs \<Rightarrow> 'c \<Rightarrow> 'e replay_error option \<times> ReplayResult \<times> fs \<times> 'c" where
  "Replay minLSN unsafeTruncate app d c =
     (let segs = ListSegments d;
          res = \<lparr>rpSegments = int (length segs), rpRecords = 0, rpApplied = 0, rpSkipped = 0, rpLastLSN = minLSN, rpNextLSN = 0,
                 rpResumePath = '''', rpResumeOffset = 0, rpTruncated = False, rpTruncatedAt = 0, rpTruncatedPath = '''',
                 rpUnsafeTruncated = False\<rparr>
      in if segs = [] then (None, res\<lparr>rpNextLSN := minLSN + 1\<rparr>, d, c)
         else case replay_segs minLSN unsafeTruncate app segs res d c of
                (Some e, res, d, c) \<Rightarrow> (Some e, res, d, c)
              | (None, res, d, c) \<Rightarrow> (None, res\<lparr>rpNextLSN := rpLastLSN res + 1\<rparr>, d, c))"

definition wal_Verify :: "fs \<Rightarrow> ScanResult list" where
  "wal_Verify d = map (\<lambda>s. case map_of (files d) (siPath s) of
       Some f \<Rightarrow> fst (ScanSegment (\<lambda>r c. (None :: unit option, c)) (length (fCur f)) (fCur f) ())
     | None \<Rightarrow> scan_start 0) (ListSegments d)"

fun truncate_below :: "u64 \<Rightarrow> SegmentInfo list \<Rightarrow> nat \<Rightarrow> fs \<Rightarrow> nat \<times> bool \<times> fs" where
  "truncate_below lastIncludedLSN (s # t # ss) removed d =
     (if siFirstLSN t > lastIncludedLSN + 1 then (removed, True, d)
      else let (ok, d) = os_remove (siPath s) d
           in if \<not> ok then (removed, False, d) else truncate_below lastIncludedLSN (t # ss) (removed + 1) d)"
| "truncate_below lastIncludedLSN ss removed d = (removed, True, d)"

definition TruncateBelow :: "u64 \<Rightarrow> fs \<Rightarrow> nat \<times> bool \<times> fs" where
  "TruncateBelow lastIncludedLSN d =
     (let (removed, ok, d) = truncate_below lastIncludedLSN (ListSegments d) 0 d
      in if \<not> ok then (removed, False, d)
         else if removed > 0 then (let (ok, d) = SyncDir d in (removed, ok, d)) else (removed, True, d))"

end
