(* ===== verification/Wal_Recover.thy ===== *)
theory Wal_Recover
  imports Wal_Segment
begin

text \<open>
  Segment names are read back, recovery replays exactly the complete records of a log after a crash
  and leaves a log that the next recovery reads the same way, and the segments removed below a
  snapshot hold nothing a later recovery needs.
\<close>

section \<open>Segment names\<close>

lemma dec_value_snoc: "dec_value (s @ [c]) = dec_value s * 10 + (of_char c - 48)"
  by (simp add: dec_value_def)

lemma dec_digit: "(d :: nat) < 10 \<Longrightarrow> (of_char (char_of (48 + d)) :: nat) = 48 + d"
  by (simp add: of_char_of)

lemma is_dec_digit: "(d :: nat) < 10 \<Longrightarrow> is_dec (char_of (48 + d))"
  by (simp add: is_dec_def)

lemma dec_digits_value: "dec_value (dec_digits n) = n" "list_all is_dec (dec_digits n)"
proof -
  have "dec_value (dec_digits n) = n \<and> list_all is_dec (dec_digits n)"
  proof (induction n rule: dec_digits.induct)
    case (1 n)
    show ?case
    proof (cases "n < 10")
      case True
      then show ?thesis using dec_digit [of n] is_dec_digit [of n] by (subst (1 2) dec_digits.simps) (simp add: dec_value_def)
    next
      case False
      then show ?thesis using 1 dec_digit [of "n mod 10"] is_dec_digit [of "n mod 10"]
        by (subst (1 2) dec_digits.simps) (simp add: dec_value_snoc)
    qed
  qed
  then show "dec_value (dec_digits n) = n" "list_all is_dec (dec_digits n)" by auto
qed

lemma dec_digits_length: "0 < w \<Longrightarrow> length (dec_digits n) \<le> w \<longleftrightarrow> n < 10 ^ w"
proof (induction n arbitrary: w rule: dec_digits.induct)
  case (1 n)
  show ?case
  proof (cases "n < 10")
    case True
    have "(10 :: nat) ^ 1 \<le> 10 ^ w" using 1(2) by (intro power_increasing) auto
    then show ?thesis using True 1(2) by (subst dec_digits.simps) auto
  next
    case False
    obtain v where w: "w = Suc v" using 1(2) by (cases w) auto
    have "n div 10 < 10 ^ v \<longleftrightarrow> n < 10 ^ w" using w by (simp add: div_less_iff_less_mult mult.commute)
    moreover have "length (dec_digits (n div 10)) \<le> v \<longleftrightarrow> n div 10 < 10 ^ v"
    proof (cases "v = 0")
      case True
      have "dec_digits (n div 10) \<noteq> []" by (subst dec_digits.simps) simp
      then show ?thesis using True False by simp
    qed (use 1(1) False in simp)
    ultimately show ?thesis using False w by (subst dec_digits.simps) simp
  qed
qed

lemma dec_value_zeros: "dec_value (replicate k CHR ''0'' @ s) = dec_value s"
proof -
  have "fold (\<lambda>c n. n * 10 + (of_char c - 48)) (replicate k CHR ''0'') 0 = (0 :: nat)" by (induction k) simp_all
  then show ?thesis by (simp add: dec_value_def)
qed

lemma filepath_Base_plain:
  assumes "p \<noteq> ''''" "CHR ''/'' \<notin> set p"
  shows "filepath_Base p = p"
proof -
  have d: "dropWhile (\<lambda>c. c = CHR ''/'') (rev p) = rev p" using assms by (cases "rev p") auto
  have t: "takeWhile (\<lambda>c. c \<noteq> CHR ''/'') (rev p) = rev p" using assms by (subst takeWhile_eq_all_conv) auto
  show ?thesis unfolding filepath_Base_def Let_def d t using assms by simp
qed

lemma is_dec_slash: "list_all is_dec s \<Longrightarrow> CHR ''/'' \<notin> set s"
  by (auto simp: list_all_iff is_dec_def)

lemma SegmentName_parts: "CHR ''/'' \<notin> set (SegmentName l)" "SegmentName l \<noteq> ''''"
  "list_all is_dec (pad_left 16 (dec_digits (unat l)))"
proof -
  show d: "list_all is_dec (pad_left 16 (dec_digits (unat l)))"
    using dec_digits_value(2) [of "unat l"] by (auto simp: pad_left_def is_dec_def list_all_iff)
  show "CHR ''/'' \<notin> set (SegmentName l)" using is_dec_slash [OF d] by (simp add: SegmentName_def)
  show "SegmentName l \<noteq> ''''" by (simp add: SegmentName_def)
qed

lemma parse_name:
  "ParseSegmentName (SegmentName l) = (if unat l < 10 ^ 16 then Some l else None)"
proof -
  let ?n = "pad_left 16 (dec_digits (unat l))"
  have b: "filepath_Base (SegmentName l) = SegmentName l" by (rule filepath_Base_plain) (simp_all add: SegmentName_parts)
  have v: "dec_value ?n = unat l" by (simp add: pad_left_def dec_value_zeros dec_digits_value)
  have l: "length ?n = 16 \<longleftrightarrow> unat l < 10 ^ 16" using dec_digits_length [of 16 "unat l"] by (auto simp: pad_left_def)
  have "unat l < 2 ^ 64" using unsigned_less [where 'a = nat, of l] by simp
  then have "length ?n = 16 \<longrightarrow> ParseUint64 ?n = Some l"
    using SegmentName_parts(3) [of l] by (auto simp: ParseUint64_def v)
  then show ?thesis unfolding ParseSegmentName_def b Let_def using l by (simp add: SegmentName_def)
qed

text \<open>
  The name of a segment is parsed back to its first LSN exactly for LSNs below \<open>10 ^ 16\<close>; a
  segment that starts later gets a name of more than sixteen digits, which no listing recognises.
\<close>

theorem ParseSegmentName_SegmentName:
  "ParseSegmentName (SegmentName l) = (if unat l < 10 ^ 16 then Some l else None)"
  by (rule parse_name)

lemma SegmentName_inj:
  assumes "SegmentName a = SegmentName b"
  shows "a = b"
proof -
  have "dec_value (pad_left 16 (dec_digits (unat a))) = dec_value (pad_left 16 (dec_digits (unat b)))"
    using assms by (simp add: SegmentName_def)
  then show ?thesis by (simp add: pad_left_def dec_value_zeros dec_digits_value word_unat_eq_iff)
qed

section \<open>Directories that hold a log\<close>

text \<open>A segment by its first LSN, its creation time and its records.\<close>

type_synonym seglog = "u64 \<times> u64 \<times> Record list"

abbreviation seg_recs :: "seglog \<Rightarrow> Record list" where "seg_recs g \<equiv> snd (snd g)"

definition seg_bytes :: "seglog \<Rightarrow> bytes" where
  "seg_bytes g = AppendRecord [] (newSegmentHeader (fst g) (fst (snd g))) @ enc_records (seg_recs g)"

abbreviation seg_file :: "seglog \<Rightarrow> u64 \<times> bytes" where "seg_file g \<equiv> (fst g, seg_bytes g)"

abbreviation wf_seg :: "seglog \<Rightarrow> bool" where "wf_seg g \<equiv> list_all wf_record (seg_recs g)"

text \<open>The directory's files are the segments with the given first LSNs and contents, in order.\<close>

definition log_dir :: "(u64 \<times> bytes) list \<Rightarrow> fs \<Rightarrow> bool" where
  "log_dir cs d \<longleftrightarrow> map (\<lambda>(n, f). (n, fCur f)) (files d) = map (\<lambda>(l, b). (SegmentName l, b)) cs
     \<and> sorted_wrt (\<lambda>a b. fst a < fst b) cs \<and> (\<forall>(l, b) \<in> set cs. unat l < 10 ^ 16)"

definition seg_info :: "u64 \<times> bytes \<Rightarrow> SegmentInfo" where
  "seg_info = (\<lambda>(l, b). \<lparr>siPath = SegmentName l, siFirstLSN = l, siSize = length b\<rparr>)"

lemma map_filter_eq_map: "(\<And>x. x \<in> set xs \<Longrightarrow> f x = Some (g x)) \<Longrightarrow> List.map_filter f xs = map g xs"
  by (induction xs) (simp_all add: List.map_filter_simps)

lemma log_dir_nth:
  assumes "log_dir cs d" "i < length cs"
  shows "length (files d) = length cs" "fst (files d ! i) = SegmentName (fst (cs ! i))" "fCur (snd (files d ! i)) = snd (cs ! i)"
proof -
  have m: "map (\<lambda>(n, f). (n, fCur f)) (files d) = map (\<lambda>(l, b). (SegmentName l, b)) cs" using assms(1) by (simp add: log_dir_def)
  then show l: "length (files d) = length cs" using map_eq_imp_length_eq by blast
  have "(\<lambda>(n, f). (n, fCur f)) (files d ! i) = (\<lambda>(l, b). (SegmentName l, b)) (cs ! i)"
    using m l assms(2) by (metis (no_types, lifting) nth_map)
  then show "fst (files d ! i) = SegmentName (fst (cs ! i))" "fCur (snd (files d ! i)) = snd (cs ! i)"
    by (auto simp: split_beta)
qed

lemma log_dir_sorted: "log_dir cs d \<Longrightarrow> sorted_wrt (<) (map fst cs)" "log_dir cs d \<Longrightarrow> x \<in> set cs \<Longrightarrow> unat (fst x) < 10 ^ 16"
  by (auto simp: log_dir_def sorted_wrt_map)

lemma log_dir_names: "log_dir cs d \<Longrightarrow> distinct (map fst (files d))"
proof -
  assume l: "log_dir cs d"
  have "map fst (files d) = map fst (map (\<lambda>(n, f). (n, fCur f)) (files d))" by (auto simp: split_beta)
  also have "\<dots> = map SegmentName (map fst cs)" using l by (auto simp: log_dir_def split_beta)
  finally show ?thesis
    using log_dir_sorted(1) [OF l] SegmentName_inj unfolding strict_sorted_iff by (auto simp: distinct_map inj_on_def)
qed

lemma log_dir_lookup:
  assumes "log_dir cs d" "(l, b) \<in> set cs"
  obtains f where "map_of (files d) (SegmentName l) = Some f" "fCur f = b"
proof -
  obtain i where i: "i < length cs" "cs ! i = (l, b)" using assms(2) by (auto simp: in_set_conv_nth)
  note n = log_dir_nth [OF assms(1) i(1)]
  have "(SegmentName l, snd (files d ! i)) \<in> set (files d)"
    using n i nth_mem [of i "files d"] by (metis fst_conv prod.collapse)
  then show ?thesis using that map_of_is_SomeI [OF log_dir_names [OF assms(1)]] n(3) i(2) by auto
qed

lemma ListSegments_log:
  assumes "log_dir cs d"
  shows "ListSegments d = map seg_info cs"
proof -
  let ?f = "\<lambda>(name, f). map_option (\<lambda>lsn. \<lparr>siPath = name, siFirstLSN = lsn, siSize = length (fCur f)\<rparr>) (ParseSegmentName name)"
  have m: "map (\<lambda>(n, f). (n, fCur f)) (files d) = map (\<lambda>(l, b). (SegmentName l, b)) cs" using assms by (simp add: log_dir_def)
  let ?g = "\<lambda>(name, b). map_option (\<lambda>lsn. \<lparr>siPath = name, siFirstLSN = lsn, siSize = length b\<rparr>) (ParseSegmentName name)"
  have "List.map_filter ?f (files d) = List.map_filter ?g (map (\<lambda>(n, f). (n, fCur f)) (files d))"
    by (simp add: map_filter_def filter_map comp_def split_beta)
  also have "\<dots> = List.map_filter (\<lambda>x. ?g ((\<lambda>(l, b). (SegmentName l, b)) x)) cs"
    unfolding m by (simp add: map_filter_def filter_map comp_def split_beta)
  also have "\<dots> = map seg_info cs"
    using log_dir_sorted(2) [OF assms] by (intro map_filter_eq_map) (auto simp: parse_name seg_info_def split_beta)
  finally have e: "List.map_filter ?f (files d) = map seg_info cs" .
  have "map siFirstLSN (map seg_info cs) = map fst cs" by (auto simp: seg_info_def split_beta)
  then have "sorted (map siFirstLSN (map seg_info cs))" using log_dir_sorted(1) [OF assms] unfolding strict_sorted_iff by argo
  then show ?thesis unfolding ListSegments_def e by (rule sort_key_id_if_sorted)
qed

section \<open>Replaying\<close>

definition replayed :: "u64 \<Rightarrow> Record list \<Rightarrow> Record list" where
  "replayed minLSN rs = filter (\<lambda>r. minLSN < rLSN r) rs"

lemma replayed_simps [simp]: "replayed m [] = []" "replayed m (r # rs) = (if m < rLSN r then r # replayed m rs else replayed m rs)"
  by (simp_all add: replayed_def)

lemma replayed_append [simp]: "replayed m (xs @ ys) = replayed m xs @ replayed m ys"
  by (simp add: replayed_def)

text \<open>The effect of the scanner's callback on the result record and on the caller's state, for an \<open>apply\<close> that never fails.\<close>

definition count_replay :: "u64 \<Rightarrow> Record list \<Rightarrow> ReplayResult \<Rightarrow> ReplayResult" where
  "count_replay m rs res = res\<lparr>rpRecords := rpRecords res + length rs, rpApplied := rpApplied res + length (replayed m rs),
     rpSkipped := rpSkipped res + length (filter (\<lambda>r. rLSN r \<le> m) rs), rpLastLSN := fold (\<lambda>r. max (rLSN r)) (replayed m rs) (rpLastLSN res)\<rparr>"

lemma count_replay_append: "count_replay m ys (count_replay m xs res) = count_replay m (xs @ ys) res"
  by (simp add: count_replay_def add.assoc)

text \<open>\<open>app\<close> accepts the records one after the other, from the given state.\<close>

fun accepts :: "(Record \<Rightarrow> 'c \<Rightarrow> 'e option \<times> 'c) \<Rightarrow> Record list \<Rightarrow> 'c \<Rightarrow> bool" where
  "accepts app [] c \<longleftrightarrow> True"
| "accepts app (r # rs) c \<longleftrightarrow> fst (app r c) = None \<and> accepts app rs (snd (app r c))"

lemma accepts_append [simp]: "accepts app (xs @ ys) c \<longleftrightarrow> accepts app xs c \<and> accepts app ys (fold (\<lambda>r c. snd (app r c)) xs c)"
  by (induction xs arbitrary: c) auto

lemma accepts_total: "\<forall>r c. fst (app r c) = None \<Longrightarrow> accepts app rs c"
  by (induction rs arbitrary: c) auto

lemma deliver_replay:
  assumes "accepts app (replayed m rs) c"
  shows "deliver (replay_record m app) rs (res, c)
    = (None, count_replay m rs res, fold (\<lambda>r c. snd (app r c)) (replayed m rs) c)"
  using assms
proof (induction rs arbitrary: res c)
  case (Cons r rs)
  have "replay_record m app r (res, c) = (None, count_replay m [r] res, fold (\<lambda>r c. snd (app r c)) (replayed m [r]) c)"
    using Cons.prems by (cases "app r c") (auto simp: replay_record_def count_replay_def max_def not_less Let_def)
  then show ?case using Cons.IH [of "fold (\<lambda>r c. snd (app r c)) (replayed m [r]) c"] Cons.prems count_replay_append [of m rs "[r]" res]
    by (simp split: if_splits)
qed (simp add: count_replay_def)

lemma scan_seg:
  assumes "wf_seg g" "accepts app (replayed m (seg_recs g)) c"
  obtains res' where "ScanSegment (replay_record m app) (length (seg_bytes g)) (seg_bytes g) (res, c)
      = (res', (count_replay m (seg_recs g) res, fold (\<lambda>r c. snd (app r c)) (replayed m (seg_recs g)) c), None)"
    "scFault res' = FaultNone" "scLastGood res' = length (seg_bytes g)"
proof -
  let ?h = "newSegmentHeader (fst g) (fst (snd g))"
  have st: "stuck []" by (simp add: stuck_def)
  have e: "seg_bytes g = AppendRecord [] ?h @ enc_records (seg_recs g) @ []" by (simp add: seg_bytes_def)
  note d = deliver_replay [OF assms(2), of res]
  from ScanSegment_enc [OF newSegmentHeader_wf assms(1) st d e]
  obtain res' where r: "ScanSegment (replay_record m app) (length (seg_bytes g)) (seg_bytes g) (res, c)
      = (res', (count_replay m (seg_recs g) res, fold (\<lambda>r c. snd (app r c)) (replayed m (seg_recs g)) c), None)"
    "res' = tail_fault [] (length (AppendRecord [] ?h @ enc_records (seg_recs g))) (scanned (seg_recs g) (EncodedLen ?h)
         ((scan_start (length (seg_bytes g)))\<lparr>scFirstLSN := rLSN ?h, scLastGood := EncodedLen ?h\<rparr>))"
    by (elim exE conjE) (rule that, assumption, simp)
  show ?thesis
    by (rule that [OF r(1)]) (simp_all add: r(2) scanned_def scan_start_def tail_fault_def seg_bytes_def)
qed

definition resume_at :: "seglog \<Rightarrow> ReplayResult \<Rightarrow> ReplayResult" where
  "resume_at g res = res\<lparr>rpResumePath := SegmentName (fst g), rpResumeOffset := length (seg_bytes g)\<rparr>"

lemma count_resume: "count_replay m rs (resume_at g res) = resume_at g (count_replay m rs res)"
  by (simp add: count_replay_def resume_at_def)

lemma resume_twice: "resume_at h (resume_at g res) = resume_at h res"
  by (simp add: resume_at_def)

text \<open>Complete segments are replayed one after the other.\<close>

lemma replay_segs_complete:
  assumes "accepts app (replayed m (concat (map seg_recs gs))) c" "\<forall>g \<in> set gs. wf_seg g"
    and "\<forall>g \<in> set gs. \<exists>f. map_of (files d) (SegmentName (fst g)) = Some f \<and> fCur f = seg_bytes g"
  shows "replay_segs m u app (map (\<lambda>g. seg_info (seg_file g)) gs @ later) res d c =
    replay_segs m u app later
      (if gs = [] then res else resume_at (last gs) (count_replay m (concat (map seg_recs gs)) res)) d
      (fold (\<lambda>r c. snd (app r c)) (replayed m (concat (map seg_recs gs))) c)"
  using assms
proof (induction gs arbitrary: res c)
  case Nil
  then show ?case by simp
next
  case (Cons g gs)
  obtain f where f: "map_of (files d) (SegmentName (fst g)) = Some f" "fCur f = seg_bytes g" using Cons.prems(3) by auto
  obtain r1 where r1: "ScanSegment (replay_record m app) (length (seg_bytes g)) (seg_bytes g) (res, c)
      = (r1, (count_replay m (seg_recs g) res, fold (\<lambda>r c. snd (app r c)) (replayed m (seg_recs g)) c), None)"
    "scFault r1 = FaultNone" "scLastGood r1 = length (seg_bytes g)"
    using scan_seg [of g app m c res] Cons.prems(1,2) by auto
  have "replay_segs m u app (map (\<lambda>g. seg_info (seg_file g)) (g # gs) @ later) res d c
    = replay_segs m u app (map (\<lambda>g. seg_info (seg_file g)) gs @ later) (resume_at g (count_replay m (seg_recs g) res)) d
        (fold (\<lambda>r c. snd (app r c)) (replayed m (seg_recs g)) c)"
    using f r1 by (simp add: seg_info_def resume_at_def)
  also have "\<dots> = replay_segs m u app later
      (if gs = [] then resume_at g (count_replay m (seg_recs g) res)
       else resume_at (last gs) (count_replay m (concat (map seg_recs gs)) (resume_at g (count_replay m (seg_recs g) res)))) d
      (fold (\<lambda>r c. snd (app r c)) (replayed m (concat (map seg_recs (g # gs)))) c)"
    using Cons by simp
  finally show ?case by (simp add: count_resume count_replay_append resume_twice del: replay_segs.simps)
qed

section \<open>Recovery after a crash\<close>

lemma no_fault_calls:
  assumes "plan d = []"
  shows "os_sync n d = (True, upd_file n (\<lambda>f. f\<lparr>fDur := fCur f\<rparr>) d)"
    "os_truncate n k d = (True, upd_file n (\<lambda>f. f\<lparr>fCur := take k (fCur f)\<rparr>) d)"
    "os_remove n d = (map_of (files d) n \<noteq> None, d\<lparr>files := filter (\<lambda>(m, _). m \<noteq> n) (files d)\<rparr>)"
    "SyncDir d = (True, d\<lparr>files := map (\<lambda>(n, f). (n, f\<lparr>fLinked := True\<rparr>)) (files d)\<rparr>)"
  using assms by (simp_all add: os_sync_def os_truncate_def os_remove_def SyncDir_def next_outcome_def)

lemma upd_file_simps [simp]:
  "plan (upd_file n f d) = plan d"
  "map_of (files (upd_file n f d)) k = (if k = n then map_option f (map_of (files d) k) else map_of (files d) k)"
proof -
  show "plan (upd_file n f d) = plan d" by (simp add: upd_file_def)
  have "map_of (map (\<lambda>(m, x). if m = n then (m, f x) else (m, x)) xs) k
     = (if k = n then map_option f (map_of xs k) else map_of xs k)" for xs
    by (induction xs) auto
  then show "map_of (files (upd_file n f d)) k = (if k = n then map_option f (map_of (files d) k) else map_of (files d) k)"
    by (simp add: upd_file_def)
qed

text \<open>Truncating the last segment of a log leaves the log with that segment shortened, durably.\<close>

lemma truncate_last:
  assumes "log_dir (cs @ [(l, b)]) d" "plan d = []"
  obtains d' where "truncateSegment (SegmentName l) k d = (True, d')" "log_dir (cs @ [(l, take k b)]) d'" "plan d' = []"
    "map_option fDur (map_of (files d') (SegmentName l)) = Some (take k b)"
proof -
  let ?n = "SegmentName l"
  define d1 where "d1 = upd_file ?n (\<lambda>f. f\<lparr>fCur := take k (fCur f)\<rparr>) d"
  define d2 where "d2 = upd_file ?n (\<lambda>f. f\<lparr>fDur := fCur f\<rparr>) d1"
  have t: "truncateSegment ?n k d = (True, d2)"
    using assms(2) by (simp add: truncateSegment_def no_fault_calls d1_def d2_def)
  let ?v = "\<lambda>(n, b). (n :: string, if n = ?n then take k b else b)"
  have "map (\<lambda>(n, f). (n, fCur f)) (files d2) = map ?v (map (\<lambda>(n, f). (n, fCur f)) (files d))"
    by (auto simp: d2_def d1_def upd_file_def)
  also have "\<dots> = map (\<lambda>(l, b). (SegmentName l, b)) (cs @ [(l, take k b)])"
  proof -
    have "fst x \<noteq> l" if "x \<in> set cs" for x
      using assms(1) that by (auto simp: log_dir_def sorted_wrt_append)
    then have ne: "SegmentName (fst x) \<noteq> SegmentName l" if "x \<in> set cs" for x using that SegmentName_inj by blast
    have "map (\<lambda>(n, f). (n, fCur f)) (files d) = map (\<lambda>(l, b). (SegmentName l, b)) (cs @ [(l, b)])"
      using assms(1) unfolding log_dir_def by blast
    then show ?thesis using ne by (auto simp: comp_def)
  qed
  finally have "log_dir (cs @ [(l, take k b)]) d2" using assms(1) by (auto simp: log_dir_def sorted_wrt_append)
  moreover have "map_option fDur (map_of (files d2) ?n) = Some (take k b)"
  proof -
    obtain f where "map_of (files d) ?n = Some f" "fCur f = b" by (rule log_dir_lookup [OF assms(1), of l b]) auto
    then show ?thesis by (simp add: d2_def d1_def)
  qed
  ultimately show thesis using that t assms(2) by (simp add: d2_def d1_def)
qed

lemma Replay_complete:
  assumes "log_dir (map seg_file gs) d" "gs \<noteq> []" "\<forall>g \<in> set gs. wf_seg g" "accepts app (replayed m (concat (map seg_recs gs))) c"
  shows "\<exists>res. Replay m u app d c = (None, res, d, fold (\<lambda>r c. snd (app r c)) (replayed m (concat (map seg_recs gs))) c)
    \<and> rpLastLSN res = fold (\<lambda>r. max (rLSN r)) (replayed m (concat (map seg_recs gs))) m
    \<and> rpNextLSN res = rpLastLSN res + 1
    \<and> rpResumePath res = SegmentName (fst (last gs)) \<and> rpResumeOffset res = length (seg_bytes (last gs))
    \<and> \<not> rpTruncated res"
proof -
  have L: "ListSegments d = map (\<lambda>g. seg_info (seg_file g)) gs @ []" using ListSegments_log [OF assms(1)] by simp
  have "\<exists>f. map_of (files d) (SegmentName (fst g)) = Some f \<and> fCur f = seg_bytes g" if "g \<in> set gs" for g
    using log_dir_lookup [OF assms(1), of "fst g" "seg_bytes g"] that by (metis (no_types, lifting) image_eqI list.set_map)
  then show ?thesis
    unfolding Replay_def L Let_def
    using assms(2) replay_segs_complete [OF assms(4,3), of d u "[]"]
    by (auto simp: resume_at_def count_replay_def)
qed

lemma count_truncated: "rpLastLSN (count_replay m rs res) = fold (\<lambda>r. max (rLSN r)) (replayed m rs) (rpLastLSN res)"
  by (simp add: count_replay_def)

text \<open>The last segment of a log, cut after \<open>p\<close> bytes.\<close>

lemma scan_cut:
  assumes "wf_seg (l, t, rs)" "accepts app (replayed m rs) c" "EncodedLen (newSegmentHeader l t) \<le> p" "p \<le> length (seg_bytes (l, t, rs))"
  obtains k res' where "k \<le> length rs"
    "ScanSegment (replay_record m app) (length (take p (seg_bytes (l, t, rs)))) (take p (seg_bytes (l, t, rs))) (res, c)
      = (res', (count_replay m (take k rs) res, fold (\<lambda>r c. snd (app r c)) (replayed m (take k rs)) c), None)"
    "scFault res' \<noteq> FaultCorrupt" "scLastGood res' = length (seg_bytes (l, t, take k rs))"
    "scFault res' = FaultNone \<longrightarrow> take p (seg_bytes (l, t, rs)) = seg_bytes (l, t, take k rs)"
    "k < length rs \<longrightarrow> p < length (seg_bytes (l, t, take (Suc k) rs))" "length (seg_bytes (l, t, take k rs)) \<le> p"
    "take (length (seg_bytes (l, t, take k rs))) (seg_bytes (l, t, rs)) = seg_bytes (l, t, take k rs)"
proof -
  let ?h = "newSegmentHeader l t"
  let ?q = "p - EncodedLen ?h"
  have w: "list_all wf_record rs" using assms(1) by simp
  have q: "?q \<le> length (enc_records rs)" using assms(4) by (simp add: seg_bytes_def)
  obtain k tr where k: "k \<le> length rs" "take ?q (enc_records rs) = enc_records (take k rs) @ tr"
    "tr = [] \<or> (\<exists>e. DecodeRecord tr (int (length tr)) = Inl e \<and> scan_err e = ErrTornTail)"
    "k < length rs \<longrightarrow> ?q < length (enc_records (take (Suc k) rs))"
    using torn_split [OF w q] by blast
  let ?c = "take p (seg_bytes (l, t, rs))"
  have c: "?c = AppendRecord [] ?h @ enc_records (take k rs) @ tr" using k(2) assms(3) by (simp add: seg_bytes_def)
  have st: "stuck tr" using k(3) by (auto simp: stuck_def)
  have wk: "list_all wf_record (take k rs)" using w by (metis append_take_drop_id list_all_append)
  have "accepts app (replayed m (take k rs @ drop k rs)) c" using assms(2) by simp
  then have "accepts app (replayed m (take k rs)) c" by (simp only: replayed_append accepts_append)
  note d = deliver_replay [OF this, of res]
  from ScanSegment_enc [OF newSegmentHeader_wf wk st d c]
  obtain res' where r: "ScanSegment (replay_record m app) (length ?c) ?c (res, c)
      = (res', (count_replay m (take k rs) res, fold (\<lambda>r c. snd (app r c)) (replayed m (take k rs)) c), None)"
    "res' = tail_fault tr (length (AppendRecord [] ?h @ enc_records (take k rs))) (scanned (take k rs) (EncodedLen ?h)
         ((scan_start (length ?c))\<lparr>scFirstLSN := rLSN ?h, scLastGood := EncodedLen ?h\<rparr>))"
    by (elim exE conjE) (rule that, assumption, simp)
  have f: "scFault res' = FaultNone \<longleftrightarrow> tr = []" unfolding r(2) by (rule tail_fault_None [OF st]) (simp add: scanned_def scan_start_def)
  have nc: "scFault res' \<noteq> FaultCorrupt"
    using k(3) by (auto simp: r(2) tail_fault_def set_fault_def scanned_def scan_start_def)
  have lc: "length ?c = p" using assms(4) by simp
  have le: "length (seg_bytes (l, t, take k rs)) \<le> p"
    using arg_cong [OF c, of length] unfolding lc by (simp add: seg_bytes_def)
  have "enc_records rs = enc_records (take k rs) @ enc_records (drop k rs)"
    by (metis append_take_drop_id enc_records_simps(3))
  then have pre: "take (length (seg_bytes (l, t, take k rs))) (seg_bytes (l, t, rs)) = seg_bytes (l, t, take k rs)"
    by (simp add: seg_bytes_def)
  have nx: "k < length rs \<longrightarrow> p < length (seg_bytes (l, t, take (Suc k) rs))" using k(4) assms(3) by (auto simp: seg_bytes_def)
  have lg: "scLastGood res' = length (seg_bytes (l, t, take k rs))" by (simp add: r(2) scanned_def seg_bytes_def)
  have fn: "scFault res' = FaultNone \<longrightarrow> ?c = seg_bytes (l, t, take k rs)" using f c by (simp add: seg_bytes_def)
  show thesis by (rule that [OF k(1) r(1) nc lg fn nx le pre])
qed

lemma log_dir_lookups:
  assumes "log_dir (map seg_file gs @ cs) d" "g \<in> set gs"
  shows "\<exists>f. map_of (files d) (SegmentName (fst g)) = Some f \<and> fCur f = seg_bytes g"
  using log_dir_lookup [OF assms(1), of "fst g" "seg_bytes g"] assms(2) by (metis (no_types, lifting) Un_iff image_eqI list.set_map set_append)

lemma Replay_cut:
  assumes "log_dir (map seg_file gs @ [(l, take p (seg_bytes (l, t, rs)))]) d" "plan d = []"
    and "\<forall>g \<in> set gs. wf_seg g" "wf_seg (l, t, rs)" "accepts app (replayed m (concat (map seg_recs gs) @ rs)) c"
    and "EncodedLen (newSegmentHeader l t) \<le> p" "p \<le> length (seg_bytes (l, t, rs))"
  shows "\<exists>k res d'. k \<le> length rs
    \<and> Replay m u app d c = (None, res, d', fold (\<lambda>r c. snd (app r c)) (replayed m (concat (map seg_recs gs) @ take k rs)) c)
    \<and> rpLastLSN res = fold (\<lambda>r. max (rLSN r)) (replayed m (concat (map seg_recs gs) @ take k rs)) m \<and> rpNextLSN res = rpLastLSN res + 1
    \<and> rpResumePath res = SegmentName l \<and> rpResumeOffset res = length (seg_bytes (l, t, take k rs))
    \<and> log_dir (map seg_file (gs @ [(l, t, take k rs)])) d' \<and> plan d' = [] \<and> length (seg_bytes (l, t, take k rs)) \<le> p
    \<and> (k < length rs \<longrightarrow> p < length (seg_bytes (l, t, take (Suc k) rs)))"
proof -
  let ?c = "take p (seg_bytes (l, t, rs))"
  let ?res0 = "\<lparr>rpSegments = int (length (map seg_file gs @ [(l, ?c)])), rpRecords = 0, rpApplied = 0, rpSkipped = 0, rpLastLSN = m,
      rpNextLSN = 0, rpResumePath = '''', rpResumeOffset = 0, rpTruncated = False, rpTruncatedAt = 0, rpTruncatedPath = '''',
      rpUnsafeTruncated = False\<rparr>"
  let ?ap = "\<lambda>rs c. fold (\<lambda>r c. snd (app r c)) (replayed m rs) c"
  define res1 where "res1 = (if gs = [] then ?res0 else resume_at (last gs) (count_replay m (concat (map seg_recs gs)) ?res0))"
  define c1 where "c1 = ?ap (concat (map seg_recs gs)) c"
  have acc: "accepts app (replayed m (concat (map seg_recs gs))) c" "accepts app (replayed m rs) c1" using assms(5) by (simp_all add: c1_def)
  obtain f where f: "map_of (files d) (SegmentName l) = Some f" "fCur f = ?c"
    by (rule log_dir_lookup [OF assms(1), of l ?c]) auto
  obtain k sc where k: "k \<le> length rs"
    "ScanSegment (replay_record m app) (length ?c) ?c (res1, c1) = (sc, (count_replay m (take k rs) res1, ?ap (take k rs) c1), None)"
    "scFault sc \<noteq> FaultCorrupt" "scLastGood sc = length (seg_bytes (l, t, take k rs))"
    "scFault sc = FaultNone \<longrightarrow> ?c = seg_bytes (l, t, take k rs)"
    "k < length rs \<longrightarrow> p < length (seg_bytes (l, t, take (Suc k) rs))" "length (seg_bytes (l, t, take k rs)) \<le> p"
    "take (length (seg_bytes (l, t, take k rs))) (seg_bytes (l, t, rs)) = seg_bytes (l, t, take k rs)"
    by (rule scan_cut [OF assms(4) acc(2) assms(6,7)])
  have L: "ListSegments d = map (\<lambda>g. seg_info (seg_file g)) gs @ [seg_info (l, ?c)]"
    using ListSegments_log [OF assms(1)] by simp
  note C = replay_segs_complete [OF acc(1) assms(3), of d u "[seg_info (l, ?c)]" ?res0]
  have s1: "replay_segs m u app (ListSegments d) ?res0 d c = replay_segs m u app [seg_info (l, ?c)] res1 d c1"
    unfolding L res1_def c1_def using C log_dir_lookups [OF assms(1)] by simp
  have last: "rpLastLSN (count_replay m (take k rs) res1) = fold (\<lambda>r. max (rLSN r)) (replayed m (concat (map seg_recs gs) @ take k rs)) m"
    by (simp add: count_replay_def res1_def resume_at_def)
  have cc: "?ap (take k rs) c1 = ?ap (concat (map seg_recs gs) @ take k rs) c" by (simp add: c1_def)
  show ?thesis
  proof (cases "scFault sc = FaultNone")
    case True
    have "replay_segs m u app [seg_info (l, ?c)] res1 d c1
        = (None, resume_at (l, t, take k rs) (count_replay m (take k rs) res1), d, ?ap (take k rs) c1)"
      using f k(2,4) True by (simp add: seg_info_def resume_at_def)
    moreover have "log_dir (map seg_file (gs @ [(l, t, take k rs)])) d" using assms(1) k(5) True by simp
    ultimately show ?thesis
      unfolding Replay_def Let_def using s1 L last cc k(1,6,7) assms(2)
      by (intro exI [of _ k]) (auto simp: resume_at_def)
  next
    case False
    obtain d' where d': "truncateSegment (SegmentName l) (scLastGood sc) d = (True, d')"
      "log_dir (map seg_file gs @ [(l, take (scLastGood sc) ?c)]) d'" "plan d' = []"
      by (rule truncate_last [OF assms(1,2)])
    have cut: "take (scLastGood sc) ?c = seg_bytes (l, t, take k rs)" using k(4,7,8) by (simp add: min_absorb1)
    let ?r = "(count_replay m (take k rs) res1)\<lparr>rpTruncated := True, rpTruncatedAt := scLastGood sc, rpTruncatedPath := SegmentName l,
        rpResumePath := SegmentName l, rpResumeOffset := scLastGood sc\<rparr>"
    have "replay_segs m u app [seg_info (l, ?c)] res1 d c1 = (None, ?r, d', ?ap (take k rs) c1)"
      using f k(2,3,4) False d'(1) by (simp add: seg_info_def)
    moreover have "log_dir (map seg_file (gs @ [(l, t, take k rs)])) d'" using d'(2) cut by simp
    ultimately show ?thesis
      unfolding Replay_def Let_def using s1 L last cc k(1,4,6,7) d'(3)
      by (intro exI [of _ k]) auto
  qed
qed

text \<open>
  C7. After a crash that leaves a log's last segment cut anywhere behind its header, recovery
  succeeds: it applies, in order, the records above the given LSN of all earlier segments and of the
  complete part of the last one. It leaves a log that consists of exactly those records, the writer
  resumes behind the last of them, and a second recovery gives the same result.
\<close>

theorem Replay_after_crash:
  assumes "log_dir (map seg_file gs @ [(l, take p (seg_bytes (l, t, rs)))]) d" "plan d = []"
    and "\<forall>g \<in> set gs. wf_seg g" "wf_seg (l, t, rs)" "\<forall>r c. fst (app r c) = None"
    and "EncodedLen (newSegmentHeader l t) \<le> p" "p \<le> length (seg_bytes (l, t, rs))"
  shows "\<exists>k res res2 d' c'. k \<le> length rs \<and> c' = fold (\<lambda>r c. snd (app r c)) (replayed m (concat (map seg_recs gs) @ take k rs)) c
    \<and> Replay m u app d c = (None, res, d', c') \<and> log_dir (map seg_file (gs @ [(l, t, take k rs)])) d'
    \<and> rpNextLSN res = fold (\<lambda>r. max (rLSN r)) (replayed m (concat (map seg_recs gs) @ take k rs)) m + 1
    \<and> rpResumePath res = SegmentName l \<and> rpResumeOffset res = length (seg_bytes (l, t, take k rs))
    \<and> length (seg_bytes (l, t, take k rs)) \<le> p \<and> (k < length rs \<longrightarrow> p < length (seg_bytes (l, t, take (Suc k) rs)))
    \<and> Replay m u app d' c = (None, res2, d', c')"
proof -
  obtain k res d' where k: "k \<le> length rs"
    "Replay m u app d c = (None, res, d', fold (\<lambda>r c. snd (app r c)) (replayed m (concat (map seg_recs gs) @ take k rs)) c)"
    "rpLastLSN res = fold (\<lambda>r. max (rLSN r)) (replayed m (concat (map seg_recs gs) @ take k rs)) m" "rpNextLSN res = rpLastLSN res + 1"
    "rpResumePath res = SegmentName l" "rpResumeOffset res = length (seg_bytes (l, t, take k rs))"
    "log_dir (map seg_file (gs @ [(l, t, take k rs)])) d'" "k < length rs \<longrightarrow> p < length (seg_bytes (l, t, take (Suc k) rs))"
    "length (seg_bytes (l, t, take k rs)) \<le> p"
    using Replay_cut [OF assms(1-4) accepts_total [OF assms(5)] assms(6,7), where m = m and u = u and c = c] by blast
  have "\<forall>g \<in> set (gs @ [(l, t, take k rs)]). wf_seg g"
    using assms(3,4) by (auto simp: list_all_iff dest: in_set_takeD)
  from Replay_complete [OF k(7) _ this accepts_total [OF assms(5)], where m = m and u = u and c = c] obtain res2 where
    "Replay m u app d' c = (None, res2, d', fold (\<lambda>r c. snd (app r c)) (replayed m (concat (map seg_recs gs) @ take k rs)) c)"
    by auto
  then show ?thesis using k by auto
qed

definition cut_dir :: fs where
  "cut_dir = \<lparr>files = [(SegmentName 1, \<lparr>fCur = take 60 (seg_bytes (1, 0, [sample_record])), fDur = [], fLinked = True\<rparr>)], plan = []\<rparr>"

theorem Replay_after_crash_witness:
  "\<exists>res d'. Replay 0 False (\<lambda>r c. (None :: unit option, c @ [rLSN r])) cut_dir [] = (None, res, d', []) \<and> rpNextLSN res = 1"
proof -
  have l: "EncodedLen sample_record = 43" by (simp add: EncodedLen_def sample_record_def)
  have d: "log_dir (map seg_file [] @ [(1, take 60 (seg_bytes (1, 0, [sample_record])))]) cut_dir" "plan cut_dir = []"
    by (simp_all add: log_dir_def cut_dir_def)
  have e: "length (seg_bytes (1, 0, [sample_record])) = 95" by (simp add: seg_bytes_def sample_header_len l)
  have w: "\<forall>g \<in> set []. wf_seg g" "wf_seg (1, 0, [sample_record])" by (simp_all add: sample_record_wf)
  have ap: "\<forall>r c. fst ((\<lambda>r c. (None :: unit option, c @ [rLSN r])) r c) = None" by simp
  obtain k res res2 d' c' where k: "k \<le> length [sample_record]"
    "c' = fold (\<lambda>r c. snd (None :: unit option, c @ [rLSN r])) (replayed 0 (concat (map seg_recs []) @ take k [sample_record])) []"
    "Replay 0 False (\<lambda>r c. (None :: unit option, c @ [rLSN r])) cut_dir [] = (None, res, d', c')"
    "log_dir (map seg_file ([] @ [(1, 0, take k [sample_record])])) d'"
    "rpNextLSN res = fold (\<lambda>r. max (rLSN r)) (replayed 0 (concat (map seg_recs []) @ take k [sample_record])) 0 + 1"
    "length (seg_bytes (1, 0, take k [sample_record])) \<le> 60"
    using Replay_after_crash [OF d w ap, where m = 0 and u = False and c = "[]"] e by (simp only: sample_header_len) auto
  have "k = 0" using k(1,6) e by (cases k) auto
  then show ?thesis using k by auto
qed

section \<open>Removing segments below a snapshot\<close>

text \<open>Every record of a segment is below the first LSN of the next one.\<close>

fun seg_ordered :: "seglog list \<Rightarrow> bool" where
  "seg_ordered (g # h # gs) \<longleftrightarrow> (\<forall>r \<in> set (seg_recs g). rLSN r < fst h) \<and> seg_ordered (h # gs)"
| "seg_ordered _ \<longleftrightarrow> True"

lemma remove_first:
  assumes "log_dir ((l, b) # cs) d" "plan d = []"
  obtains d' where "os_remove (SegmentName l) d = (True, d')" "log_dir cs d'" "plan d' = []"
proof -
  obtain f where "map_of (files d) (SegmentName l) = Some f" by (rule log_dir_lookup [OF assms(1), of l b]) auto
  moreover define d' where "d' = d\<lparr>files := filter (\<lambda>(m, _). m \<noteq> SegmentName l) (files d)\<rparr>"
  ultimately have "os_remove (SegmentName l) d = (True, d')" using assms(2) by (simp add: no_fault_calls)
  moreover have "log_dir cs d'"
  proof -
    have m: "map (\<lambda>(n, f). (n, fCur f)) (files d) = map (\<lambda>(l, b). (SegmentName l, b)) ((l, b) # cs)"
      using assms(1) unfolding log_dir_def by blast
    have ne: "SegmentName (fst x) \<noteq> SegmentName l" if "x \<in> set cs" for x
      using assms(1) that SegmentName_inj [of "fst x" l] by (auto simp: log_dir_def)
    have "map (\<lambda>(n, f). (n, fCur f)) (files d') = filter (\<lambda>(m, _). m \<noteq> SegmentName l) (map (\<lambda>(n, f). (n, fCur f)) (files d))"
      by (simp add: d'_def filter_map comp_def case_prod_beta')
    also have "\<dots> = map (\<lambda>(l, b). (SegmentName l, b)) cs"
      unfolding m using ne by (auto simp: filter_map comp_def case_prod_beta' intro: filter_True)
    finally show ?thesis using assms(1) by (simp add: log_dir_def)
  qed
  moreover have "plan d' = []" using assms(2) by (simp add: d'_def)
  ultimately show thesis by (rule that)
qed

lemma truncate_below_spec:
  assumes "log_dir (map seg_file gs) d" "plan d = []" "seg_ordered gs" "unat m + 1 < 2 ^ 64"
  shows "\<exists>j d'. truncate_below m (map (\<lambda>g. seg_info (seg_file g)) gs) n d = (n + j, True, d') \<and> log_dir (map seg_file (drop j gs)) d'
    \<and> plan d' = [] \<and> replayed m (concat (map seg_recs (drop j gs))) = replayed m (concat (map seg_recs gs)) \<and> (gs \<noteq> [] \<longrightarrow> j < length gs)"
  using assms(1-3)
proof (induction gs arbitrary: n d rule: seg_ordered.induct)
  case (1 g h gs)
  show ?case
  proof (cases "fst h > m + 1")
    case True
    then show ?thesis using 1 by (intro exI [of _ 0] exI [of _ d]) (simp add: seg_info_def)
  next
    case False
    obtain d1 where d1: "os_remove (SegmentName (fst g)) d = (True, d1)" "log_dir (map seg_file (h # gs)) d1" "plan d1 = []"
      using remove_first [of "fst g" "seg_bytes g" "map seg_file (h # gs)" d] 1(2,3) by auto
    obtain j d' where j: "truncate_below m (map (\<lambda>g. seg_info (seg_file g)) (h # gs)) (n + 1) d1 = (n + 1 + j, True, d')"
      "log_dir (map seg_file (drop j (h # gs))) d'" "plan d' = []"
      "replayed m (concat (map seg_recs (drop j (h # gs)))) = replayed m (concat (map seg_recs (h # gs)))" "j < length (h # gs)"
      using 1(1) [OF d1(2,3), of "n + 1"] 1(4) by auto
    have "unat (m + 1) = unat m + 1" using assms(4) by (simp add: unat_word_ariths(1))
    then have "r \<in> set (seg_recs g) \<Longrightarrow> \<not> m < rLSN r" for r
      using False 1(4) by (fastforce simp: word_less_nat_alt)
    then have "replayed m (seg_recs g) = []" by (auto simp: replayed_def filter_empty_conv)
    then show ?thesis using j d1(1) False by (intro exI [of _ "Suc j"] exI [of _ d']) (simp add: seg_info_def)
  qed
qed (auto intro: exI [of _ 0])

text \<open>
  C12. Deleting segments below a snapshot loses nothing that a recovery from that snapshot needs: at
  least one segment stays, and replaying the remaining segments above the snapshot's LSN applies the
  same records and resumes at the same place as replaying the whole log.
\<close>

theorem TruncateBelow_safe:
  assumes "log_dir (map seg_file gs) d" "plan d = []" "seg_ordered gs" "gs \<noteq> []" "\<forall>g \<in> set gs. wf_seg g" "unat m + 1 < 2 ^ 64"
    and "\<forall>r c. fst (app r c) = None"
  shows "\<exists>n d' res res'. TruncateBelow m d = (n, True, d') \<and> n < length gs \<and> log_dir (map seg_file (drop n gs)) d'
    \<and> Replay m u app d c = (None, res, d, fold (\<lambda>r c. snd (app r c)) (replayed m (concat (map seg_recs gs))) c)
    \<and> Replay m u app d' c = (None, res', d', fold (\<lambda>r c. snd (app r c)) (replayed m (concat (map seg_recs gs))) c)
    \<and> rpNextLSN res' = rpNextLSN res \<and> rpResumePath res' = rpResumePath res \<and> rpResumeOffset res' = rpResumeOffset res"
proof -
  have L: "ListSegments d = map (\<lambda>g. seg_info (seg_file g)) gs" using ListSegments_log [OF assms(1)] by simp
  obtain j d1 where j: "truncate_below m (map (\<lambda>g. seg_info (seg_file g)) gs) 0 d = (j, True, d1)" "log_dir (map seg_file (drop j gs)) d1"
    "plan d1 = []" "replayed m (concat (map seg_recs (drop j gs))) = replayed m (concat (map seg_recs gs))" "j < length gs"
    using truncate_below_spec [OF assms(1-3,6), of 0] assms(4) by auto
  define d' where "d' = (if j > 0 then d1\<lparr>files := map (\<lambda>(n, f). (n, f\<lparr>fLinked := True\<rparr>)) (files d1)\<rparr> else d1)"
  have "TruncateBelow m d = (j, True, d')" using j(1,3) by (simp add: TruncateBelow_def L no_fault_calls d'_def)
  moreover have ld: "log_dir (map seg_file (drop j gs)) d'"
    using j(2) by (simp add: log_dir_def d'_def comp_def case_prod_beta')
  have dr: "drop j gs \<noteq> []" "\<forall>g \<in> set (drop j gs). wf_seg g" "last (drop j gs) = last gs"
    using j(5) assms(5) in_set_dropD by (auto simp: last_drop) fastforce
  obtain r1 where "Replay m u app d c = (None, r1, d, fold (\<lambda>r c. snd (app r c)) (replayed m (concat (map seg_recs gs))) c)"
    "rpLastLSN r1 = fold (\<lambda>r. max (rLSN r)) (replayed m (concat (map seg_recs gs))) m" "rpNextLSN r1 = rpLastLSN r1 + 1"
    "rpResumePath r1 = SegmentName (fst (last gs))" "rpResumeOffset r1 = length (seg_bytes (last gs))"
    using Replay_complete [OF assms(1,4,5) accepts_total [OF assms(7)], where m = m and u = u and c = c] by blast
  moreover obtain r2 where "Replay m u app d' c = (None, r2, d', fold (\<lambda>r c. snd (app r c)) (replayed m (concat (map seg_recs gs))) c)"
    "rpLastLSN r2 = fold (\<lambda>r. max (rLSN r)) (replayed m (concat (map seg_recs gs))) m" "rpNextLSN r2 = rpLastLSN r2 + 1"
    "rpResumePath r2 = SegmentName (fst (last gs))" "rpResumeOffset r2 = length (seg_bytes (last gs))"
    using Replay_complete [OF ld dr(1,2) accepts_total [OF assms(7)], where m = m and u = u and c = c] unfolding j(4) dr(3) by blast
  ultimately show ?thesis using j(5) ld by (intro exI [of _ j] exI [of _ d'] exI [of _ r1] exI [of _ r2]) simp
qed

definition two_segments :: "seglog list" where
  "two_segments = [(1, 0, [sample_record]), (8, 0, [])]"

definition two_dir :: fs where
  "two_dir = \<lparr>files = map (\<lambda>g. (SegmentName (fst g), \<lparr>fCur = seg_bytes g, fDur = seg_bytes g, fLinked = True\<rparr>)) two_segments, plan = []\<rparr>"

theorem TruncateBelow_safe_witness:
  "\<exists>n d' res'. TruncateBelow 7 two_dir = (n, True, d') \<and> n < 2
     \<and> Replay 7 False (\<lambda>r c. (None :: unit option, c @ [rLSN r])) d' [] = (None, res', d', [])"
proof -
  have d: "log_dir (map seg_file two_segments) two_dir" "plan two_dir = []"
    by (simp_all add: log_dir_def two_dir_def two_segments_def)
  have g: "seg_ordered two_segments" "two_segments \<noteq> []" "\<forall>g \<in> set two_segments. wf_seg g" "unat (7 :: u64) + 1 < 2 ^ 64"
    by (simp_all add: two_segments_def sample_record_wf) (simp add: sample_record_def)
  have ap: "\<forall>r c. fst ((\<lambda>r c. (None :: unit option, c @ [rLSN r])) r c) = None" by simp
  have e: "replayed 7 (concat (map seg_recs two_segments)) = []" by (simp add: two_segments_def sample_record_def)
  show ?thesis
    using TruncateBelow_safe [OF d g ap, where u = False and c = "[]"] unfolding e by (auto simp: two_segments_def)
qed

end
