(* ===== verification/Wal_Writer.thy ===== *)
theory Wal_Writer
  imports Wal_Recover "HOL-Library.Sublist"
begin

text \<open>
  \<^verbatim>\<open>internal/wal/writer.go\<close>: the group-commit log writer. The channel of submissions is a list, the
  handles that callers wait on are the list of finished commits (LSN and success), and the single
  writer goroutine is a function that takes a batch off the queue. The clock is an argument.
\<close>

section \<open>Options\<close>

abbreviation FsyncAlways :: string where "FsyncAlways \<equiv> ''always''"
abbreviation FsyncEverySec :: string where "FsyncEverySec \<equiv> ''everysec''"
abbreviation FsyncNo :: string where "FsyncNo \<equiv> ''no''"

record wal_Options =
  woFsync :: string
  woSegmentSize :: int
  woGroupCommitMax :: int
  woGroupCommitWait :: int
  woQueueDepth :: int
  woStartLSN :: u64
  woResumePath :: string
  woResumeOffset :: nat

definition wal_withDefaults :: "wal_Options \<Rightarrow> wal_Options" where
  "wal_withDefaults o1 =
     (let o1 = (if woFsync o1 = '''' then o1\<lparr>woFsync := FsyncEverySec\<rparr> else o1);
          o1 = (if woSegmentSize o1 \<le> 0 then o1\<lparr>woSegmentSize := 67108864\<rparr> else o1);
          o1 = (if woGroupCommitMax o1 \<le> 0 then o1\<lparr>woGroupCommitMax := 1024\<rparr> else o1);
          o1 = (if woGroupCommitWait o1 \<le> 0 then o1\<lparr>woGroupCommitWait := 200000\<rparr> else o1);
          o1 = (if woQueueDepth o1 \<le> 0 then o1\<lparr>woQueueDepth := 8192\<rparr> else o1)
      in if woStartLSN o1 = 0 then o1\<lparr>woStartLSN := 1\<rparr> else o1)"

section \<open>The writer\<close>

record wal_Writer =
  wwO :: wal_Options
  wwQueue :: "Record list"
  wwSeg :: segment
  wwClosed :: bool
  wwNextLSN :: u64
  wwDurableLSN :: u64
  wwWrittenLSN :: u64
  wwRecords :: u64
  wwBatches :: u64
  wwBytes :: u64
  wwFsyncs :: u64
  wwRotations :: u64
  wwPendingSync :: bool
  wwTicker :: bool
  wwFatal :: bool
  wwCommits :: "(u64 \<times> bool) list"

text \<open>\<open>wwTicker\<close> says whether the goroutine \<^verbatim>\<open>everySecLoop\<close> runs.\<close>

definition commit_finish :: "u64 \<Rightarrow> bool \<Rightarrow> (u64 \<times> bool) list \<Rightarrow> (u64 \<times> bool) list" where
  "commit_finish lsn ok cs = (if lsn \<in> fst ` set cs then cs else cs @ [(lsn, ok)])"

definition setFatal :: "wal_Writer \<Rightarrow> wal_Writer" where
  "setFatal w = w\<lparr>wwFatal := True\<rparr>"

definition wal_Open :: "wal_Options \<Rightarrow> u64 \<Rightarrow> fs \<Rightarrow> wal_Writer option \<times> fs" where
  "wal_Open o1 nowMs d =
     (let o1 = wal_withDefaults o1;
          (seg, d) = (if woResumePath o1 \<noteq> ''''
                      then openSegmentForAppend (woResumePath o1)
                             (case ParseSegmentName (woResumePath o1) of Some l \<Rightarrow> l | None \<Rightarrow> 0) (woResumeOffset o1) d
                      else createSegment (woStartLSN o1) nowMs d)
      in case seg of
           None \<Rightarrow> (None, d)
         | Some seg \<Rightarrow>
             (Some \<lparr>wwO = o1, wwQueue = [], wwSeg = seg, wwClosed = False, wwNextLSN = woStartLSN o1,
                    wwDurableLSN = woStartLSN o1 - 1, wwWrittenLSN = woStartLSN o1 - 1, wwRecords = 0, wwBatches = 0,
                    wwBytes = 0, wwFsyncs = 0, wwRotations = 0, wwPendingSync = False,
                    wwTicker = (woFsync o1 = FsyncEverySec), wwFatal = False, wwCommits = []\<rparr>, d))"

definition wal_NextLSN :: "wal_Writer \<Rightarrow> u64" where "wal_NextLSN w = wwNextLSN w"
definition wal_LastLSN :: "wal_Writer \<Rightarrow> u64" where "wal_LastLSN w = wal_NextLSN w - 1"
definition wal_DurableLSN :: "wal_Writer \<Rightarrow> u64" where "wal_DurableLSN w = wwDurableLSN w"

datatype submit_error = SubmitClosed | SubmitFatal | SubmitKeyTooBig | SubmitValueTooBig | SubmitBadType

text \<open>A submission to a full queue waits; the steps below submit only when there is room.\<close>

definition Submit :: "u64 \<Rightarrow> Record \<Rightarrow> wal_Writer \<Rightarrow> (submit_error + u64) \<times> wal_Writer" where
  "Submit nowMs r w =
     (if wwClosed w then (Inl SubmitClosed, w)
      else if wwFatal w then (Inl SubmitFatal, w)
      else if length (rKey r) > maxKeyLen then (Inl SubmitKeyTooBig, w)
      else if length (rValue r) > maxValLen then (Inl SubmitValueTooBig, w)
      else if \<not> rectype_Valid (rType r) \<or> rType r = RecSegmentHdr then (Inl SubmitBadType, w)
      else let r = r\<lparr>rLSN := wwNextLSN w\<rparr>;
               w = w\<lparr>wwNextLSN := wwNextLSN w + 1\<rparr>;
               r = (if rCreatedAtMs r = 0 then r\<lparr>rCreatedAtMs := nowMs\<rparr> else r)
           in (Inr (rLSN r), w\<lparr>wwQueue := wwQueue w @ [r]\<rparr>))"

definition rotate :: "u64 \<Rightarrow> u64 \<Rightarrow> wal_Writer \<Rightarrow> fs \<Rightarrow> bool \<times> wal_Writer \<times> fs" where
  "rotate firstLSN nowMs w d =
     (let (ok, d) = segment_sync (wwSeg w) d
      in if \<not> ok then (False, w, d)
      else let (ok, seg, d) = segment_close (wwSeg w) d;
               w = w\<lparr>wwSeg := seg\<rparr>
           in if \<not> ok then (False, w, d)
      else case createSegment firstLSN nowMs d of
             (None, d) \<Rightarrow> (False, w, d)
           | (Some seg, d) \<Rightarrow> (True, w\<lparr>wwSeg := seg, wwRotations := wwRotations w + 1, wwPendingSync := False\<rparr>, d))"

definition failBatch :: "Record list \<Rightarrow> wal_Writer \<Rightarrow> wal_Writer" where
  "failBatch batch w = (let w = setFatal w in w\<lparr>wwCommits := fold (\<lambda>r. commit_finish (rLSN r) False) batch (wwCommits w)\<rparr>)"

text \<open>The parts of \<^verbatim>\<open>flushBatch\<close> up to the write and from the write to the policy's sync.\<close>

definition flush_write :: "u64 \<Rightarrow> Record list \<Rightarrow> wal_Writer \<Rightarrow> fs \<Rightarrow> bool \<times> wal_Writer \<times> fs" where
  "flush_write nowMs batch w d =
     (let (ok, w, d) = (if int (sgSize (wwSeg w)) \<ge> woSegmentSize (wwO w) then rotate (rLSN (hd batch)) nowMs w d else (True, w, d))
      in if \<not> ok then (False, w, d)
      else let buf = fold (\<lambda>r b. AppendRecord b r) batch [];
               (ok, seg, d) = segment_write buf (wwSeg w) d;
               w = w\<lparr>wwSeg := seg\<rparr>
           in if \<not> ok then (False, w, d)
      else (True, w\<lparr>wwBytes := wwBytes w + word_of_nat (length buf), wwRecords := wwRecords w + word_of_nat (length batch),
                    wwBatches := wwBatches w + 1, wwWrittenLSN := rLSN (last batch)\<rparr>, d))"

definition flush_commit :: "Record list \<Rightarrow> wal_Writer \<Rightarrow> fs \<Rightarrow> bool \<times> wal_Writer \<times> fs" where
  "flush_commit batch w d =
     (if woFsync (wwO w) = FsyncAlways
      then let (ok, d) = segment_sync (wwSeg w) d
           in if \<not> ok then (False, w, d)
              else (True, w\<lparr>wwFsyncs := wwFsyncs w + 1, wwDurableLSN := rLSN (last batch)\<rparr>, d)
      else if woFsync (wwO w) = FsyncEverySec \<or> woFsync (wwO w) = FsyncNo
      then (True, w\<lparr>wwPendingSync := True, wwDurableLSN := rLSN (last batch)\<rparr>, d)
      else (True, w, d))"

definition flushBatch :: "u64 \<Rightarrow> Record list \<Rightarrow> wal_Writer \<Rightarrow> fs \<Rightarrow> wal_Writer \<times> fs" where
  "flushBatch nowMs batch w d =
     (if batch = [] then (w, d)
      else let (ok, w, d) = flush_write nowMs batch w d
           in if \<not> ok then (failBatch batch w, d)
      else let (ok, w, d) = flush_commit batch w d
           in if \<not> ok then (failBatch batch w, d)
      else (w\<lparr>wwCommits := fold (\<lambda>r. commit_finish (rLSN r) True) batch (wwCommits w)\<rparr>, d))"

text \<open>
  One turn of the writer goroutine's loop: it takes the first submission and, with group commit on,
  as many more as arrive before the timer fires; \<open>n\<close> is the number it gets.
\<close>

definition run_turn :: "u64 \<Rightarrow> nat \<Rightarrow> wal_Writer \<Rightarrow> fs \<Rightarrow> wal_Writer \<times> fs" where
  "run_turn nowMs n w d =
     (let k = (if woGroupCommitMax (wwO w) > 1 then max 1 (min n (nat (woGroupCommitMax (wwO w)))) else 1);
          batch = take k (wwQueue w)
      in flushBatch nowMs batch (w\<lparr>wwQueue := drop k (wwQueue w)\<rparr>) d)"

definition everySec_tick :: "wal_Writer \<Rightarrow> fs \<Rightarrow> wal_Writer \<times> fs" where
  "everySec_tick w d =
     (if \<not> wwTicker w \<or> \<not> wwPendingSync w then (w, d)
      else let w = w\<lparr>wwPendingSync := False\<rparr>;
               (ok, d) = segment_sync (wwSeg w) d
           in if \<not> ok then ((setFatal w)\<lparr>wwTicker := False\<rparr>, d)
              else (w\<lparr>wwFsyncs := wwFsyncs w + 1\<rparr>, d))"

definition wal_Sync :: "wal_Writer \<Rightarrow> fs \<Rightarrow> bool \<times> wal_Writer \<times> fs" where
  "wal_Sync w d =
     (if wwFatal w then (False, w, d)
      else let w = w\<lparr>wwPendingSync := False\<rparr>;
               (ok, d) = segment_sync (wwSeg w) d
           in if \<not> ok then (False, setFatal w, d)
              else (True, w\<lparr>wwFsyncs := wwFsyncs w + 1, wwDurableLSN := wwWrittenLSN w\<rparr>, d))"

text \<open>
  \<^verbatim>\<open>Close\<close> lets the writer goroutine drain the queue: turns until the queue is empty. The list \<open>ns\<close> has the sizes of the
  batches that the goroutine takes, where it takes more than one submission. Every turn takes at least one, so the length of the queue is
  enough fuel.
\<close>

fun drain :: "nat \<Rightarrow> u64 \<Rightarrow> nat list \<Rightarrow> wal_Writer \<Rightarrow> fs \<Rightarrow> wal_Writer \<times> fs" where
  "drain 0 nowMs ns w d = (w, d)"
| "drain (Suc fuel) nowMs ns w d =
     (if wwQueue w = [] then (w, d)
      else let (w, d) = run_turn nowMs (case ns of [] \<Rightarrow> 1 | n # _ \<Rightarrow> n) w d in drain fuel nowMs (List.tl ns) w d)"

definition wal_Close :: "u64 \<Rightarrow> nat list \<Rightarrow> wal_Writer \<Rightarrow> fs \<Rightarrow> bool \<times> wal_Writer \<times> fs" where
  "wal_Close nowMs ns w d =
     (if wwClosed w then (True, w, d)
      else let w = w\<lparr>wwClosed := True, wwTicker := False\<rparr>;
               (w, d) = drain (length (wwQueue w)) nowMs ns w d;
               (ok1, d) = segment_sync (wwSeg w) d;
               (ok2, seg, d) = segment_close (wwSeg w) d
           in (ok1 \<and> ok2 \<and> \<not> wwFatal w, w\<lparr>wwSeg := seg\<rparr>, d))"

section \<open>Calls that succeed\<close>

lemma next_outcome_files: "next_outcome d = (x, d') \<Longrightarrow> files d' = files d"
  by (auto simp: next_outcome_def split: list.splits)

definition upd_files :: "string \<Rightarrow> (dfile \<Rightarrow> dfile) \<Rightarrow> (string \<times> dfile) list \<Rightarrow> (string \<times> dfile) list" where
  "upd_files name f xs = map (\<lambda>(n, x). if n = name then (n, f x) else (n, x)) xs"

lemma files_upd_file: "files (upd_file name f d) = upd_files name f (files d)"
  by (simp add: upd_file_def upd_files_def)

lemma segment_sync_ok: "segment_sync s d = (True, d') \<Longrightarrow> files d' = upd_files (sgPath s) (\<lambda>f. f\<lparr>fDur := fCur f\<rparr>) (files d)"
  by (auto simp: segment_sync_def os_sync_def files_upd_file dest: next_outcome_files split: prod.splits outcome.splits if_splits)

lemma os_close_ok: "os_close d = (b, d') \<Longrightarrow> files d' = files d"
  by (auto simp: os_close_def dest: next_outcome_files split: prod.splits outcome.splits)

lemma segment_write_ok:
  assumes "segment_write b s d = (True, s', d')"
  shows "s' = s\<lparr>sgSize := sgSize s + length b\<rparr>"
    "files d' = upd_files (sgPath s) (\<lambda>f. f\<lparr>fCur := write_at (fCur f) (sgSize s) b\<rparr>) (files d)"
  using assms by (auto simp: segment_write_def os_write_def files_upd_file Let_def dest: next_outcome_files
    split: prod.splits outcome.splits if_splits)

lemma createSegment_ok:
  assumes "createSegment l t d = (Some s, d')"
  shows "SegmentName l \<notin> fst ` set (files d)" "s = \<lparr>sgPath = SegmentName l, sgFirstLSN = l, sgSize = length (seg_bytes (l, t, [])), sgOpen = True\<rparr>"
    "files d' = map (\<lambda>(n, f). (n, f\<lparr>fLinked := True\<rparr>)) (files d)
       @ [(SegmentName l, \<lparr>fCur = seg_bytes (l, t, []), fDur = seg_bytes (l, t, []), fLinked = True\<rparr>)]"
proof -
  obtain d1 where d1: "os_create (SegmentName l) d = (True, d1)" using assms by (auto simp: createSegment_def Let_def split: prod.splits if_splits)
  have n: "SegmentName l \<notin> fst ` set (files d)"
    and f1: "files d1 = files d @ [(SegmentName l, \<lparr>fCur = [], fDur = [], fLinked = False\<rparr>)]"
    using d1 by (auto simp: os_create_def map_of_eq_None_iff dest!: next_outcome_files split: prod.splits outcome.splits if_splits)
  have idle: "upd_files (SegmentName l) h (files d) = files d" for h
    using n by (force simp: upd_files_def intro: map_idI)
  show "SegmentName l \<notin> fst ` set (files d)" by (rule n)
  show "s = \<lparr>sgPath = SegmentName l, sgFirstLSN = l, sgSize = length (seg_bytes (l, t, [])), sgOpen = True\<rparr>"
    using assms by (auto simp: createSegment_def seg_bytes_def Let_def split: prod.splits if_splits)
  show "files d' = map (\<lambda>(n, f). (n, f\<lparr>fLinked := True\<rparr>)) (files d)
       @ [(SegmentName l, \<lparr>fCur = seg_bytes (l, t, []), fDur = seg_bytes (l, t, []), fLinked = True\<rparr>)]"
    using assms d1 f1 idle
    by (auto simp: createSegment_def Let_def os_write_def os_sync_def SyncDir_def files_upd_file seg_bytes_def write_at_def
      upd_files_def dest!: next_outcome_files split: prod.splits if_splits outcome.splits)
qed

section \<open>The shape of the log\<close>

text \<open>
  The segments \<open>gs\<close> are complete and on stable storage; the open segment has the records \<open>rs\<close>, of which
  the first \<open>j\<close> are on stable storage.
\<close>

definition synced_file :: "seglog \<Rightarrow> string \<times> dfile" where
  "synced_file g = (SegmentName (fst g), \<lparr>fCur = seg_bytes g, fDur = seg_bytes g, fLinked = True\<rparr>)"

definition log_files :: "seglog list \<Rightarrow> u64 \<Rightarrow> u64 \<Rightarrow> Record list \<Rightarrow> nat \<Rightarrow> (string \<times> dfile) list" where
  "log_files gs l t rs j = map synced_file gs
     @ [(SegmentName l, \<lparr>fCur = seg_bytes (l, t, rs), fDur = seg_bytes (l, t, take j rs), fLinked = True\<rparr>)]"

definition log_shape :: "seglog list \<Rightarrow> u64 \<Rightarrow> u64 \<Rightarrow> Record list \<Rightarrow> nat \<Rightarrow> segment \<Rightarrow> fs \<Rightarrow> bool" where
  "log_shape gs l t rs j s d \<longleftrightarrow> files d = log_files gs l t rs j \<and> j \<le> length rs \<and> sgPath s = SegmentName l
     \<and> sgSize s = length (seg_bytes (l, t, rs)) \<and> sorted_wrt (<) (map fst gs @ [l]) \<and> unat l < 10 ^ 16"

abbreviation log_recs :: "seglog list \<Rightarrow> Record list \<Rightarrow> Record list" where
  "log_recs gs rs \<equiv> concat (map seg_recs gs) @ rs"

lemma seg_bytes_append: "seg_bytes (l, t, rs @ rs') = seg_bytes (l, t, rs) @ enc_records rs'"
  by (simp add: seg_bytes_def)

lemma log_shape_name:
  assumes "log_shape gs l t rs j s d" "g \<in> set gs"
  shows "SegmentName (fst g) \<noteq> SegmentName l"
proof -
  have "fst g < l" using assms by (auto simp: log_shape_def sorted_wrt_append)
  then have "unat (fst g) < unat l" by (simp add: word_less_nat_alt)
  then show ?thesis using SegmentName_inj [of "fst g" l] assms(1) by (auto simp: log_shape_def)
qed

lemma upd_open_segment:
  assumes "log_shape gs l t rs j s d"
  shows "upd_files (SegmentName l) h (files d) = map synced_file gs
    @ [(SegmentName l, h \<lparr>fCur = seg_bytes (l, t, rs), fDur = seg_bytes (l, t, take j rs), fLinked = True\<rparr>)]"
proof -
  have "upd_files (SegmentName l) h (map synced_file gs) = map synced_file gs"
    using log_shape_name [OF assms] by (auto simp: upd_files_def synced_file_def)
  then show ?thesis using assms by (simp add: log_shape_def log_files_def upd_files_def)
qed

lemma sync_shape:
  assumes "log_shape gs l t rs j s d" "segment_sync s d = (True, d')"
  shows "log_shape gs l t rs (length rs) s d'"
  using segment_sync_ok [OF assms(2)] upd_open_segment [OF assms(1)] assms(1) by (simp add: log_shape_def log_files_def)

lemma AppendRecord_batch: "fold (\<lambda>r b. AppendRecord b r) batch buf = buf @ enc_records batch"
proof (induction batch arbitrary: buf)
  case (Cons r batch)
  show ?case using AppendRecord_append [of buf r] by (simp add: Cons)
qed simp

lemma write_shape:
  assumes "log_shape gs l t rs j s d" "segment_write (enc_records batch) s d = (True, s', d')"
  shows "log_shape gs l t (rs @ batch) j s' d'"
proof -
  have "write_at (seg_bytes (l, t, rs)) (sgSize s) (enc_records batch) = seg_bytes (l, t, rs @ batch)"
    using assms(1) by (simp add: log_shape_def write_at_def seg_bytes_append)
  then show ?thesis
    using segment_write_ok [OF assms(2)] upd_open_segment [OF assms(1)] assms(1)
    by (simp add: log_shape_def log_files_def seg_bytes_append)
qed

lemma rotate_shape:
  assumes "log_shape gs l t rs j (wwSeg w) d" "rotate b t' w d = (True, w', d')" "l \<le> b" "unat b < 10 ^ 16"
  shows "log_shape (gs @ [(l, t, rs)]) b t' [] 0 (wwSeg w') d'"
    "\<exists>seg. w' = w\<lparr>wwSeg := seg, wwRotations := wwRotations w + 1, wwPendingSync := False\<rparr>"
proof -
  obtain d1 d2 seg where d: "segment_sync (wwSeg w) d = (True, d1)" "os_close d1 = (True, d2)" "createSegment b t' d2 = (Some seg, d')"
    and w': "w' = w\<lparr>wwSeg := seg, wwRotations := wwRotations w + 1, wwPendingSync := False\<rparr>"
    using assms(2) by (auto simp: rotate_def segment_close_def Let_def split: prod.splits if_splits option.splits)
  show "\<exists>seg. w' = w\<lparr>wwSeg := seg, wwRotations := wwRotations w + 1, wwPendingSync := False\<rparr>" using w' by blast
  note s1 = sync_shape [OF assms(1) d(1)]
  have f2: "files d2 = map synced_file (gs @ [(l, t, rs)])"
    using os_close_ok [OF d(2)] s1 by (simp add: log_shape_def log_files_def synced_file_def)
  note c = createSegment_ok [OF d(3)]
  have "b \<noteq> l" using c(1) f2 by (auto simp: synced_file_def)
  then have "l < b" using assms(3) by simp
  moreover have "(\<lambda>(n, f). (n, f\<lparr>fLinked := True\<rparr>)) \<circ> synced_file = synced_file"
    by (simp add: synced_file_def fun_eq_iff)
  then have "map (\<lambda>(n, f). (n, f\<lparr>fLinked := True\<rparr>)) (files d2) = files d2" unfolding f2 list.map_comp by simp
  ultimately show "log_shape (gs @ [(l, t, rs)]) b t' [] 0 (wwSeg w') d'"
    using c(2,3) f2 assms(1,4) w' unfolding log_shape_def log_files_def by (auto simp: sorted_wrt_append)
qed

lemma flush_write_shape:
  assumes "log_shape gs l t rs j (wwSeg w) d" "flush_write t' batch w d = (True, w', d')" "l \<le> rLSN (hd batch)" "unat (rLSN (hd batch)) < 10 ^ 16"
  obtains gs' l' u rs' j' where "log_shape gs' l' u rs' j' (wwSeg w') d'" "log_recs gs' rs' = log_recs gs rs @ batch"
    "prefix (log_recs gs (take j rs)) (log_recs gs' (take j' rs'))" "l' \<le> rLSN (hd batch)"
    "\<forall>g \<in> set gs'. g \<in> set gs \<or> g = (l, t, rs)"
proof -
  obtain w1 d1 where r: "(if int (sgSize (wwSeg w)) \<ge> woSegmentSize (wwO w) then rotate (rLSN (hd batch)) t' w d else (True, w, d)) = (True, w1, d1)"
    using assms(2) by (auto simp: flush_write_def split: prod.splits if_splits)
  obtain s2 where w: "segment_write (enc_records batch) (wwSeg w1) d1 = (True, s2, d')" "wwSeg w' = s2"
    using assms(2) unfolding flush_write_def r by (auto simp: AppendRecord_batch Let_def split: prod.splits if_splits)
  show ?thesis
  proof (cases "int (sgSize (wwSeg w)) \<ge> woSegmentSize (wwO w)")
    case True
    note s1 = rotate_shape(1) [OF assms(1) _ assms(3,4), of t' w1 d1]
    have "log_shape (gs @ [(l, t, rs)]) (rLSN (hd batch)) t' ([] @ batch) 0 s2 d'"
      using write_shape [OF s1 w(1)] r True by simp
    moreover have "prefix (log_recs gs (take j rs)) (log_recs (gs @ [(l, t, rs)]) (take 0 batch))" by (simp add: take_is_prefix)
    ultimately show ?thesis using w(2) by (intro that [of "gs @ [(l, t, rs)]" "rLSN (hd batch)" t' batch 0]) auto
  next
    case False
    then have "log_shape gs l t (rs @ batch) j s2 d'" using write_shape [of gs l t rs j "wwSeg w1" d1 batch s2 d'] r w(1) assms(1) by simp
    moreover have "take j (rs @ batch) = take j rs" using assms(1) by (simp add: log_shape_def)
    ultimately show ?thesis using w(2) assms(3) by (intro that) auto
  qed
qed

section \<open>Reachable states\<close>

text \<open>The submissions are numbered without gaps; the log holds them up to the queue.\<close>

definition wal_lsns :: "Record list \<Rightarrow> nat \<Rightarrow> wal_Writer \<Rightarrow> bool" where
  "wal_lsns subs s w \<longleftrightarrow> list_all wf_record subs \<and> map (\<lambda>r. unat (rLSN r)) subs = [s..<s + length subs] \<and> 0 < s
     \<and> unat (wwNextLSN w) = s + length subs \<and> s + length subs < 10 ^ 16"

text \<open>
  Every successful commit is in the log. With the policy \<^verbatim>\<open>always\<close> it is in the durable part, and between
  two batches the durable part is everything.
\<close>

definition wal_inv :: "bool \<Rightarrow> Record list \<Rightarrow> wal_Writer \<Rightarrow> fs \<Rightarrow> bool" where
  "wal_inv idle subs w d \<longleftrightarrow> (\<exists>gs l t rs j s. log_shape gs l t rs j (wwSeg w) d \<and> subs = log_recs gs rs @ wwQueue w
     \<and> wal_lsns subs s w \<and> unat l \<le> s + length (log_recs gs rs)
     \<and> (woFsync (wwO w) = FsyncAlways \<longrightarrow> (\<forall>n. (n, True) \<in> set (wwCommits w) \<longrightarrow> n \<in> rLSN ` set (log_recs gs (take j rs)))
          \<and> (idle \<longrightarrow> j = length rs)))"

text \<open>
  The states that the writer goes through from an empty directory, with the list of the submissions
  it accepted: callers submit while there is room in the queue, the writer goroutine flushes batches,
  the ticker and explicit calls sync. System calls may fail at any point (the plan of \<open>d\<close> is arbitrary).
\<close>

inductive wal_reach :: "wal_Options \<Rightarrow> Record list \<Rightarrow> wal_Writer \<Rightarrow> fs \<Rightarrow> bool" for o1 where
  opened: "files d = [] \<Longrightarrow> woResumePath o1 = '''' \<Longrightarrow> unat (woStartLSN o1) + 1 < 10 ^ 16 \<Longrightarrow> wal_Open o1 t d = (Some w, d')
    \<Longrightarrow> wal_reach o1 [] w d'"
| submitted: "wal_reach o1 subs w d \<Longrightarrow> int (length (wwQueue w)) < woQueueDepth (wwO w) \<Longrightarrow> unat (wwNextLSN w) + 1 < 10 ^ 16
    \<Longrightarrow> Submit t r w = (Inr n, w') \<Longrightarrow> wal_reach o1 (subs @ [last (wwQueue w')]) w' d"
| flushed: "wal_reach o1 subs w d \<Longrightarrow> run_turn t n w d = (w', d') \<Longrightarrow> wal_reach o1 subs w' d'"
| ticked: "wal_reach o1 subs w d \<Longrightarrow> everySec_tick w d = (w', d') \<Longrightarrow> wal_reach o1 subs w' d'"
| synced: "wal_reach o1 subs w d \<Longrightarrow> wal_Sync w d = (ok, w', d') \<Longrightarrow> wal_reach o1 subs w' d'"

lemma commit_finish_fold: "set (fold (\<lambda>r. commit_finish (rLSN r) ok) batch cs) \<subseteq> set cs \<union> (\<lambda>r. (rLSN r, ok)) ` set batch"
proof (induction batch arbitrary: cs)
  case (Cons r batch)
  have "set (commit_finish (rLSN r) ok cs) \<subseteq> set cs \<union> {(rLSN r, ok)}" by (auto simp: commit_finish_def)
  then show ?case using Cons.IH [of "commit_finish (rLSN r) ok cs"] by auto
qed simp

lemma flush_write_frame:
  assumes "flush_write t batch w d = (ok, w', d')"
  shows "wwQueue w' = wwQueue w" "wwCommits w' = wwCommits w" "wwO w' = wwO w" "wwNextLSN w' = wwNextLSN w" "wwFatal w' = wwFatal w"
  using assms by (auto simp: flush_write_def rotate_def Let_def split: prod.splits if_splits option.splits)

lemma flush_commit_frame:
  assumes "flush_commit batch w d = (ok, w', d')"
  shows "wwQueue w' = wwQueue w" "wwCommits w' = wwCommits w" "wwO w' = wwO w" "wwNextLSN w' = wwNextLSN w" "wwFatal w' = wwFatal w"
    "wwSeg w' = wwSeg w"
  using assms by (auto simp: flush_commit_def Let_def split: prod.splits if_splits)

text \<open>Closing leaves no submission behind.\<close>

lemma flushBatch_frame: "wwQueue (fst (flushBatch t batch w d)) = wwQueue w" "wwO (fst (flushBatch t batch w d)) = wwO w"
proof -
  obtain ok1 w1 d1 where s: "flush_write t batch w d = (ok1, w1, d1)" by (metis prod.exhaust)
  obtain ok2 w2 d2 where u: "flush_commit batch w1 d1 = (ok2, w2, d2)" by (metis prod.exhaust)
  show "wwQueue (fst (flushBatch t batch w d)) = wwQueue w" "wwO (fst (flushBatch t batch w d)) = wwO w"
    using flush_write_frame [OF s] flush_commit_frame [OF u] by (simp_all add: flushBatch_def s u failBatch_def setFatal_def Let_def)
qed

lemma run_turn_opts: "wwO (fst (run_turn t n w d)) = wwO w"
  by (simp add: run_turn_def flushBatch_frame Let_def)

lemma drain_empties: "length (wwQueue w) \<le> fuel \<Longrightarrow> wwQueue (fst (drain fuel t ns w d)) = []"
proof (induction fuel arbitrary: ns w d)
  case (Suc fuel)
  let ?n = "case ns of [] \<Rightarrow> 1 | n # _ \<Rightarrow> n"
  obtain w' d' where r: "run_turn t ?n w d = (w', d')" by force
  have "\<exists>k. wwQueue (fst (run_turn t ?n w d)) = drop (Suc k) (wwQueue w)"
    by (auto simp: run_turn_def flushBatch_frame Let_def intro: exI [of _ "max 1 (min ?n (nat (woGroupCommitMax (wwO w)))) - 1"])
  then obtain k where "wwQueue w' = drop (Suc k) (wwQueue w)" by (auto simp: r)
  then have "length (wwQueue w') \<le> fuel" using Suc.prems by simp
  then show ?case using Suc.IH [of w' "tl ns" d'] r by simp
qed simp

lemma wal_invI:
  assumes "log_shape gs l t rs j (wwSeg w) d" "subs = log_recs gs rs @ wwQueue w" "wal_lsns subs s w"
    "unat l \<le> s + length (log_recs gs rs)"
    "woFsync (wwO w) = FsyncAlways \<longrightarrow> (\<forall>n. (n, True) \<in> set (wwCommits w) \<longrightarrow> n \<in> rLSN ` set (log_recs gs (take j rs)))
       \<and> (idle \<longrightarrow> j = length rs)"
  shows "wal_inv idle subs w d"
  using assms unfolding wal_inv_def by blast

lemma wal_lsns_nth: "wal_lsns subs s w \<Longrightarrow> i < length subs \<Longrightarrow> unat (rLSN (subs ! i)) = s + i"
proof -
  assume a: "wal_lsns subs s w" "i < length subs"
  then have "map (\<lambda>r. unat (rLSN r)) subs ! i = [s..<s + length subs] ! i" by (simp add: wal_lsns_def)
  then show ?thesis using a(2) by simp
qed

lemma prefix_LSNs: "prefix xs ys \<Longrightarrow> n \<in> rLSN ` set xs \<Longrightarrow> n \<in> rLSN ` set ys"
  using set_mono_prefix by blast

lemma flush_write_inv:
  assumes "wal_inv True subs w d" "flush_write t (take k (wwQueue w)) (w\<lparr>wwQueue := drop k (wwQueue w)\<rparr>) d = (True, w', d')"
    and "take k (wwQueue w) \<noteq> []"
  shows "wal_inv False subs w' d'"
proof -
  let ?b = "take k (wwQueue w)" and ?w = "w\<lparr>wwQueue := drop k (wwQueue w)\<rparr>"
  obtain gs l u rs j s where i: "log_shape gs l u rs j (wwSeg w) d" "subs = log_recs gs rs @ wwQueue w" "wal_lsns subs s w"
    "unat l \<le> s + length (log_recs gs rs)"
    "woFsync (wwO w) = FsyncAlways \<longrightarrow> (\<forall>n. (n, True) \<in> set (wwCommits w) \<longrightarrow> n \<in> rLSN ` set (log_recs gs (take j rs)))"
    using assms(1) unfolding wal_inv_def by blast
  have "hd ?b = subs ! length (log_recs gs rs)" "length (log_recs gs rs) < length subs"
    using i(2) assms(3) by (cases "wwQueue w"; cases k; auto simp: nth_append)+
  then have h: "unat (rLSN (hd ?b)) = s + length (log_recs gs rs)" "unat (rLSN (hd ?b)) < 10 ^ 16"
    using wal_lsns_nth [OF i(3)] i(3) by (auto simp: wal_lsns_def)
  have i1: "log_shape gs l u rs j (wwSeg ?w) d" using i(1) by simp
  have le: "l \<le> rLSN (hd ?b)" using h(1) i(4) by (simp add: word_le_nat_alt)
  obtain gs' l' u' rs' j' where g: "log_shape gs' l' u' rs' j' (wwSeg w') d'" "log_recs gs' rs' = log_recs gs rs @ ?b"
    "prefix (log_recs gs (take j rs)) (log_recs gs' (take j' rs'))" "l' \<le> rLSN (hd ?b)"
    by (rule flush_write_shape [OF i1 assms(2) le h(2)])
  note f = flush_write_frame [OF assms(2), simplified]
  have "subs = log_recs gs' rs' @ wwQueue w'" using f(1) i(2) g(2) by simp
  moreover have "wal_lsns subs s w'" using i(3) f(4) by (simp add: wal_lsns_def)
  moreover have "unat l' \<le> s + length (log_recs gs' rs')" using g(2,4) h(1) by (simp add: word_le_nat_alt)
  moreover have "woFsync (wwO w') = FsyncAlways \<longrightarrow> (\<forall>n. (n, True) \<in> set (wwCommits w') \<longrightarrow> n \<in> rLSN ` set (log_recs gs' (take j' rs')))"
    using i(5) f(2,3) prefix_LSNs [OF g(3)] by auto
  ultimately show ?thesis using g(1) unfolding wal_inv_def by blast
qed

lemma flush_commit_inv:
  assumes "wal_inv False subs w d" "flush_commit batch w d = (True, w', d')" "\<forall>r \<in> set batch. r \<in> set (take (length subs - length (wwQueue w)) subs)"
  shows "wal_inv True subs (w'\<lparr>wwCommits := fold (\<lambda>r. commit_finish (rLSN r) True) batch (wwCommits w')\<rparr>) d'"
proof -
  obtain gs l u rs j s where i: "log_shape gs l u rs j (wwSeg w) d" "subs = log_recs gs rs @ wwQueue w" "wal_lsns subs s w"
    "unat l \<le> s + length (log_recs gs rs)"
    "woFsync (wwO w) = FsyncAlways \<longrightarrow> (\<forall>n. (n, True) \<in> set (wwCommits w) \<longrightarrow> n \<in> rLSN ` set (log_recs gs (take j rs)))"
    using assms(1) unfolding wal_inv_def by blast
  note f = flush_commit_frame [OF assms(2)]
  have b: "set batch \<subseteq> set (log_recs gs rs)" using assms(3) i(2) by auto
  have ls: "wal_lsns subs s (w'\<lparr>wwCommits := x\<rparr>)" for x using i(3) f(4) by (simp add: wal_lsns_def)
  show ?thesis
  proof (cases "woFsync (wwO w) = FsyncAlways")
    case True
    then have "segment_sync (wwSeg w) d = (True, d')" using assms(2) by (auto simp: flush_commit_def split: prod.splits if_splits)
    from sync_shape [OF i(1) this] have "log_shape gs l u rs (length rs) (wwSeg w) d'" .
    moreover have "n \<in> rLSN ` set (log_recs gs (take (length rs) rs))"
      if "(n, True) \<in> set (fold (\<lambda>r. commit_finish (rLSN r) True) batch (wwCommits w'))" for n
    proof -
      have "(n, True) \<in> set (wwCommits w) \<or> n \<in> rLSN ` set batch" using that commit_finish_fold [of True batch "wwCommits w'"] f(2) by auto
      moreover have "prefix (log_recs gs (take j rs)) (log_recs gs (take (length rs) rs))" by (simp add: take_is_prefix)
      ultimately show ?thesis
      proof (elim disjE)
        assume "(n, True) \<in> set (wwCommits w)" "prefix (log_recs gs (take j rs)) (log_recs gs (take (length rs) rs))"
        then show ?thesis using i(5) True prefix_LSNs by blast
      qed (use b in auto)
    qed
    ultimately show ?thesis using i(2,4) f ls unfolding wal_inv_def by fastforce
  next
    case False
    then have "d' = d" using assms(2) by (auto simp: flush_commit_def split: if_splits)
    then show ?thesis using i(1,2,4) f ls False unfolding wal_inv_def by fastforce
  qed
qed

lemma run_turn_inv:
  assumes "wal_inv True subs w d" "run_turn t n w d = (w', d')" "\<not> wwFatal w'"
  shows "wal_inv True subs w' d'" "\<not> wwFatal w"
proof -
  define k where "k = (if woGroupCommitMax (wwO w) > 1 then max 1 (min n (nat (woGroupCommitMax (wwO w)))) else 1)"
  let ?b = "take k (wwQueue w)" and ?w = "w\<lparr>wwQueue := drop k (wwQueue w)\<rparr>"
  have k: "0 < k" by (auto simp: k_def)
  have fb: "flushBatch t ?b ?w d = (w', d')" using assms(2) by (simp add: run_turn_def k_def Let_def)
  have "wal_inv True subs w' d' \<and> \<not> wwFatal w"
  proof (cases "?b = []")
    case True
    then have "w' = w" "d' = d" using fb k by (auto simp: flushBatch_def)
    then show ?thesis using assms(1,3) by simp
  next
    case False
    obtain w1 d1 w2 where s: "flush_write t ?b ?w d = (True, w1, d1)" "flush_commit ?b w1 d1 = (True, w2, d')"
      "w' = w2\<lparr>wwCommits := fold (\<lambda>r. commit_finish (rLSN r) True) ?b (wwCommits w2)\<rparr>"
      using fb False assms(3) by (auto simp: flushBatch_def failBatch_def setFatal_def Let_def split: prod.splits if_splits)
    have i1: "wal_inv False subs w1 d1" by (rule flush_write_inv [OF assms(1) s(1) False])
    have q: "wwQueue w1 = drop k (wwQueue w)" using flush_write_frame(1) [OF s(1)] by simp
    obtain lg where lg: "subs = lg @ wwQueue w" using assms(1) unfolding wal_inv_def by blast
    then have "take (length subs - length (wwQueue w1)) subs = lg @ ?b"
      unfolding q by (cases "k \<le> length (wwQueue w)") auto
    then have "\<forall>r \<in> set ?b. r \<in> set (take (length subs - length (wwQueue w1)) subs)" by simp
    from flush_commit_inv [OF i1 s(2) this] show ?thesis
      using s(3) assms(3) flush_commit_frame(5) [OF s(2)] flush_write_frame(5) [OF s(1)] by simp
  qed
  then show "wal_inv True subs w' d'" "\<not> wwFatal w" by auto
qed

lemma sync_inv:
  assumes "wal_inv True subs w d" "segment_sync (wwSeg w) d = (True, d')"
    and "wwSeg w' = wwSeg w" "wwQueue w' = wwQueue w" "wwNextLSN w' = wwNextLSN w" "wwO w' = wwO w" "wwCommits w' = wwCommits w"
  shows "wal_inv True subs w' d'"
proof -
  obtain gs l u rs j s where i: "log_shape gs l u rs j (wwSeg w) d" "subs = log_recs gs rs @ wwQueue w" "wal_lsns subs s w"
    "unat l \<le> s + length (log_recs gs rs)"
    "woFsync (wwO w) = FsyncAlways \<longrightarrow> (\<forall>n. (n, True) \<in> set (wwCommits w) \<longrightarrow> n \<in> rLSN ` set (log_recs gs (take j rs))) \<and> j = length rs"
    using assms(1) unfolding wal_inv_def by blast
  have "wal_lsns subs s w'" using i(3) assms(5) by (simp add: wal_lsns_def)
  then show ?thesis using sync_shape [OF i(1) assms(2)] i assms(3-7) by (intro wal_invI [of gs l u rs "length rs" w' d' _ s]) auto
qed

lemma wal_Open_fresh:
  assumes "files d = []" "woResumePath o1 = ''''" "unat (woStartLSN o1) + 1 < 10 ^ 16" "wal_Open o1 t d = (Some w, d')"
  shows "wal_inv True [] w d'" "wwO w = wal_withDefaults o1"
proof -
  let ?l = "woStartLSN (wal_withDefaults o1)"
  have l: "?l = (if woStartLSN o1 = 0 then 1 else woStartLSN o1)" "woResumePath (wal_withDefaults o1) = ''''"
    using assms(2) by (simp_all add: wal_withDefaults_def Let_def)
  obtain seg where c: "createSegment ?l t d = (Some seg, d')" and w: "wwSeg w = seg" "wwQueue w = []" "wwNextLSN w = ?l"
    "wwCommits w = []" "wwO w = wal_withDefaults o1"
    using assms(4) l(2) by (auto simp: wal_Open_def Let_def split: prod.splits option.splits)
  have "0 < unat ?l" using l(1) unat_gt_0 [of "woStartLSN o1"] by simp
  moreover have "unat ?l < 10 ^ 16" using l(1) assms(3) by auto
  moreover have "log_shape [] ?l t [] 0 (wwSeg w) d'"
    using createSegment_ok [OF c] assms(1) w(1) \<open>unat ?l < 10 ^ 16\<close> by (simp add: log_shape_def log_files_def)
  ultimately show "wal_inv True [] w d'" using w by (intro wal_invI [of "[]" ?l t "[]" 0 w d' _ "unat ?l"]) (simp_all add: wal_lsns_def)
  show "wwO w = wal_withDefaults o1" by (rule w)
qed

lemma Submit_ok:
  assumes "Submit t r w = (Inr n, w')"
  obtains r' where "w' = w\<lparr>wwNextLSN := wwNextLSN w + 1, wwQueue := wwQueue w @ [r']\<rparr>" "rLSN r' = wwNextLSN w" "wf_record r'" "n = wwNextLSN w"
    "rKey r' = rKey r" "rValue r' = rValue r" "rType r' = rType r" "rExpireAtMs r' = rExpireAtMs r" "\<not> wwFatal w"
proof -
  let ?r = "if rCreatedAtMs r = 0 then r\<lparr>rLSN := wwNextLSN w, rCreatedAtMs := t\<rparr> else r\<lparr>rLSN := wwNextLSN w\<rparr>"
  have c: "\<not> wwClosed w" "\<not> wwFatal w" "length (rKey r) \<le> maxKeyLen" "length (rValue r) \<le> maxValLen" "rectype_Valid (rType r)" "rType r \<noteq> RecSegmentHdr"
    using assms by (simp_all add: Submit_def split: if_splits)
  have "Submit t r w = (Inr (rLSN ?r), w\<lparr>wwNextLSN := wwNextLSN w + 1, wwQueue := wwQueue w @ [?r]\<rparr>)"
    using c by (simp add: Submit_def Let_def)
  then have "w' = w\<lparr>wwNextLSN := wwNextLSN w + 1, wwQueue := wwQueue w @ [?r]\<rparr>" "n = rLSN ?r" using assms by simp_all
  moreover have "wf_record ?r" using c by (simp add: wf_record_def)
  ultimately show ?thesis using c(2) by (intro that [of ?r]) simp_all
qed

lemma Submit_inv:
  assumes "wal_inv True subs w d" "Submit t r w = (Inr n, w')" "unat (wwNextLSN w) + 1 < 10 ^ 16"
  shows "wal_inv True (subs @ [last (wwQueue w')]) w' d"
proof -
  obtain r' where r: "w' = w\<lparr>wwNextLSN := wwNextLSN w + 1, wwQueue := wwQueue w @ [r']\<rparr>" "rLSN r' = wwNextLSN w" "wf_record r'"
    by (rule Submit_ok [OF assms(2)])
  obtain gs l u rs j s where i: "log_shape gs l u rs j (wwSeg w) d" "subs = log_recs gs rs @ wwQueue w" "wal_lsns subs s w"
    "unat l \<le> s + length (log_recs gs rs)"
    "woFsync (wwO w) = FsyncAlways \<longrightarrow> (\<forall>n. (n, True) \<in> set (wwCommits w) \<longrightarrow> n \<in> rLSN ` set (log_recs gs (take j rs))) \<and> j = length rs"
    using assms(1) unfolding wal_inv_def by blast
  have "unat (wwNextLSN w + 1) = unat (wwNextLSN w) + 1"
    using assms(3) unat_add_lem [THEN iffD1, of "wwNextLSN w" 1] by simp
  then have "wal_lsns (subs @ [r']) s w'" using i(3) r assms(3) by (simp add: wal_lsns_def)
  then show ?thesis using i r(1) by (intro wal_invI [of gs l u rs j w' d _ s]) auto
qed

lemma flushBatch_fatal: "wwFatal w \<Longrightarrow> flushBatch t batch w d = (w', d') \<Longrightarrow> wwFatal w'"
proof -
  assume f: "wwFatal w" and b: "flushBatch t batch w d = (w', d')"
  obtain ok1 w1 d1 where 1: "flush_write t batch w d = (ok1, w1, d1)" by (metis prod.exhaust)
  obtain ok2 w2 d2 where 2: "flush_commit batch w1 d1 = (ok2, w2, d2)" by (metis prod.exhaust)
  have "wwFatal w1" "wwFatal w2" using flush_write_frame(5) [OF 1] flush_commit_frame(5) [OF 2] f by auto
  then show ?thesis using b f 1 2 by (auto simp: flushBatch_def failBatch_def setFatal_def Let_def split: if_splits)
qed

lemma wal_reach_inv: "wal_reach o1 subs w d \<Longrightarrow> \<not> wwFatal w \<Longrightarrow> wal_inv True subs w d"
proof (induction rule: wal_reach.induct)
  case (opened d t w d')
  then show ?case using wal_Open_fresh(1) by blast
next
  case (submitted subs w d t r n w')
  have "\<not> wwFatal w" by (rule Submit_ok [OF submitted(4)])
  then show ?case using Submit_inv submitted by blast
next
  case (flushed subs w d t n w' d')
  show ?case
  proof (cases "wwFatal w")
    case True
    then have "wwFatal w'" using flushed(2) by (auto simp: run_turn_def Let_def elim!: flushBatch_fatal [rotated])
    then show ?thesis using flushed by simp
  next
    case False
    then show ?thesis using run_turn_inv(1) flushed by blast
  qed
next
  case (ticked subs w d w' d')
  show ?case
  proof (cases "\<not> wwTicker w \<or> \<not> wwPendingSync w")
    case True
    then show ?thesis using ticked by (simp add: everySec_tick_def)
  next
    case False
    then have "\<not> wwFatal w" "segment_sync (wwSeg w) d = (True, d')" "w' = w\<lparr>wwPendingSync := False, wwFsyncs := wwFsyncs w + 1\<rparr>"
      using ticked(2,4) by (auto simp: everySec_tick_def setFatal_def Let_def split: prod.splits if_splits)
    then show ?thesis using sync_inv [of subs w d d' w'] ticked(3) by simp
  qed
next
  case (synced subs w d ok w' d')
  then have "\<not> wwFatal w" "segment_sync (wwSeg w) d = (True, d')"
    "w' = w\<lparr>wwPendingSync := False, wwFsyncs := wwFsyncs w + 1, wwDurableLSN := wwWrittenLSN w\<rparr>"
    by (auto simp: wal_Sync_def setFatal_def Let_def split: prod.splits if_splits)
  then show ?case using sync_inv [of subs w d d' w'] synced(3) by simp
qed

section \<open>Crashes\<close>

text \<open>
  A crash keeps every file whose directory entry is on stable storage. A file that was only appended to
  since its last sync keeps the synced bytes and any part of the rest; any other file has either its
  synced or its current bytes.
\<close>

definition crash_file :: "dfile \<Rightarrow> dfile \<Rightarrow> bool" where
  "crash_file f f' \<longleftrightarrow> (if prefix (fDur f) (fCur f) then prefix (fDur f) (fCur f') \<and> prefix (fCur f') (fCur f)
     else fCur f' = fCur f \<or> fCur f' = fDur f)"

definition crash_image :: "fs \<Rightarrow> fs \<Rightarrow> bool" where
  "crash_image d d' \<longleftrightarrow> plan d' = [] \<and> (\<exists>keep. (\<forall>x \<in> set (files d). fLinked (snd x) \<longrightarrow> keep (fst x))
     \<and> list_all2 (\<lambda>x x'. fst x' = fst x \<and> crash_file (snd x) (snd x')) (filter (\<lambda>x. keep (fst x)) (files d)) (files d'))"

lemma crash_synced:
  "list_all2 (\<lambda>x x'. fst x' = fst x \<and> crash_file (snd x) (snd x')) (map synced_file gs) xs
    \<Longrightarrow> map (\<lambda>(n, f). (n, fCur f)) xs = map (\<lambda>(l, b). (SegmentName l, b)) (map seg_file gs)"
proof (induction gs arbitrary: xs)
  case (Cons g gs)
  obtain x ys where x: "xs = x # ys" "fst x = fst (synced_file g)" "crash_file (snd (synced_file g)) (snd x)"
    "list_all2 (\<lambda>x x'. fst x' = fst x \<and> crash_file (snd x) (snd x')) (map synced_file gs) ys"
    using Cons.prems by (auto simp: list_all2_Cons1)
  have "fCur (snd x) = seg_bytes g" using x(3) by (simp add: crash_file_def synced_file_def prefix_order.antisym)
  then show ?case using Cons.IH [OF x(4)] x(1,2) by (simp add: case_prod_beta' synced_file_def)
qed simp

lemma crash_log:
  assumes "log_shape gs l t rs j s d" "crash_image d d'"
  obtains p where "log_dir (map seg_file gs @ [(l, take p (seg_bytes (l, t, rs)))]) d'" "plan d' = []"
    "length (seg_bytes (l, t, take j rs)) \<le> p" "p \<le> length (seg_bytes (l, t, rs))"
proof -
  note sh = assms(1) [unfolded log_shape_def]
  obtain keep where k: "\<forall>x \<in> set (files d). fLinked (snd x) \<longrightarrow> keep (fst x)"
    "list_all2 (\<lambda>x x'. fst x' = fst x \<and> crash_file (snd x) (snd x')) (filter (\<lambda>x. keep (fst x)) (files d)) (files d')"
    using assms(2) by (auto simp: crash_image_def)
  have "\<forall>x \<in> set (files d). fLinked (snd x)" using sh by (auto simp: log_files_def synced_file_def)
  then have "filter (\<lambda>x. keep (fst x)) (files d) = files d" using k(1) by (intro filter_True) blast
  then obtain xs f where x: "files d' = xs @ [(SegmentName l, f)]"
    "list_all2 (\<lambda>x x'. fst x' = fst x \<and> crash_file (snd x) (snd x')) (map synced_file gs) xs"
    "crash_file \<lparr>fCur = seg_bytes (l, t, rs), fDur = seg_bytes (l, t, take j rs), fLinked = True\<rparr> f"
    using k(2) sh by (auto simp: log_files_def list_all2_append1 list_all2_Cons1)
  have "prefix (seg_bytes (l, t, take j rs)) (seg_bytes (l, t, rs))"
    using seg_bytes_append [of l t "take j rs" "drop j rs"] by simp
  then have f: "prefix (seg_bytes (l, t, take j rs)) (fCur f)" "prefix (fCur f) (seg_bytes (l, t, rs))"
    using x(3) by (simp_all add: crash_file_def)
  have "fCur f = take (length (fCur f)) (seg_bytes (l, t, rs))" using f(2) by (auto elim: prefixE)
  then have "log_dir (map seg_file gs @ [(l, take (length (fCur f)) (seg_bytes (l, t, rs)))]) d'"
    using crash_synced [OF x(2)] x(1) sh unfolding log_dir_def by (auto simp: sorted_wrt_append sorted_wrt_map word_less_nat_alt)
  then show ?thesis using that assms(2) prefix_length_le [OF f(1)] prefix_length_le [OF f(2)] by (simp add: crash_image_def)
qed

text \<open>
  Recovery after a crash in a state that satisfies the invariant gives a prefix of the submissions
  that contains all durable ones.
\<close>

lemma crash_recovery:
  assumes "wal_inv idle subs w d" "crash_image d d'" "accepts app (replayed m subs) c"
  shows "\<exists>rs res d2. Replay m u app d' c = (None, res, d2, fold (\<lambda>r c. snd (app r c)) (replayed m rs) c) \<and> prefix rs subs
    \<and> rpNextLSN res = fold (\<lambda>r. max (rLSN r)) (replayed m rs) m + 1
    \<and> (woFsync (wwO w) = FsyncAlways \<longrightarrow> (\<forall>n. (n, True) \<in> set (wwCommits w) \<longrightarrow> n \<in> rLSN ` set rs))"
proof -
  obtain gs l t rs j s where i: "log_shape gs l t rs j (wwSeg w) d" "subs = log_recs gs rs @ wwQueue w" "wal_lsns subs s w"
    "woFsync (wwO w) = FsyncAlways \<longrightarrow> (\<forall>n. (n, True) \<in> set (wwCommits w) \<longrightarrow> n \<in> rLSN ` set (log_recs gs (take j rs)))"
    using assms(1) unfolding wal_inv_def by blast
  obtain p where p: "log_dir (map seg_file gs @ [(l, take p (seg_bytes (l, t, rs)))]) d'" "plan d' = []"
    "length (seg_bytes (l, t, take j rs)) \<le> p" "p \<le> length (seg_bytes (l, t, rs))"
    by (rule crash_log [OF i(1) assms(2)])
  have wf: "\<forall>g \<in> set gs. wf_seg g" "wf_seg (l, t, rs)" using i(2,3) by (auto simp: wal_lsns_def list_all_iff)
  have "EncodedLen (newSegmentHeader l t) \<le> p" using p(3) by (simp add: seg_bytes_def)
  moreover have "accepts app (replayed m (log_recs gs rs)) c" using assms(3) i(2) by simp
  ultimately obtain k res d2 where k: "k \<le> length rs"
    "Replay m u app d' c = (None, res, d2, fold (\<lambda>r c. snd (app r c)) (replayed m (log_recs gs (take k rs))) c)"
    "rpLastLSN res = fold (\<lambda>r. max (rLSN r)) (replayed m (log_recs gs (take k rs))) m" "rpNextLSN res = rpLastLSN res + 1"
    "k < length rs \<longrightarrow> p < length (seg_bytes (l, t, take (Suc k) rs))"
    using Replay_cut [OF p(1,2) wf _ _ p(4), where m = m and u = u and c = c] by blast
  have "j \<le> k"
  proof (rule ccontr)
    assume "\<not> j \<le> k"
    then have "take (Suc k) (take j rs) = take (Suc k) rs" by (simp add: min_def)
    then have "take j rs = take (Suc k) rs @ drop (Suc k) (take j rs)" using append_take_drop_id [of "Suc k" "take j rs"] by simp
    then have "length (seg_bytes (l, t, take (Suc k) rs)) \<le> length (seg_bytes (l, t, take j rs))"
      using seg_bytes_append [of l t "take (Suc k) rs" "drop (Suc k) (take j rs)"] by simp
    then show False using k(5) p(3) \<open>\<not> j \<le> k\<close> i(1) by (simp add: log_shape_def)
  qed
  then have "take j rs = take j (take k rs)" by (simp add: min_def)
  then have "prefix (log_recs gs (take j rs)) (log_recs gs (take k rs))" by (metis same_prefix_prefix take_is_prefix)
  then have a: "n \<in> rLSN ` set (log_recs gs (take j rs)) \<Longrightarrow> n \<in> rLSN ` set (log_recs gs (take k rs))" for n by (rule prefix_LSNs)
  have "prefix (log_recs gs (take k rs)) subs" using i(2) by (simp add: take_is_prefix prefix_prefix)
  moreover have "rpNextLSN res = fold (\<lambda>r. max (rLSN r)) (replayed m (log_recs gs (take k rs))) m + 1" using k(3,4) by simp
  ultimately show ?thesis using k(2) i(4) a by (intro exI [of _ "log_recs gs (take k rs)"] exI [of _ res] exI [of _ d2]) blast
qed

end
