(* ===== verification/Wal_Durable.thy ===== *)
theory Wal_Durable
  imports Wal_Writer
begin

text \<open>
  What the write-ahead log promises across a crash, and where it does not: acknowledged writes survive
  a crash as long as no write failed, the durable LSN is ahead of the disk without the policy
  \<^verbatim>\<open>always\<close>, a batch can be acknowledged behind a torn record, and a log whose last segment lost its
  header is resumed into a log that the next recovery refuses.
\<close>

section \<open>Acknowledged writes survive a crash\<close>

text \<open>
  C2. Take any run of the log writer from an empty directory in which no system call failed fatally,
  stopped between two batches or between the write and the sync of a batch, and any state that a crash
  at that moment may leave on disk. Recovery above any LSN, with a callback that accepts the submissions,
  succeeds and replays a prefix of the accepted submissions, in submission order; with the policy \<^verbatim>\<open>always\<close> the prefix contains every submission that was
  acknowledged.
\<close>

theorem acked_writes_survive:
  assumes "wal_reach o1 subs w d" "\<not> wwFatal w"
    and "(w1, d1) = (w, d) \<or> (\<exists>t k. take k (wwQueue w) \<noteq> []
       \<and> flush_write t (take k (wwQueue w)) (w\<lparr>wwQueue := drop k (wwQueue w)\<rparr>) d = (True, w1, d1))"
    and "crash_image d1 d'" "accepts app (replayed m subs) c"
  shows "\<exists>rs res d2. Replay m u app d' c = (None, res, d2, fold (\<lambda>r c. snd (app r c)) (replayed m rs) c) \<and> prefix rs subs
    \<and> (woFsync (wwO w) = FsyncAlways \<longrightarrow> (\<forall>n. (n, True) \<in> set (wwCommits w) \<longrightarrow> n \<in> rLSN ` set rs))"
proof -
  have i: "wal_inv True subs w d" by (rule wal_reach_inv [OF assms(1,2)])
  from assms(3) show ?thesis
  proof
    assume "(w1, d1) = (w, d)"
    then show ?thesis using crash_recovery [OF i _ assms(5), of d' u] assms(4) by blast
  next
    assume "\<exists>t k. take k (wwQueue w) \<noteq> [] \<and> flush_write t (take k (wwQueue w)) (w\<lparr>wwQueue := drop k (wwQueue w)\<rparr>) d = (True, w1, d1)"
    then obtain t k where k: "take k (wwQueue w) \<noteq> []"
      "flush_write t (take k (wwQueue w)) (w\<lparr>wwQueue := drop k (wwQueue w)\<rparr>) d = (True, w1, d1)" by blast
    have "wal_inv False subs w1 d1" by (rule flush_write_inv [OF i k(2,1)])
    from crash_recovery [OF this assms(4,5), of u] flush_write_frame [OF k(2)] show ?thesis by auto
  qed
qed

section \<open>Example runs\<close>

definition sample_opts :: "string \<Rightarrow> wal_Options" where
  "sample_opts policy = \<lparr>woFsync = policy, woSegmentSize = 1000, woGroupCommitMax = 1, woGroupCommitWait = 1, woQueueDepth = 10,
     woStartLSN = 1, woResumePath = '''', woResumeOffset = 0\<rparr>"

definition fresh_dir :: "outcome list \<Rightarrow> fs" where
  "fresh_dir ps = \<lparr>files = [], plan = [Done, Done, Done, Done] @ ps\<rparr>"

definition log_of :: "bytes \<Rightarrow> bytes \<Rightarrow> outcome list \<Rightarrow> fs" where
  "log_of cur dur ps = \<lparr>files = [(SegmentName 1, \<lparr>fCur = cur, fDur = dur, fLinked = True\<rparr>)], plan = ps\<rparr>"

definition set_record :: "u64 \<Rightarrow> u8 \<Rightarrow> Record" where
  "set_record lsn v = \<lparr>rLSN = lsn, rCreatedAtMs = 5, rType = RecSet, rFlags = 0, rKey = [], rValue = [v], rExpireAtMs = 0\<rparr>"

lemma set_record_facts [simp]: "wf_record (set_record n v)" "EncodedLen (set_record n v) = 41" "rLSN (set_record n v) = n"
  by (simp_all add: set_record_def wf_record_def rectype_Valid_def EncodedLen_def)

abbreviation hdr1 :: bytes where "hdr1 \<equiv> seg_bytes (1, 0, [])"

lemma hdr1_length: "length hdr1 = 52"
  by (simp add: seg_bytes_def sample_header_len)

definition sample_writer :: "string \<Rightarrow> wal_Writer" where
  "sample_writer policy = \<lparr>wwO = sample_opts policy, wwQueue = [], wwSeg = \<lparr>sgPath = SegmentName 1, sgFirstLSN = 1, sgSize = 52, sgOpen = True\<rparr>,
     wwClosed = False, wwNextLSN = 1, wwDurableLSN = 0, wwWrittenLSN = 0, wwRecords = 0, wwBatches = 0, wwBytes = 0, wwFsyncs = 0,
     wwRotations = 0, wwPendingSync = False, wwTicker = (policy = FsyncEverySec), wwFatal = False, wwCommits = []\<rparr>"

lemma sample_opts_defaults: "policy \<noteq> '''' \<Longrightarrow> wal_withDefaults (sample_opts policy) = sample_opts policy"
  by (simp add: wal_withDefaults_def sample_opts_def)

lemma sample_open:
  assumes "policy \<noteq> ''''"
  shows "wal_Open (sample_opts policy) 0 (fresh_dir ps) = (Some (sample_writer policy), log_of hdr1 hdr1 ps)"
proof -
  have "createSegment 1 0 (fresh_dir ps) = (Some \<lparr>sgPath = SegmentName 1, sgFirstLSN = 1, sgSize = 52, sgOpen = True\<rparr>, log_of hdr1 hdr1 ps)"
    by (simp add: createSegment_def fresh_dir_def log_of_def os_create_def os_write_def os_sync_def SyncDir_def next_outcome_def
      upd_file_def Let_def write_at_def seg_bytes_def sample_header_len)
  then show ?thesis
    unfolding wal_Open_def sample_opts_defaults [OF assms] by (simp add: sample_opts_def sample_writer_def)
qed

lemma sample_reach:
  assumes "policy \<noteq> ''''"
  shows "wal_reach (sample_opts policy) [] (sample_writer policy) (log_of hdr1 hdr1 ps)"
  by (rule wal_reach.opened [OF _ _ _ sample_open [OF assms]]) (simp_all add: fresh_dir_def sample_opts_def)

definition sample_queued :: "string \<Rightarrow> Record list \<Rightarrow> wal_Writer" where
  "sample_queued policy rs = (sample_writer policy)\<lparr>wwQueue := rs, wwNextLSN := 1 + word_of_nat (length rs)\<rparr>"

lemma sample_submit:
  assumes "policy \<noteq> ''''"
  shows "wal_reach (sample_opts policy) [set_record 1 v] (sample_queued policy [set_record 1 v]) (log_of hdr1 hdr1 ps)"
    "wal_reach (sample_opts policy) [set_record 1 v, set_record 2 x] (sample_queued policy [set_record 1 v, set_record 2 x]) (log_of hdr1 hdr1 ps)"
proof -
  have s1: "Submit 0 (set_record 0 v) (sample_writer policy) = (Inr 1, sample_queued policy [set_record 1 v])"
    by (simp add: Submit_def sample_writer_def set_record_def sample_queued_def rectype_Valid_def)
  have s2: "Submit 0 (set_record 0 x) (sample_queued policy [set_record 1 v]) = (Inr 2, sample_queued policy [set_record 1 v, set_record 2 x])"
    by (simp add: Submit_def sample_writer_def set_record_def sample_queued_def rectype_Valid_def)
  show r1: "wal_reach (sample_opts policy) [set_record 1 v] (sample_queued policy [set_record 1 v]) (log_of hdr1 hdr1 ps)"
    using wal_reach.submitted [OF sample_reach [OF assms, of ps] _ _ s1] by (simp add: sample_writer_def sample_opts_def sample_queued_def)
  show "wal_reach (sample_opts policy) [set_record 1 v, set_record 2 x] (sample_queued policy [set_record 1 v, set_record 2 x]) (log_of hdr1 hdr1 ps)"
    using wal_reach.submitted [OF r1 _ _ s2] by (simp add: sample_writer_def sample_opts_def sample_queued_def)
qed

lemma turn_ok:
  assumes "wwQueue w = r # q" "wwO w = sample_opts policy" "policy = FsyncAlways \<or> policy = FsyncEverySec" "sgPath (wwSeg w) = SegmentName 1 \<and> sgOpen (wwSeg w)"
    "sgSize (wwSeg w) = length cur" "length cur < 1000"
  shows "snd (run_turn t n w (log_of cur dur [])) =
      log_of (cur @ AppendRecord [] r) (if policy = FsyncAlways then cur @ AppendRecord [] r else dur) []"
    "wwCommits (fst (run_turn t n w (log_of cur dur []))) = commit_finish (rLSN r) True (wwCommits w)"
    "wwFatal (fst (run_turn t n w (log_of cur dur []))) = wwFatal w"
    "wwDurableLSN (fst (run_turn t n w (log_of cur dur []))) = rLSN r"
  using assms by (auto simp: run_turn_def flushBatch_def flush_write_def flush_commit_def segment_write_def segment_sync_def os_write_def
    os_sync_def next_outcome_def upd_file_def log_of_def write_at_def sample_opts_def Let_def)

lemma turn_torn:
  assumes "wwQueue w = r # q" "wwO w = sample_opts policy" "sgPath (wwSeg w) = SegmentName 1 \<and> sgOpen (wwSeg w)"
    "sgSize (wwSeg w) = length cur" "length cur < 1000" "k \<le> EncodedLen r" "0 < k"
  shows "run_turn t n w (log_of cur dur [Fail k]) =
     (failBatch [r] (w\<lparr>wwQueue := q, wwSeg := (wwSeg w)\<lparr>sgSize := length cur + k\<rparr>\<rparr>), log_of (cur @ take k (AppendRecord [] r)) dur [])"
  using assms by (simp add: run_turn_def flushBatch_def flush_write_def segment_write_def os_write_def
    next_outcome_def upd_file_def log_of_def write_at_def sample_opts_def Let_def min_def)

theorem acked_writes_survive_witness:
  "\<exists>(rs :: Record list) res d2. Replay 0 False (\<lambda>r c. (None :: unit option, c @ [rLSN r])) (log_of (hdr1 @ AppendRecord [] (set_record 1 3)) [] []) []
     = (None, res, d2, fold (\<lambda>r c. c @ [rLSN r]) (replayed 0 rs) []) \<and> 1 \<in> rLSN ` set rs"
proof -
  let ?w = "sample_queued FsyncAlways [set_record 1 3]" and ?e = "hdr1 @ AppendRecord [] (set_record 1 3)"
  let ?app = "\<lambda>r c. (None :: unit option, c @ [rLSN r])"
  have a: "wwQueue ?w = set_record 1 3 # []" "wwO ?w = sample_opts FsyncAlways" "sgPath (wwSeg ?w) = SegmentName 1 \<and> sgOpen (wwSeg ?w)"
    "sgSize (wwSeg ?w) = length hdr1" "length hdr1 < 1000"
    by (simp_all add: sample_queued_def sample_writer_def hdr1_length)
  note t = turn_ok [OF a(1,2) _ a(3-5), of 0 1 hdr1, simplified]
  define w where "w = fst (run_turn 0 1 ?w (log_of hdr1 hdr1 []))"
  have r: "run_turn 0 1 ?w (log_of hdr1 hdr1 []) = (w, log_of ?e ?e [])" using t(1) by (simp add: w_def prod_eq_iff)
  have f: "wal_reach (sample_opts FsyncAlways) [set_record 1 3] w (log_of ?e ?e [])"
    by (rule wal_reach.flushed [OF sample_submit(1) r]) simp
  have w: "\<not> wwFatal w" "(1, True) \<in> set (wwCommits w)"
    using t(2,3) by (simp_all add: w_def sample_queued_def sample_writer_def commit_finish_def)
  have o1: "woFsync (wwO w) = FsyncAlways"
    by (simp add: w_def run_turn_opts a(2)) (simp add: sample_opts_def)
  have c: "crash_image (log_of ?e ?e []) (log_of ?e [] [])"
    by (auto simp: crash_image_def log_of_def crash_file_def)
  have ap: "accepts ?app (replayed 0 [set_record 1 3]) []" by simp
  from acked_writes_survive [OF f w(1) disjI1 [OF refl] c ap, of False] o1
  obtain rs :: "Record list" and res d2 where rs: "Replay 0 False ?app (log_of ?e [] []) [] = (None, res, d2, fold (\<lambda>r c. c @ [rLSN r]) (replayed 0 rs) [])"
    "\<forall>n. (n, True) \<in> set (wwCommits w) \<longrightarrow> n \<in> rLSN ` set rs"
    by (simp only: snd_conv simp_thms) (elim exE conjE, rule that, assumption+)
  have "1 \<in> rLSN ` set rs" using rs(2) w(2) by blast
  then show ?thesis using rs(1) by (intro exI conjI)
qed

section \<open>The durable LSN without the policy always\<close>

lemma log_of_dir: "log_dir [(1, cur)] (log_of cur dur ps)"
  by (simp add: log_dir_def log_of_def)

text \<open>
  C37. The documented meaning of the durable LSN, \<^emph>\<open>known to be on stable storage\<close>, holds only
  with the policy \<^verbatim>\<open>always\<close>: with \<^verbatim>\<open>everysec\<close> a write is acknowledged and counted as durable before
  anything is synced, and a crash at that moment loses it.
\<close>

theorem DurableLSN_ahead_of_disk:
  "\<exists>subs w d d' res d2. wal_reach (sample_opts FsyncEverySec) subs w d \<and> \<not> wwFatal w \<and> wal_DurableLSN w = 1 \<and> (1, True) \<in> set (wwCommits w)
     \<and> crash_image d d' \<and> Replay 0 False (\<lambda>r c. (None :: unit option, c @ [rLSN r])) d' [] = (None, res, d2, [])"
proof -
  let ?w = "sample_queued FsyncEverySec [set_record 1 3]" and ?e = "hdr1 @ AppendRecord [] (set_record 1 3)"
  have a: "wwQueue ?w = set_record 1 3 # []" "wwO ?w = sample_opts FsyncEverySec" "sgPath (wwSeg ?w) = SegmentName 1 \<and> sgOpen (wwSeg ?w)"
    "sgSize (wwSeg ?w) = length hdr1" "length hdr1 < 1000"
    by (simp_all add: sample_queued_def sample_writer_def hdr1_length)
  note t = turn_ok [OF a(1,2) _ a(3-5), of 0 1 hdr1, simplified]
  define w where "w = fst (run_turn 0 1 ?w (log_of hdr1 hdr1 []))"
  have r: "run_turn 0 1 ?w (log_of hdr1 hdr1 []) = (w, log_of ?e hdr1 [])" using t(1) by (simp add: w_def prod_eq_iff)
  have "wal_reach (sample_opts FsyncEverySec) [set_record 1 3] w (log_of ?e hdr1 [])"
    by (rule wal_reach.flushed [OF sample_submit(1) r]) simp
  moreover have "\<not> wwFatal w" "(1, True) \<in> set (wwCommits w)" "wal_DurableLSN w = 1"
    using t(2-4) by (simp_all add: w_def sample_queued_def sample_writer_def commit_finish_def wal_DurableLSN_def)
  moreover have "crash_image (log_of ?e hdr1 []) (log_of hdr1 hdr1 [])"
    by (auto simp: crash_image_def log_of_def crash_file_def)
  moreover have "\<exists>res d2. Replay 0 False (\<lambda>r c. (None :: unit option, c @ [rLSN r])) (log_of hdr1 hdr1 []) [] = (None, res, d2, [])"
    using Replay_complete [of "[(1, 0, [])]" "log_of hdr1 hdr1 []" "\<lambda>r c. (None :: unit option, c @ [rLSN r])" 0 "[]" False]
      log_of_dir [of hdr1 hdr1 "[]"] by auto
  ultimately show ?thesis by blast
qed

section \<open>Logs that recovery refuses\<close>

lemma Replay_one_corrupt:
  assumes "\<And>res. \<exists>sc st. ScanSegment (replay_record m app) (length cur) cur (res, c) = (sc, st, None) \<and> scFault sc = FaultCorrupt \<and> scFaultOffset sc = off"
  shows "fst (Replay m False app (log_of cur dur ps) c) = Some (ErrCorruptMidLog off)"
proof -
  have L: "ListSegments (log_of cur dur ps) = [\<lparr>siPath = SegmentName 1, siFirstLSN = 1, siSize = length cur\<rparr>]"
    using ListSegments_log [OF log_of_dir [of cur dur ps]] by (simp add: seg_info_def)
  define res where "res = \<lparr>rpSegments = int (length (ListSegments (log_of cur dur ps))), rpRecords = 0, rpApplied = 0, rpSkipped = 0, rpLastLSN = m,
      rpNextLSN = 0, rpResumePath = '''', rpResumeOffset = 0, rpTruncated = False, rpTruncatedAt = 0, rpTruncatedPath = '''',
      rpUnsafeTruncated = False\<rparr>"
  obtain sc st where s: "ScanSegment (replay_record m app) (length cur) cur (res, c) = (sc, st, None)" "scFault sc = FaultCorrupt" "scFaultOffset sc = off"
    using assms by blast
  have "map_of (files (log_of cur dur ps)) (SegmentName 1) = Some \<lparr>fCur = cur, fDur = dur, fLinked = True\<rparr>" by (simp add: log_of_def)
  then have "replay_segs m False app (ListSegments (log_of cur dur ps)) res (log_of cur dur ps) c = (Some (ErrCorruptMidLog off), fst st, log_of cur dur ps, snd st)"
    unfolding L using s by (cases st) simp
  then show ?thesis unfolding Replay_def res_def [symmetric] Let_def by (simp add: L)
qed

text \<open>A record without its last byte, followed by another record, is reported as corrupt.\<close>

lemma short_record_corrupt:
  assumes "v \<noteq> hd (AppendRecord [] (set_record 2 x))"
  shows "fst (Replay 0 False app (log_of (hdr1 @ take 40 (AppendRecord [] (set_record 1 v)) @ AppendRecord [] (set_record 2 x)) dur ps) c)
    = Some (ErrCorruptMidLog 52)"
proof (rule Replay_one_corrupt)
  fix res
  let ?r = "set_record 1 v" and ?e = "AppendRecord [] (set_record 2 x)"
  let ?tr = "take 40 (AppendRecord [] ?r) @ ?e" and ?h = "newSegmentHeader 1 0"
  have e: "?e = hd ?e # tl ?e" by simp
  define y where "y = butlast (AppendRecord [] ?r)"
  have "last (AppendRecord [] ?r) = v" by (simp add: AppendRecord_Nil payload_of_def set_record_def)
  then have y: "AppendRecord [] ?r = y @ [v]" using append_butlast_last_id [of "AppendRecord [] ?r"] by (simp add: y_def)
  have l: "length y = 40" by (simp add: y_def)
  have n: "AppendRecord [] ?r ! 40 = v" "(AppendRecord [] ?r)[40 := hd ?e] = take 40 (AppendRecord [] ?r) @ [hd ?e]"
    unfolding y by (simp_all add: nth_append list_update_append l)
  have t: "?tr = (AppendRecord [] ?r)[40 := hd ?e] @ tl ?e" unfolding n(2) using e by simp
  have D: "DecodeRecord ?tr (int (length ?tr)) = Inl ErrBadCRC"
    unfolding t by (rule damaged_payload) (use assms n(1) in auto)
  then have st: "stuck ?tr" by (simp add: stuck_def)
  have h: "hdr1 @ ?tr = AppendRecord [] ?h @ enc_records [] @ ?tr" by (simp add: seg_bytes_def)
  obtain sc where s: "ScanSegment (replay_record 0 app) (length (hdr1 @ ?tr)) (hdr1 @ ?tr) (res, c) = (sc, (res, c), None)"
    "sc = tail_fault ?tr (length (AppendRecord [] ?h @ enc_records [])) (scanned [] (EncodedLen ?h)
       ((scan_start (length (hdr1 @ ?tr)))\<lparr>scFirstLSN := rLSN ?h, scLastGood := EncodedLen ?h\<rparr>))"
    using ScanSegment_enc [OF newSegmentHeader_wf list.pred_inject(1) st deliver.simps(1) h, of "replay_record 0 app" "(res, c)"]
    by (elim exE conjE) (rule that, assumption, simp)
  have "scFault sc = FaultCorrupt" "scFaultOffset sc = 52"
    using D unfolding s(2) tail_fault_def by (simp_all add: scan_err_def set_fault_def sample_header_len)
  then show "\<exists>sc st. ScanSegment (replay_record 0 app) (length (hdr1 @ ?tr)) (hdr1 @ ?tr) (res, c) = (sc, st, None)
      \<and> scFault sc = FaultCorrupt \<and> scFaultOffset sc = 52"
    using s(1) by blast
qed

text \<open>
  C38. After a failed write the writer goroutine keeps flushing what is already queued, behind the
  partial bytes of the failed batch. There is a run in which the write of the first record fails one byte
  short, the second record is then written, synced and acknowledged as successful, and recovery of
  the log refuses to start because of the torn record in front of it.
\<close>

theorem ack_behind_torn_record:
  "\<exists>subs w d. wal_reach (sample_opts FsyncAlways) subs w d \<and> (1, False) \<in> set (wwCommits w) \<and> (2, True) \<in> set (wwCommits w)
     \<and> map (fDur \<circ> snd) (files d) = map (fCur \<circ> snd) (files d) \<and> plan d = []
     \<and> fst (Replay 0 False (\<lambda>r c. (None :: unit option, c @ [rLSN r])) d []) = Some (ErrCorruptMidLog 52)"
proof -
  define v where "v = hd (AppendRecord [] (set_record 2 0)) + 1"
  have v: "v \<noteq> hd (AppendRecord [] (set_record 2 0))" by (simp add: v_def)
  let ?w = "sample_queued FsyncAlways [set_record 1 v, set_record 2 0]"
  let ?cur = "hdr1 @ take 40 (AppendRecord [] (set_record 1 v))"
  define w1 where "w1 = failBatch [set_record 1 v] (?w\<lparr>wwQueue := [set_record 2 0], wwSeg := (wwSeg ?w)\<lparr>sgSize := length hdr1 + 40\<rparr>\<rparr>)"
  have a: "wwQueue ?w = set_record 1 v # [set_record 2 0]" "wwO ?w = sample_opts FsyncAlways" "sgPath (wwSeg ?w) = SegmentName 1 \<and> sgOpen (wwSeg ?w)"
    "sgSize (wwSeg ?w) = length hdr1" "length hdr1 < 1000" "40 \<le> EncodedLen (set_record 1 v)" "(0 :: nat) < 40"
    by (simp_all add: sample_queued_def sample_writer_def hdr1_length)
  have t1: "run_turn 0 1 ?w (log_of hdr1 hdr1 [Fail 40]) = (w1, log_of ?cur hdr1 [])"
    unfolding w1_def by (rule turn_torn [OF a])
  have b: "wwQueue w1 = set_record 2 0 # []" "wwO w1 = sample_opts FsyncAlways" "sgPath (wwSeg w1) = SegmentName 1 \<and> sgOpen (wwSeg w1)"
    "sgSize (wwSeg w1) = length ?cur" "length ?cur < 1000" "wwCommits w1 = [(1, False)]"
    using a by (simp_all add: w1_def failBatch_def setFatal_def hdr1_length commit_finish_def sample_queued_def sample_writer_def)
  define w2 where "w2 = fst (run_turn 0 1 w1 (log_of ?cur hdr1 []))"
  note t2 = turn_ok [OF b(1,2) disjI1 [OF refl] b(3-5), of 0 1 hdr1]
  have r2: "run_turn 0 1 w1 (log_of ?cur hdr1 []) = (w2, log_of (?cur @ AppendRecord [] (set_record 2 0)) (?cur @ AppendRecord [] (set_record 2 0)) [])"
    using t2(1) by (simp add: w2_def prod_eq_iff)
  have "wal_reach (sample_opts FsyncAlways) [set_record 1 v, set_record 2 0] w2
      (log_of (?cur @ AppendRecord [] (set_record 2 0)) (?cur @ AppendRecord [] (set_record 2 0)) [])"
    by (rule wal_reach.flushed [OF wal_reach.flushed [OF sample_submit(2) t1] r2]) simp
  moreover have "wwCommits w2 = [(1, False), (2, True)]" using t2(2) b(6) by (simp add: w2_def commit_finish_def)
  ultimately show ?thesis
    using short_record_corrupt [OF v] by (intro exI conjI) (assumption, simp_all add: log_of_def)
qed

lemma Replay_empty_file:
  "\<exists>res. Replay 0 False app (log_of [] [] []) c = (None, res, log_of [] [] [], c) \<and> rpResumePath res = SegmentName 1 \<and> rpResumeOffset res = 0
     \<and> rpNextLSN res = 1"
proof -
  have L: "ListSegments (log_of [] [] []) = [\<lparr>siPath = SegmentName 1, siFirstLSN = 1, siSize = 0\<rparr>]"
    using ListSegments_log [OF log_of_dir [of "[]" "[]" "[]"]] by (simp add: seg_info_def)
  have S: "ScanSegment fn 0 [] st = (set_fault FaultTornTail 0 ErrNoSegmentHdr (scan_start 0), st, None)" for fn :: "Record \<Rightarrow> 'c \<Rightarrow> 'd option \<times> 'c" and st
    by (simp add: ScanSegment_def scan_loop.simps scan_start_def)
  show ?thesis
    unfolding Replay_def L
    by (simp add: L S log_of_def truncateSegment_def os_truncate_def os_sync_def next_outcome_def upd_file_def set_fault_def scan_start_def Let_def)
qed

lemma headerless_corrupt: "fst (Replay 0 False app (log_of (AppendRecord [] (set_record n v)) dur ps) c) = Some (ErrCorruptMidLog 0)"
proof (rule Replay_one_corrupt)
  fix res
  let ?e = "AppendRecord [] (set_record n v)"
  have D: "DecodeRecord ?e (int (length ?e)) = Inr (set_record n v, 41)" using decode_front [of "set_record n v" ?e "[]"] by simp
  have p: "parseSegmentHeader (set_record n v) = Inl (ErrNotSegmentHdr RecSet)" by (simp add: parseSegmentHeader_def set_record_def)
  show "\<exists>sc st. ScanSegment (replay_record 0 app) (length ?e) ?e (res, c) = (sc, st, None) \<and> scFault sc = FaultCorrupt \<and> scFaultOffset sc = 0"
    using scan_step [of 0 ?e "replay_record 0 app" True "scan_start (length ?e)" "(res, c)"] D p
    unfolding ScanSegment_def scan_start_def [symmetric] by (simp add: set_fault_def)
qed

text \<open>
  C39. A crash right after a segment file has been created, before its header is on disk, can leave an
  empty last segment. Recovery accepts it as a torn tail and the writer resumes in it at offset 0
  without writing a header. A record that is then submitted, written, synced and acknowledged makes
  the log unreadable: the next recovery refuses to start.
\<close>

theorem empty_segment_resumed:
  "crash_image (snd (os_create (SegmentName 1) \<lparr>files = [], plan = []\<rparr>)) (log_of [] [] [])
   \<and> (\<exists>res w w1 n w2 d2. Replay 0 False (\<lambda>r c. (None :: unit option, c @ [rLSN r])) (log_of [] [] []) [] = (None, res, log_of [] [] [], [])
      \<and> wal_Open ((sample_opts FsyncAlways)\<lparr>woResumePath := rpResumePath res, woResumeOffset := rpResumeOffset res, woStartLSN := rpNextLSN res\<rparr>) 0
          (log_of [] [] []) = (Some w, log_of [] [] [])
      \<and> Submit 0 (set_record 0 v) w = (Inr n, w1) \<and> run_turn 0 1 w1 (log_of [] [] []) = (w2, d2)
      \<and> \<not> wwFatal w2 \<and> (n, True) \<in> set (wwCommits w2)
      \<and> fst (Replay 0 False (\<lambda>r c. (None :: unit option, c @ [rLSN r])) d2 []) = Some (ErrCorruptMidLog 0))"
proof -
  let ?app = "\<lambda>r c. (None :: unit option, c @ [rLSN r])"
  have c: "crash_image (snd (os_create (SegmentName 1) \<lparr>files = [], plan = []\<rparr>)) (log_of [] [] [])"
    unfolding crash_image_def by (intro conjI exI [of _ "\<lambda>_. True"]) (simp_all add: os_create_def next_outcome_def log_of_def crash_file_def)
  obtain res where r: "Replay 0 False ?app (log_of [] [] []) [] = (None, res, log_of [] [] [], [])" "rpResumePath res = SegmentName 1"
    "rpResumeOffset res = 0" "rpNextLSN res = 1"
    using Replay_empty_file [of ?app "[]"] by blast
  let ?o = "(sample_opts FsyncAlways)\<lparr>woResumePath := rpResumePath res, woResumeOffset := rpResumeOffset res, woStartLSN := rpNextLSN res\<rparr>"
  define w where "w = (sample_writer FsyncAlways)\<lparr>wwO := ?o, wwSeg := \<lparr>sgPath = SegmentName 1, sgFirstLSN = 1, sgSize = 0, sgOpen = True\<rparr>\<rparr>"
  have "wal_withDefaults ?o = ?o" using r by (simp add: wal_withDefaults_def sample_opts_def)
  then have o: "wal_Open ?o 0 (log_of [] [] []) = (Some w, log_of [] [] [])"
    unfolding wal_Open_def using r SegmentName_parts(2) [of 1] parse_name [of 1]
    by (simp add: openSegmentForAppend_def log_of_def sample_opts_def sample_writer_def w_def)
  define w1 where "w1 = w\<lparr>wwQueue := [set_record 1 v], wwNextLSN := 2\<rparr>"
  have s: "Submit 0 (set_record 0 v) w = (Inr 1, w1)"
    by (simp add: Submit_def w_def w1_def sample_writer_def set_record_def rectype_Valid_def)
  define w2 where "w2 = fst (run_turn 0 1 w1 (log_of [] [] []))"
  have t: "run_turn 0 1 w1 (log_of [] [] []) = (w2, log_of (AppendRecord [] (set_record 1 v)) (AppendRecord [] (set_record 1 v)) [])"
    "\<not> wwFatal w2" "(1, True) \<in> set (wwCommits w2)"
    by (auto simp: w2_def w1_def w_def sample_writer_def sample_opts_def run_turn_def flushBatch_def flush_write_def flush_commit_def segment_write_def
      segment_sync_def os_write_def os_sync_def next_outcome_def upd_file_def log_of_def write_at_def Let_def commit_finish_def)
  show ?thesis using c r(1) o s t headerless_corrupt [of ?app 1 v] by blast
qed

end
