(* ===== verification/Snapshot.thy ===== *)
theory Snapshot
  imports Wal_Segment
begin

text \<open>
  \<^verbatim>\<open>internal/snapshot\<close>: writing, loading and pruning snapshot files, on the same model of a directory
  as the log (here the snapshot directory). A file is read whole; the errors of reading an existing
  file are not modelled. The callback that receives entries transforms a state and may fail.
\<close>

section \<open>Format\<close>

abbreviation HeaderLen :: nat where "HeaderLen \<equiv> 32"
abbreviation FooterLen :: nat where "FooterLen \<equiv> 20"
abbreviation entryHeaderLen :: nat where "entryHeaderLen \<equiv> 14"
abbreviation FormatVersion :: u32 where "FormatVersion \<equiv> 1"

definition headerMagic :: bytes where "headerMagic = [75, 86, 83, 78, 65, 80, 48, 49]"
definition footerMagic :: bytes where "footerMagic = [75, 86, 83, 78, 65, 80, 70, 84]"

record SnapEntry =
  seKey :: bytes
  seValue :: bytes
  seExpireAtMs :: u64

definition snap_Name :: "u64 \<Rightarrow> string" where
  "snap_Name lsn = pad_left 16 (dec_digits (unat lsn)) @ ''.snap''"

section \<open>Writing\<close>

text \<open>\<^verbatim>\<open>os.OpenFile\<close> with \<^verbatim>\<open>O_CREATE|O_TRUNC\<close>, and \<^verbatim>\<open>os.Rename\<close>.\<close>

definition os_open_trunc :: "string \<Rightarrow> fs \<Rightarrow> bool \<times> fs" where
  "os_open_trunc name d = (case next_outcome d of
       (Fail _, d) \<Rightarrow> (False, d)
     | (Done, d) \<Rightarrow> (True, if map_of (files d) name \<noteq> None then upd_file name (\<lambda>f. f\<lparr>fCur := []\<rparr>) d
                           else d\<lparr>files := files d @ [(name, \<lparr>fCur = [], fDur = [], fLinked = False\<rparr>)]\<rparr>))"

definition os_rename :: "string \<Rightarrow> string \<Rightarrow> fs \<Rightarrow> bool \<times> fs" where
  "os_rename old new d = (case next_outcome d of
       (Fail _, d) \<Rightarrow> (False, d)
     | (Done, d) \<Rightarrow> (case map_of (files d) old of
           None \<Rightarrow> (False, d)
         | Some f \<Rightarrow> (True, d\<lparr>files := filter (\<lambda>(n, _). n \<noteq> old \<and> n \<noteq> new) (files d) @ [(new, f\<lparr>fLinked := False\<rparr>)]\<rparr>)))"

record snap_Writer =
  swTmp :: string
  swFinal :: string
  swPos :: nat
  swCrc :: u32
  swCount :: u64
  swLsn :: u64
  swWritten :: nat
  swClosed :: bool

datatype snap_werror = SnapCreate | SnapKeyTooBig | SnapValueTooBig | SnapIO | SnapClosed

text \<open>\<open>swPos\<close> is the offset of the open file.\<close>

definition snap_write :: "bytes \<Rightarrow> snap_Writer \<Rightarrow> fs \<Rightarrow> bool \<times> snap_Writer \<times> fs" where
  "snap_write b w d =
     (let (n, ok, d) = os_write (swTmp w) (swPos w) b d;
          w = w\<lparr>swPos := swPos w + n\<rparr>
      in if \<not> ok \<or> n \<noteq> length b then (False, w, d)
         else (True, w\<lparr>swCrc := crc_update b (swCrc w), swWritten := swWritten w + n\<rparr>, d))"

definition snap_abort :: "snap_Writer \<Rightarrow> fs \<Rightarrow> fs" where
  "snap_abort w d = snd (os_remove (swTmp w) (snd (os_close d)))"

definition snap_header :: "u64 \<Rightarrow> u64 \<Rightarrow> bytes" where
  "snap_header lsn createdAtMs = headerMagic @ PutUint32 FormatVersion @ PutUint64 createdAtMs @ PutUint64 lsn @ replicate 4 0"

definition snap_Create :: "u64 \<Rightarrow> u64 \<Rightarrow> fs \<Rightarrow> (snap_werror + snap_Writer) \<times> fs" where
  "snap_Create lsn createdAtMs d =
     (let final = snap_Name lsn;
          tmp = final @ ''.tmp'';
          (ok, d) = os_open_trunc tmp d
      in if \<not> ok then (Inl SnapCreate, d)
      else let w = \<lparr>swTmp = tmp, swFinal = final, swPos = 0, swCrc = 0, swCount = 0, swLsn = lsn, swWritten = 0, swClosed = False\<rparr>;
               (ok, w, d) = snap_write (snap_header lsn createdAtMs) w d
           in if \<not> ok then (Inl SnapIO, snap_abort w d) else (Inr w, d))"

definition snap_entry :: "SnapEntry \<Rightarrow> bytes" where
  "snap_entry e = PutUint16 (word_of_nat (length (seKey e))) @ PutUint32 (word_of_nat (length (seValue e)))
     @ PutUint64 (seExpireAtMs e) @ seKey e @ seValue e"

definition snap_Add :: "SnapEntry \<Rightarrow> snap_Writer \<Rightarrow> fs \<Rightarrow> snap_werror option \<times> snap_Writer \<times> fs" where
  "snap_Add e w d =
     (if length (seKey e) > maxKeyLen then (Some SnapKeyTooBig, w, d)
      else if length (seValue e) > maxValLen then (Some SnapValueTooBig, w, d)
      else let (ok, w, d) = snap_write (snap_entry e) w d
           in if \<not> ok then (Some SnapIO, w, d) else (None, w\<lparr>swCount := swCount w + 1\<rparr>, d))"

definition snap_Commit :: "snap_Writer \<Rightarrow> fs \<Rightarrow> (snap_werror + string) \<times> snap_Writer \<times> fs" where
  "snap_Commit w d =
     (if swClosed w then (Inl SnapClosed, w, d)
      else let w = w\<lparr>swClosed := True\<rparr>;
               footer = footerMagic @ PutUint64 (swCount w);
               crc = crc_update footer (swCrc w);
               (n, ok, d) = os_write (swTmp w) (swPos w) (footer @ PutUint32 crc) d
           in if \<not> ok \<or> n \<noteq> FooterLen then (Inl SnapIO, w, snap_abort w d)
      else let (ok, d) = os_sync (swTmp w) d
           in if \<not> ok then (Inl SnapIO, w, snap_abort w d)
      else let (ok, d) = os_close d
           in if \<not> ok then (Inl SnapIO, w, snd (os_remove (swTmp w) d))
      else let (ok, d) = os_rename (swTmp w) (swFinal w) d
           in if \<not> ok then (Inl SnapIO, w, snd (os_remove (swTmp w) d))
      else let (ok, d) = SyncDir d
           in if \<not> ok then (Inl SnapIO, w, d) else (Inr (swFinal w), w, d))"

definition snap_Abort :: "snap_Writer \<Rightarrow> fs \<Rightarrow> snap_Writer \<times> fs" where
  "snap_Abort w d = (if swClosed w then (w, d) else (w\<lparr>swClosed := True\<rparr>, snap_abort w d))"

section \<open>Loading\<close>

record SnapInfo =
  siSnapPath :: string
  siLastIncludedLSN :: u64
  siSnapSize :: nat

definition has_suffix :: "string \<Rightarrow> string \<Rightarrow> bool" where
  "has_suffix suf s \<longleftrightarrow> length suf \<le> length s \<and> drop (length s - length suf) s = suf"

definition snap_name_lsn :: "string \<Rightarrow> u64 option" where
  "snap_name_lsn name = (if \<not> has_suffix ''.snap'' name then None else ParseUint64 (take (length name - 5) name))"

definition snap_List :: "fs \<Rightarrow> SnapInfo list" where
  "snap_List d = rev (sort_key siLastIncludedLSN
     (List.map_filter (\<lambda>(name, f). map_option (\<lambda>lsn. \<lparr>siSnapPath = name, siLastIncludedLSN = lsn, siSnapSize = length (fCur f)\<rparr>)
        (snap_name_lsn name)) (files d)))"

record SnapHeader =
  shVersion :: u32
  shCreatedAtMs :: u64
  shLastIncludedLSN :: u64
  shEntryCount :: u64

datatype 'e snap_error =
    SnapOpenErr
  | SnapIncomplete
  | SnapBadFooter
  | SnapBadCRC
  | SnapBadMagic
  | SnapBadVersion u32
  | SnapImplausible nat nat
  | SnapEntryCount
  | SnapFn 'e
  | ErrNoSnapshot

text \<open>The checksum pass reads chunks of one mebibyte.\<close>

function crcRange :: "bytes \<Rightarrow> u32 \<Rightarrow> u32" where
  "crcRange bs crc = (if bs = [] then crc else crcRange (drop 1048576 bs) (crc_update (take 1048576 bs) crc))"
  by pat_completeness auto
termination
  by (relation "measure (\<lambda>(bs, crc). length bs)") auto

declare crcRange.simps [simp del]

function load_entries :: "(SnapEntry \<Rightarrow> 'c \<Rightarrow> 'e option \<times> 'c) \<Rightarrow> bytes \<Rightarrow> u64 \<Rightarrow> 'c \<Rightarrow> ('e snap_error + u64) \<times> 'c" where
  "load_entries fn body seen c =
     (if body = [] then (Inr seen, c)
      else if length body < entryHeaderLen then (Inl SnapIncomplete, c)
      else let keyLen = unat (Uint16 (subslice 0 2 body));
               valLen = unat (Uint32 (subslice 2 6 body));
               expireAt = Uint64 (subslice 6 14 body)
           in if valLen > maxValLen \<or> keyLen > maxKeyLen then (Inl (SnapImplausible keyLen valLen), c)
      else if entryHeaderLen + (keyLen + valLen) > length body then (Inl SnapIncomplete, c)
      else case fn \<lparr>seKey = subslice 14 (14 + keyLen) body, seValue = subslice (14 + keyLen) (14 + keyLen + valLen) body, seExpireAtMs = expireAt\<rparr> c of
             (Some e, c) \<Rightarrow> (Inl (SnapFn e), c)
           | (None, c) \<Rightarrow> load_entries fn (drop (entryHeaderLen + (keyLen + valLen)) body) (seen + 1) c)"
  by pat_completeness auto
termination
  by (relation "measure (\<lambda>(fn, body, seen, c). length body)") auto

declare load_entries.simps [simp del]

definition snap_Load :: "(SnapEntry \<Rightarrow> 'c \<Rightarrow> 'e option \<times> 'c) \<Rightarrow> bytes \<Rightarrow> 'c \<Rightarrow> ('e snap_error + SnapHeader) \<times> 'c" where
  "snap_Load fn content c =
     (let fsize = length content
      in if fsize < HeaderLen + FooterLen then (Inl SnapIncomplete, c)
      else let footer = subslice (fsize - FooterLen) fsize content
           in if subslice 0 8 footer \<noteq> footerMagic then (Inl SnapBadFooter, c)
      else let count = Uint64 (subslice 8 16 footer);
               wantCRC = Uint32 (subslice 16 20 footer)
           in if crcRange (take (fsize - 4) content) 0 \<noteq> wantCRC then (Inl SnapBadCRC, c)
      else let head = take HeaderLen content
           in if subslice 0 8 head \<noteq> headerMagic then (Inl SnapBadMagic, c)
      else let version = Uint32 (subslice 8 12 head)
           in if version \<noteq> FormatVersion then (Inl (SnapBadVersion version), c)
      else let hdr = \<lparr>shVersion = version, shCreatedAtMs = Uint64 (subslice 12 20 head), shLastIncludedLSN = Uint64 (subslice 20 28 head), shEntryCount = count\<rparr>
           in case load_entries fn (subslice HeaderLen (fsize - FooterLen) content) 0 c of
                (Inl e, c) \<Rightarrow> (Inl e, c)
              | (Inr seen, c) \<Rightarrow> if seen \<noteq> count then (Inl SnapEntryCount, c) else (Inr hdr, c))"

fun load_newest :: "(SnapEntry \<Rightarrow> 'c \<Rightarrow> 'e option \<times> 'c) \<Rightarrow> SnapInfo list \<Rightarrow> 'e snap_error \<Rightarrow> fs \<Rightarrow> 'c \<Rightarrow> ('e snap_error + SnapHeader \<times> string) \<times> 'c" where
  "load_newest fn [] lastErr d c = (Inl lastErr, c)"
| "load_newest fn (s # ss) lastErr d c =
     (case map_of (files d) (siSnapPath s) of
        None \<Rightarrow> load_newest fn ss SnapOpenErr d c
      | Some f \<Rightarrow> (case snap_Load fn (fCur f) c of
            (Inr hdr, c) \<Rightarrow> (Inr (hdr, siSnapPath s), c)
          | (Inl e, c) \<Rightarrow> load_newest fn ss e d c))"

definition LoadNewestValid :: "(SnapEntry \<Rightarrow> 'c \<Rightarrow> 'e option \<times> 'c) \<Rightarrow> fs \<Rightarrow> 'c \<Rightarrow> ('e snap_error + SnapHeader \<times> string) \<times> 'c" where
  "LoadNewestValid fn d c = (let snaps = snap_List d in if snaps = [] then (Inl ErrNoSnapshot, c) else load_newest fn snaps ErrNoSnapshot d c)"

section \<open>Pruning\<close>

fun prune_old :: "SnapInfo list \<Rightarrow> nat \<Rightarrow> fs \<Rightarrow> nat \<times> bool \<times> fs" where
  "prune_old [] removed d = (removed, True, d)"
| "prune_old (s # ss) removed d =
     (let (ok, d) = os_remove (siSnapPath s) d in if \<not> ok then (removed, False, d) else prune_old ss (removed + 1) d)"

fun remove_all :: "string list \<Rightarrow> fs \<Rightarrow> fs" where
  "remove_all [] d = d"
| "remove_all (n # ns) d = remove_all ns (snd (os_remove n d))"

definition snap_Prune :: "int \<Rightarrow> fs \<Rightarrow> nat \<times> bool \<times> fs" where
  "snap_Prune keep d =
     (let keep = (if keep < 1 then 1 else keep);
          (removed, ok, d) = prune_old (drop (nat keep) (snap_List d)) 0 d
      in if \<not> ok then (removed, False, d)
         else (removed, True, remove_all (filter (has_suffix ''.tmp'') (map fst (files d))) d))"

end
