(* ===== verification/Snapshot_Load.thy ===== *)
theory Snapshot_Load
  imports Snapshot Wal_Writer
begin

text \<open>
  A snapshot that was committed is loaded back exactly, a damaged one is refused before any entry
  is delivered, a snapshot in progress is invisible to recovery, and pruning keeps the newest ones.
\<close>

section \<open>Contents of a snapshot file\<close>

definition wf_entry :: "SnapEntry \<Rightarrow> bool" where
  "wf_entry e \<longleftrightarrow> length (seKey e) \<le> maxKeyLen \<and> length (seValue e) \<le> maxValLen"

definition snap_body :: "SnapEntry list \<Rightarrow> bytes" where
  "snap_body es = concat (map snap_entry es)"

text \<open>The file with the given contents of the reserved header field.\<close>

definition snap_file :: "u64 \<Rightarrow> u64 \<Rightarrow> bytes \<Rightarrow> SnapEntry list \<Rightarrow> bytes" where
  "snap_file lsn t rsv es =
     (let bs = headerMagic @ PutUint32 FormatVersion @ PutUint64 t @ PutUint64 lsn @ rsv @ snap_body es
               @ footerMagic @ PutUint64 (word_of_nat (length es))
      in bs @ PutUint32 (crc_Checksum bs))"

text \<open>The callback on a list of entries, up to the first error.\<close>

fun feed :: "(SnapEntry \<Rightarrow> 'c \<Rightarrow> 'e option \<times> 'c) \<Rightarrow> SnapEntry list \<Rightarrow> 'c \<Rightarrow> 'e option \<times> 'c" where
  "feed fn [] c = (None, c)"
| "feed fn (e # es) c = (case fn e c of (Some x, c) \<Rightarrow> (Some x, c) | (None, c) \<Rightarrow> feed fn es c)"

lemma crcRange_eq: "crcRange bs c = crc_update bs c"
proof (induction bs c rule: crcRange.induct)
  case (1 bs c)
  show ?case
  proof (cases "bs = []")
    case True
    then show ?thesis by (simp add: crcRange.simps)
  next
    case False
    then show ?thesis using 1 crc_update_append [of "take 1048576 bs" "drop 1048576 bs" c] by (subst crcRange.simps) simp
  qed
qed

lemma length_snap_entry: "length (snap_entry e) = 14 + (length (seKey e) + length (seValue e))"
  by (simp add: snap_entry_def)

lemma length_magic [simp]: "length headerMagic = 8" "length footerMagic = 8"
  by (simp_all add: headerMagic_def footerMagic_def)

lemma snap_entry_slices:
  assumes "wf_entry e"
  shows "unat (Uint16 (subslice 0 2 (snap_entry e @ rest))) = length (seKey e)" "unat (Uint32 (subslice 2 6 (snap_entry e @ rest))) = length (seValue e)"
    "Uint64 (subslice 6 14 (snap_entry e @ rest)) = seExpireAtMs e"
    "subslice 14 (14 + length (seKey e)) (snap_entry e @ rest) = seKey e"
    "subslice (14 + length (seKey e)) (14 + length (seKey e) + length (seValue e)) (snap_entry e @ rest) = seValue e"
proof -
  have "length (seKey e) < 2 ^ 16" "length (seValue e) < 2 ^ 32" using assms by (auto simp: wf_entry_def)
  then show "unat (Uint16 (subslice 0 2 (snap_entry e @ rest))) = length (seKey e)" "unat (Uint32 (subslice 2 6 (snap_entry e @ rest))) = length (seValue e)"
    by (simp_all add: snap_entry_def subslice_def)
qed (simp_all add: snap_entry_def subslice_def)

lemma load_entries_step:
  assumes "wf_entry e"
  shows "load_entries fn (snap_entry e @ rest) seen c =
    (case fn e c of (Some x, c) \<Rightarrow> (Inl (SnapFn x), c) | (None, c) \<Rightarrow> load_entries fn rest (seen + 1) c)"
proof -
  let ?k = "length (seKey e)" and ?v = "length (seValue e)"
  note s = snap_entry_slices [OF assms, of rest]
  have g: "\<not> (?v > maxValLen \<or> ?k > maxKeyLen)" "snap_entry e @ rest \<noteq> []" "\<not> length (snap_entry e @ rest) < entryHeaderLen"
    "\<not> entryHeaderLen + (?k + ?v) > length (snap_entry e @ rest)"
    using assms length_snap_entry [of e] by (auto simp: wf_entry_def simp del: length_greater_0_conv)
  have d: "drop (entryHeaderLen + (?k + ?v)) (snap_entry e @ rest) = rest" by (simp add: length_snap_entry)
  have r: "\<lparr>seKey = seKey e, seValue = seValue e, seExpireAtMs = seExpireAtMs e\<rparr> = e" by simp
  show ?thesis
    by (subst load_entries.simps) (simp only: g(2-4) if_False s Let_def g(1) d r)
qed

lemma load_entries_enc:
  assumes "list_all wf_entry es"
  shows "load_entries fn (snap_body es) seen c =
    (case feed fn es c of (Some x, c) \<Rightarrow> (Inl (SnapFn x), c) | (None, c) \<Rightarrow> (Inr (seen + word_of_nat (length es)), c))"
  using assms
proof (induction es arbitrary: seen c)
  case Nil
  then show ?case by (simp add: snap_body_def load_entries.simps)
next
  case (Cons e es)
  have b: "snap_body (e # es) = snap_entry e @ snap_body es" by (simp add: snap_body_def)
  show ?case unfolding b using Cons by (simp add: load_entries_step algebra_simps split: option.split prod.split)
qed

lemma load_entries_sound:
  assumes "load_entries fn body seen c = (Inr seen', c')"
  shows "\<exists>es. body = snap_body es \<and> list_all wf_entry es \<and> feed fn es c = (None, c') \<and> seen' = seen + word_of_nat (length es)"
  using assms
proof (induction fn body seen c rule: load_entries.induct)
  case (1 fn body seen c)
  show ?case
  proof (cases "body = []")
    case True
    then show ?thesis using 1(2) by (intro exI [of _ "[]"]) (simp add: load_entries.simps snap_body_def)
  next
    case False
    define k where "k = unat (Uint16 (subslice 0 2 body))"
    define v where "v = unat (Uint32 (subslice 2 6 body))"
    define e where "e = \<lparr>seKey = subslice 14 (14 + k) body, seValue = subslice (14 + k) (14 + k + v) body, seExpireAtMs = Uint64 (subslice 6 14 body)\<rparr>"
    have g: "\<not> length body < 14" "v \<le> maxValLen" "k \<le> maxKeyLen" "14 + (k + v) \<le> length body"
      using 1(2) False by (subst (asm) load_entries.simps; simp add: k_def v_def Let_def split: if_splits)+
    obtain c1 where c1: "fn e c = (None, c1)" "load_entries fn (drop (14 + (k + v)) body) (seen + 1) c1 = (Inr seen', c')"
      using 1(2) False g by (subst (asm) load_entries.simps) (auto simp: k_def v_def e_def Let_def split: option.splits prod.splits if_splits)
    have lens: "length (subslice 0 2 body) = 2" "length (subslice 2 6 body) = 4" "length (subslice 6 14 body) = 8" using g(1) by auto
    have "snap_entry e = subslice 0 2 body @ subslice 2 6 body @ subslice 6 14 body @ subslice 14 (14 + k) body @ subslice (14 + k) (14 + k + v) body"
      using PutUint_le_word(1) [OF lens(1)] PutUint_le_word(2) [OF lens(2)] PutUint_le_word(3) [OF lens(3)] g lens
      by (simp add: snap_entry_def e_def k_def v_def)
    also have "\<dots> = take (14 + (k + v)) body"
      using take_add [of 2 4 body] take_add [of 6 8 body] take_add [of 14 k body] take_add [of "14 + k" v body]
      by (simp add: subslice_def add.assoc)
    finally have b: "body = snap_entry e @ drop (14 + (k + v)) body" by simp
    have w: "wf_entry e" using g by (simp add: wf_entry_def e_def)
    obtain es where "drop (14 + (k + v)) body = snap_body es" "list_all wf_entry es" "feed fn es c1 = (None, c')" "seen' = seen + 1 + word_of_nat (length es)"
      using 1(1) [OF False g(1) k_def v_def refl _ _ c1(1) [unfolded e_def, symmetric] refl c1(2)] g by fastforce
    then show ?thesis using b w c1(1) by (intro exI [of _ "e # es"]) (simp add: snap_body_def)
  qed
qed

definition snap_hdr :: "u64 \<Rightarrow> u64 \<Rightarrow> SnapEntry list \<Rightarrow> SnapHeader" where
  "snap_hdr lsn t es = \<lparr>shVersion = FormatVersion, shCreatedAtMs = t, shLastIncludedLSN = lsn, shEntryCount = word_of_nat (length es)\<rparr>"

lemma snap_Load_file:
  assumes "list_all wf_entry es" "length rsv = 4"
  shows "snap_Load fn (snap_file lsn t rsv es) c =
    (case feed fn es c of (Some x, c) \<Rightarrow> (Inl (SnapFn x), c) | (None, c) \<Rightarrow> (Inr (snap_hdr lsn t es), c))"
proof -
  define hd where "hd = headerMagic @ PutUint32 FormatVersion @ PutUint64 t @ PutUint64 lsn @ rsv"
  define ft where "ft = footerMagic @ PutUint64 (word_of_nat (length es))"
  define x where "x = crc_Checksum (hd @ snap_body es @ ft)"
  have f: "snap_file lsn t rsv es = hd @ snap_body es @ ft @ PutUint32 x" by (simp add: snap_file_def hd_def ft_def x_def)
  have l: "length hd = 32" "length ft = 16" using assms(2) by (simp_all add: hd_def ft_def)
  let ?f = "hd @ snap_body es @ ft @ PutUint32 x" and ?n = "52 + length (snap_body es)"
  have n: "length ?f = ?n" by (simp add: l)
  have s: "subslice (?n - 20) ?n ?f = ft @ PutUint32 x" "take (?n - 4) ?f = hd @ snap_body es @ ft" "take 32 ?f = hd"
    "subslice 32 (?n - 20) ?f = snap_body es"
    by (simp_all add: subslice_def l)
  have q: "subslice 0 8 (ft @ PutUint32 x) = footerMagic" "Uint64 (subslice 8 16 (ft @ PutUint32 x)) = word_of_nat (length es)"
    "Uint32 (subslice 16 20 (ft @ PutUint32 x)) = x" "subslice 0 8 hd = headerMagic" "Uint32 (subslice 8 12 hd) = FormatVersion"
    "Uint64 (subslice 12 20 hd) = t" "Uint64 (subslice 20 28 hd) = lsn"
    by (simp_all add: subslice_def ft_def hd_def)
  have "crcRange (hd @ snap_body es @ ft) 0 = x" by (simp add: crcRange_eq x_def crc_Checksum_def)
  then show ?thesis
    unfolding f snap_Load_def n Let_def s q
    by (simp add: load_entries_enc [OF assms(1)] snap_hdr_def split: option.splits prod.splits)
qed

lemma snap_Load_sound:
  assumes "snap_Load fn content c = (Inr h, c')"
  shows "\<exists>lsn t rsv es. content = snap_file lsn t rsv es \<and> length rsv = 4 \<and> list_all wf_entry es \<and> h = snap_hdr lsn t es \<and> feed fn es c = (None, c')"
proof -
  let ?n = "length content"
  define ft where "ft = subslice (?n - 20) ?n content"
  define hd where "hd = take 32 content"
  define body where "body = subslice 32 (?n - 20) content"
  have g: "\<not> ?n < 52" using assms by (auto simp: snap_Load_def)
  have l: "length ft = 20" "length hd = 32" using g by (simp_all add: ft_def hd_def)
  have "take (?n - 20) content = take 32 content @ take (?n - 52) (drop 32 content)"
    using take_add [of 32 "?n - 52" content] g by (simp add: Nat.diff_diff_eq)
  then have "content = (take 32 content @ take (?n - 52) (drop 32 content)) @ drop (?n - 20) content"
    using append_take_drop_id [of "?n - 20" content] by simp
  moreover have "?n - 20 - 32 = ?n - 52" by simp
  ultimately have sp: "content = hd @ body @ ft" by (simp add: hd_def body_def ft_def subslice_def)
  obtain seen where c: "subslice 0 8 ft = footerMagic" "crcRange (take (?n - 4) content) 0 = Uint32 (subslice 16 20 ft)" "subslice 0 8 hd = headerMagic"
    "Uint32 (subslice 8 12 hd) = FormatVersion" "load_entries fn body 0 c = (Inr seen, c')" "seen = Uint64 (subslice 8 16 ft)"
    "h = \<lparr>shVersion = FormatVersion, shCreatedAtMs = Uint64 (subslice 12 20 hd), shLastIncludedLSN = Uint64 (subslice 20 28 hd), shEntryCount = Uint64 (subslice 8 16 ft)\<rparr>"
    using assms g unfolding snap_Load_def Let_def ft_def [symmetric] hd_def [symmetric] body_def [symmetric]
    by (auto split: if_splits sum.splits prod.splits)
  obtain es where es: "body = snap_body es" "list_all wf_entry es" "feed fn es c = (None, c')" "seen = word_of_nat (length es)"
    using load_entries_sound [OF c(5)] by auto
  define t where "t = Uint64 (subslice 12 20 hd)"
  define lsn where "lsn = Uint64 (subslice 20 28 hd)"
  define rsv where "rsv = subslice 28 32 hd"
  define y where "y = crc_Checksum (take (?n - 4) content)"
  have h1: "subslice 8 12 hd = PutUint32 FormatVersion" "subslice 12 20 hd = PutUint64 t" "subslice 20 28 hd = PutUint64 lsn"
    using c(4) PutUint_le_word(2) [of "subslice 8 12 hd"] PutUint_le_word(3) [of "subslice 12 20 hd"] PutUint_le_word(3) [of "subslice 20 28 hd"] l(2)
    by (simp_all add: t_def lsn_def)
  have "hd = subslice 0 8 hd @ subslice 8 12 hd @ subslice 12 20 hd @ subslice 20 28 hd @ subslice 28 32 hd"
    using take_add [of 8 4 hd] take_add [of 12 8 hd] take_add [of 20 8 hd] take_add [of 28 4 hd] l(2)
    by (simp add: subslice_def append_assoc [symmetric] del: append_assoc)
  then have hd: "hd = headerMagic @ PutUint32 FormatVersion @ PutUint64 t @ PutUint64 lsn @ rsv" unfolding h1 c(3) rsv_def [symmetric] .
  have f1: "subslice 8 16 ft = PutUint64 (word_of_nat (length es))" "subslice 16 20 ft = PutUint32 y"
    using c(2,6) es(4) PutUint_le_word(3) [of "subslice 8 16 ft"] PutUint_le_word(2) [of "subslice 16 20 ft"] l(1)
    by (simp_all add: crcRange_eq crc_Checksum_def y_def)
  have "ft = subslice 0 8 ft @ subslice 8 16 ft @ subslice 16 20 ft"
    using take_add [of 8 8 ft] take_add [of 16 4 ft] l(1) by (simp add: subslice_def append_assoc [symmetric] del: append_assoc)
  then have ft: "ft = footerMagic @ PutUint64 (word_of_nat (length es)) @ PutUint32 y" unfolding f1 c(1) .
  define pre where "pre = hd @ body @ footerMagic @ PutUint64 (word_of_nat (length es))"
  have ct: "content = pre @ PutUint32 y" unfolding sp ft pre_def by simp
  then have "take (?n - 4) content = pre" by simp
  then have "y = crc_Checksum pre" by (simp add: y_def)
  then have "content = snap_file lsn t rsv es" unfolding ct snap_file_def Let_def by (simp add: pre_def hd es(1))
  moreover have "h = snap_hdr lsn t es" using c(6,7) es(4) by (simp add: snap_hdr_def t_def lsn_def)
  moreover have "length rsv = 4" using l(2) by (simp add: rsv_def)
  ultimately show ?thesis using es(2,3) by blast
qed

text \<open>
  C21. A snapshot file is loaded successfully exactly when its bytes are the encoding of a list of
  entries whose lengths are within the limits: magic, version, entry count and checksum all agree.
  Then the callback has received those entries, once each and in order. (The reserved header field
  may hold anything.)
\<close>

theorem snap_Load_exact:
  "snap_Load fn content c = (Inr h, c') \<longleftrightarrow>
    (\<exists>lsn t rsv es. content = snap_file lsn t rsv es \<and> length rsv = 4 \<and> list_all wf_entry es \<and> h = snap_hdr lsn t es \<and> feed fn es c = (None, c'))"
proof
  assume "snap_Load fn content c = (Inr h, c')"
  then show "\<exists>lsn t rsv es. content = snap_file lsn t rsv es \<and> length rsv = 4 \<and> list_all wf_entry es \<and> h = snap_hdr lsn t es \<and> feed fn es c = (None, c')"
    by (rule snap_Load_sound)
next
  assume "\<exists>lsn t rsv es. content = snap_file lsn t rsv es \<and> length rsv = 4 \<and> list_all wf_entry es \<and> h = snap_hdr lsn t es \<and> feed fn es c = (None, c')"
  then show "snap_Load fn content c = (Inr h, c')" by (auto simp: snap_Load_file)
qed

section \<open>Damage\<close>

lemma length_snap_file: "length rsv = 4 \<Longrightarrow> length (snap_file lsn t rsv es) = 52 + length (snap_body es)"
  by (simp add: snap_file_def Let_def)

lemma snap_Load_refuses:
  assumes "length content \<ge> 52" "crc_Checksum (take (length content - 4) content) \<noteq> le_word (drop (length content - 4) content)"
  shows "\<exists>e. snap_Load fn content c = (Inl e, c)"
proof -
  let ?n = "length content"
  have d: "drop 16 (drop (?n - 20) content) = drop (?n - 4) content" using assms(1) by simp
  have s: "subslice 16 20 (subslice (?n - 20) ?n content) = drop (?n - 4) content"
    using assms(1) d by (simp add: subslice_def)
  have "Uint32 (subslice 16 20 (subslice (?n - 20) ?n content)) = le_word (drop (?n - 4) content)"
    unfolding s using assms(1) by simp
  then show ?thesis
    unfolding snap_Load_def Let_def using assms by (simp add: crcRange_eq crc_Checksum_def)
qed

text \<open>
  C22. A complete snapshot in which any single byte has been changed is refused, and it is refused
  before the callback has received an entry.
\<close>

theorem snap_Load_detects_damage:
  assumes "length rsv = 4" "i < length (snap_file lsn t rsv es)" "snap_file lsn t rsv es ! i \<noteq> b"
  shows "\<exists>e. snap_Load fn ((snap_file lsn t rsv es)[i := b]) c = (Inl e, c)"
proof -
  obtain bs where f: "snap_file lsn t rsv es = bs @ PutUint32 (crc_Checksum bs)" unfolding snap_file_def Let_def by blast
  let ?x = "PutUint32 (crc_Checksum bs)" and ?c = "(snap_file lsn t rsv es)[i := b]"
  have l: "length ?c = length bs + 4" "52 \<le> length ?c" using length_snap_file [OF assms(1), of lsn t es] f by auto
  have "crc_Checksum (take (length ?c - 4) ?c) \<noteq> le_word (drop (length ?c - 4) ?c)"
  proof (cases "i < length bs")
    case True
    then have "take (length ?c - 4) ?c = bs[i := b]" "drop (length ?c - 4) ?c = ?x" unfolding l(1) f by (simp_all add: list_update_append)
    moreover have "crc_Checksum (bs[i := b]) \<noteq> crc_Checksum bs"
      using crc_Checksum_update_flip [OF True] assms(3) True by (simp add: f nth_append)
    ultimately show ?thesis by simp
  next
    case False
    define y where "y = ?x[i - length bs := b]"
    have y: "take (length ?c - 4) ?c = bs" "drop (length ?c - 4) ?c = y" unfolding l(1) f using False by (simp_all add: list_update_append y_def)
    have i: "i - length bs < 4" using assms(2) False unfolding f by simp
    have "?x ! (i - length bs) \<noteq> b" using assms(3) False unfolding f by (simp add: nth_append)
    then have "y \<noteq> ?x" using i unfolding y_def by (metis length_le_bytes nth_list_update_eq)
    then have "le_word y \<noteq> crc_Checksum bs" using PutUint_le_word(2) [of y] by (auto simp: y_def)
    then show ?thesis unfolding y by simp
  qed
  then show ?thesis by (rule snap_Load_refuses [OF l(2)])
qed

theorem snap_Load_detects_damage_witness:
  "\<exists>e. snap_Load (\<lambda>e c. (None :: unit option, c @ [e])) ((snap_file 1 2 [0, 0, 0, 0] [])[0 := 1]) [] = (Inl e, [])"
proof -
  have "length [0, 0, 0, 0 :: u8] = 4" "0 < length (snap_file 1 2 [0, 0, 0, 0] [])" "snap_file 1 2 [0, 0, 0, 0] [] ! 0 \<noteq> 1"
    by (simp_all add: snap_file_def Let_def headerMagic_def)
  then show ?thesis by (rule snap_Load_detects_damage)
qed

section \<open>Writing a snapshot\<close>

text \<open>The entries of a snapshot are added one after the other, up to the first error.\<close>

fun add_all :: "SnapEntry list \<Rightarrow> snap_Writer \<Rightarrow> fs \<Rightarrow> snap_werror option \<times> snap_Writer \<times> fs" where
  "add_all [] w d = (None, w, d)"
| "add_all (e # es) w d = (case snap_Add e w d of (Some x, w, d) \<Rightarrow> (Some x, w, d) | (None, w, d) \<Rightarrow> add_all es w d)"

abbreviation others :: "string \<Rightarrow> fs \<Rightarrow> (string \<times> dfile) list" where
  "others name d \<equiv> filter (\<lambda>x. fst x \<noteq> name) (files d)"

lemma upd_others: "others name (upd_file name h d) = others name d"
proof -
  have "filter (\<lambda>x. fst x \<noteq> name) (map (\<lambda>(n, x). if n = name then (n, h x) else (n, x)) xs) = filter (\<lambda>x. fst x \<noteq> name) xs" for xs
    by (induction xs) (auto split: if_splits)
  then show ?thesis by (simp add: upd_file_def)
qed

lemma map_of_others: "n \<noteq> name \<Longrightarrow> map_of (files d) n = map_of (others name d) n"
proof -
  assume "n \<noteq> name"
  then have "map_of xs n = map_of (filter (\<lambda>x. fst x \<noteq> name) xs) n" for xs :: "(string \<times> dfile) list" by (induction xs) auto
  then show ?thesis .
qed

text \<open>
  A snapshot being written: the temporary file holds the given bytes, its checksum is up to date and
  nothing else in the directory has changed since \<open>d0\<close>.
\<close>

definition snap_open :: "u64 \<Rightarrow> bytes \<Rightarrow> nat \<Rightarrow> fs \<Rightarrow> snap_Writer \<Rightarrow> fs \<Rightarrow> bool" where
  "snap_open lsn bs n d0 w d \<longleftrightarrow> swTmp w = snap_Name lsn @ ''.tmp'' \<and> swFinal w = snap_Name lsn \<and> \<not> swClosed w
     \<and> map_option fCur (map_of (files d) (swTmp w)) = Some bs \<and> swPos w = length bs \<and> swCrc w = crc_Checksum bs
     \<and> swCount w = word_of_nat n \<and> others (swTmp w) d = others (swTmp w) d0"

lemma os_write_others: "os_write name pos b d = (n, ok, d') \<Longrightarrow> others name d' = others name d"
  by (auto simp: os_write_def upd_others Let_def dest!: next_outcome_files split: prod.splits outcome.splits)

lemma os_write_full:
  assumes "os_write name pos b d = (n, True, d')"
  shows "n = length b" "files d' = files (upd_file name (\<lambda>f. f\<lparr>fCur := write_at (fCur f) pos b\<rparr>) d)"
  using assms by (auto simp: os_write_def upd_file_def Let_def dest!: next_outcome_files split: prod.splits outcome.splits)

lemma snap_write_open:
  assumes "snap_open lsn bs n d0 w d" "snap_write b w d = (True, w', d')"
  shows "snap_open lsn (bs @ b) n d0 w' d'"
proof -
  obtain m d1 where o: "os_write (swTmp w) (swPos w) b d = (m, True, d1)" "m = length b" "d' = d1"
    "w' = w\<lparr>swPos := swPos w + m, swCrc := crc_update b (swCrc w), swWritten := swWritten w + m\<rparr>"
    using assms(2) by (auto simp: snap_write_def Let_def split: prod.splits if_splits)
  note f = os_write_full [OF o(1)]
  obtain g where g: "map_of (files d) (swTmp w) = Some g" "fCur g = bs" using assms(1) by (auto simp: snap_open_def)
  have "map_of (files d') (swTmp w) = Some (g\<lparr>fCur := write_at bs (swPos w) b\<rparr>)" unfolding o(3) f(2) using g by simp
  moreover have "write_at bs (swPos w) b = bs @ b" using assms(1) by (simp add: snap_open_def write_at_def)
  ultimately show ?thesis
    using assms(1) o os_write_others [OF o(1)] by (auto simp: snap_open_def crc_Checksum_def crc_update_append)
qed

lemma snap_write_others: "snap_write b w d = (ok, w', d') \<Longrightarrow> others (swTmp w) d' = others (swTmp w) d \<and> swTmp w' = swTmp w"
  by (auto simp: snap_write_def Let_def dest: os_write_others split: prod.splits if_splits)

lemma snap_Add_open:
  assumes "snap_open lsn bs n d0 w d" "snap_Add e w d = (None, w', d')"
  shows "snap_open lsn (bs @ snap_entry e) (Suc n) d0 w' d'" "wf_entry e"
proof -
  obtain w1 where a: "snap_write (snap_entry e) w d = (True, w1, d')" "w' = w1\<lparr>swCount := swCount w1 + 1\<rparr>" "wf_entry e"
    using assms(2) by (auto simp: snap_Add_def wf_entry_def split: prod.splits if_splits)
  show "snap_open lsn (bs @ snap_entry e) (Suc n) d0 w' d'"
    using snap_write_open [OF assms(1) a(1)] a(2) by (auto simp: snap_open_def)
  show "wf_entry e" by (rule a)
qed

lemma add_all_open:
  assumes "snap_open lsn bs n d0 w d" "add_all es w d = (None, w', d')"
  shows "snap_open lsn (bs @ snap_body es) (n + length es) d0 w' d' \<and> list_all wf_entry es"
  using assms
proof (induction es arbitrary: bs n w d)
  case Nil
  then show ?case by (simp add: snap_body_def)
next
  case (Cons e es)
  obtain w1 d1 where a: "snap_Add e w d = (None, w1, d1)" "add_all es w1 d1 = (None, w', d')"
    using Cons.prems(2) by (auto split: prod.splits option.splits)
  show ?case using Cons.IH [OF snap_Add_open(1) [OF Cons.prems(1) a(1)] a(2)] snap_Add_open(2) [OF Cons.prems(1) a(1)]
    by (simp add: snap_body_def)
qed

lemma os_open_trunc_ok:
  assumes "os_open_trunc name d = (True, d')"
  shows "map_option fCur (map_of (files d') name) = Some []" "others name d' = others name d"
proof -
  obtain d1 where d1: "next_outcome d = (Done, d1)"
    "d' = (if map_of (files d1) name \<noteq> None then upd_file name (\<lambda>f. f\<lparr>fCur := []\<rparr>) d1
           else d1\<lparr>files := files d1 @ [(name, \<lparr>fCur = [], fDur = [], fLinked = False\<rparr>)]\<rparr>)"
    using assms by (auto simp: os_open_trunc_def split: prod.splits outcome.splits)
  note f = next_outcome_files [OF d1(1)]
  show "map_option fCur (map_of (files d') name) = Some []" by (auto simp: d1(2) map_add_Some_iff)
  show "others name d' = others name d" using f by (simp add: d1(2) upd_others)
qed

lemma snap_Create_open:
  assumes "snap_Create lsn t d = (Inr w, d')"
  shows "snap_open lsn (snap_header lsn t) 0 d w d'"
proof -
  let ?tmp = "snap_Name lsn @ ''.tmp''"
  let ?w0 = "\<lparr>swTmp = ?tmp, swFinal = snap_Name lsn, swPos = 0, swCrc = 0, swCount = 0, swLsn = lsn, swWritten = 0, swClosed = False\<rparr>"
  obtain d1 where o: "os_open_trunc ?tmp d = (True, d1)" "snap_write (snap_header lsn t) ?w0 d1 = (True, w, d')"
    using assms by (auto simp: snap_Create_def Let_def split: prod.splits if_splits)
  have "snap_open lsn [] 0 d ?w0 d1" using os_open_trunc_ok [OF o(1)] by (simp add: snap_open_def crc_Checksum_def)
  from snap_write_open [OF this o(2)] show ?thesis by simp
qed

lemma os_rename_ok:
  assumes "os_rename old new d = (True, d')" "map_of (files d) old = Some f"
  shows "files d' = filter (\<lambda>x. fst x \<noteq> new) (others old d) @ [(new, f\<lparr>fLinked := False\<rparr>)]"
proof -
  obtain d1 where d1: "next_outcome d = (Done, d1)" using assms(1) by (auto simp: os_rename_def split: prod.splits outcome.splits)
  have "(\<lambda>(n, _ :: dfile). n \<noteq> old \<and> n \<noteq> new) = (\<lambda>x. fst x \<noteq> old \<and> fst x \<noteq> new)" by auto
  then show ?thesis using assms next_outcome_files [OF d1] by (auto simp: os_rename_def d1)
qed

lemma snap_Commit_ok:
  assumes "snap_open lsn bs n d0 w d" "snap_Commit w d = (Inr path, w', d')"
  shows "path = snap_Name lsn"
    "files d' = map (\<lambda>(m, f). (m, f\<lparr>fLinked := True\<rparr>)) (filter (\<lambda>x. fst x \<noteq> snap_Name lsn) (others (snap_Name lsn @ ''.tmp'') d0))
       @ [(snap_Name lsn, let b = bs @ footerMagic @ PutUint64 (word_of_nat n); c = b @ PutUint32 (crc_Checksum b) in \<lparr>fCur = c, fDur = c, fLinked = True\<rparr>)]"
proof -
  note o = assms(1) [unfolded snap_open_def]
  let ?t = "snap_Name lsn @ ''.tmp''" and ?ft = "footerMagic @ PutUint64 (word_of_nat n)"
  let ?x = "PutUint32 (crc_update ?ft (crc_Checksum bs))"
  obtain m d1 d2 d3 d4 where s: "os_write ?t (length bs) (?ft @ ?x) d = (m, True, d1)" "os_sync ?t d1 = (True, d2)" "os_close d2 = (True, d3)"
    "os_rename ?t (snap_Name lsn) d3 = (True, d4)" "SyncDir d4 = (True, d')" and p: "path = snap_Name lsn"
    using assms(2) o by (auto simp: snap_Commit_def Let_def split: prod.splits if_splits)
  show "path = snap_Name lsn" by (rule p)
  obtain g where g: "map_of (files d) ?t = Some g" "fCur g = bs" using o by auto
  have od: "others ?t d = others ?t d0" using o by auto
  define c where "c = bs @ ?ft @ ?x"
  have w: "write_at bs (length bs) (?ft @ ?x) = c" by (simp add: write_at_def c_def)
  have f2: "map_of (files d2) ?t = Some (g\<lparr>fCur := c, fDur := c\<rparr>)" "others ?t d2 = others ?t d0"
  proof -
    have "files d2 = files (upd_file ?t (\<lambda>f. f\<lparr>fDur := fCur f\<rparr>) d1)"
      using s(2) by (auto simp: os_sync_def upd_file_def dest!: next_outcome_files split: prod.splits outcome.splits)
    then show "map_of (files d2) ?t = Some (g\<lparr>fCur := c, fDur := c\<rparr>)" "others ?t d2 = others ?t d0"
      using os_write_full(2) [OF s(1)] os_write_others [OF s(1)] g w od by (simp_all add: upd_others)
  qed
  have f3: "files d3 = files d2" by (rule os_close_ok [OF s(3)])
  have "files d4 = filter (\<lambda>x. fst x \<noteq> snap_Name lsn) (others ?t d0) @ [(snap_Name lsn, g\<lparr>fCur := c, fDur := c, fLinked := False\<rparr>)]"
    using os_rename_ok [OF s(4)] f2 f3 by simp
  moreover have "files d' = map (\<lambda>(m, f). (m, f\<lparr>fLinked := True\<rparr>)) (files d4)"
    using s(5) by (auto simp: SyncDir_def dest!: next_outcome_files split: prod.splits outcome.splits)
  moreover have "crc_update ?ft (crc_Checksum bs) = crc_Checksum (bs @ ?ft)" by (simp add: crc_Checksum_def crc_update_append)
  ultimately show "files d' = map (\<lambda>(m, f). (m, f\<lparr>fLinked := True\<rparr>)) (filter (\<lambda>x. fst x \<noteq> snap_Name lsn) (others ?t d0))
       @ [(snap_Name lsn, let b = bs @ ?ft; c = b @ PutUint32 (crc_Checksum b) in \<lparr>fCur = c, fDur = c, fLinked = True\<rparr>)]"
    by (simp add: c_def Let_def)
qed

lemma snap_Name_lsn: "snap_name_lsn (snap_Name lsn) = Some lsn"
proof -
  let ?p = "pad_left 16 (dec_digits (unat lsn))"
  have "has_suffix ''.snap'' (snap_Name lsn)" "take (length (snap_Name lsn) - 5) (snap_Name lsn) = ?p" by (simp_all add: has_suffix_def snap_Name_def)
  moreover have "dec_value ?p = unat lsn" "list_all is_dec ?p"
    using dec_digits_value [of "unat lsn"] by (auto simp: pad_left_def dec_value_zeros list_all_iff is_dec_def)
  moreover have "?p \<noteq> ''''" by (auto simp: pad_left_def)
  moreover have "unat lsn < 2 ^ 64" using unsigned_less [where 'a = nat, of lsn] by simp
  ultimately show ?thesis by (simp add: snap_name_lsn_def ParseUint64_def not_le)
qed

definition snap_infos :: "fs \<Rightarrow> SnapInfo list" where
  "snap_infos d = List.map_filter (\<lambda>(name, f). map_option (\<lambda>lsn. \<lparr>siSnapPath = name, siLastIncludedLSN = lsn, siSnapSize = length (fCur f)\<rparr>)
     (snap_name_lsn name)) (files d)"

lemma snap_infos_iff: "s \<in> set (snap_infos d) \<longleftrightarrow>
    (\<exists>f. (siSnapPath s, f) \<in> set (files d) \<and> snap_name_lsn (siSnapPath s) = Some (siLastIncludedLSN s) \<and> siSnapSize s = length (fCur f))"
proof -
  have "s \<in> set (List.map_filter (\<lambda>(name, f). map_option (\<lambda>lsn. \<lparr>siSnapPath = name, siLastIncludedLSN = lsn, siSnapSize = length (fCur f)\<rparr>) (snap_name_lsn name)) xs)
    \<longleftrightarrow> (\<exists>f. (siSnapPath s, f) \<in> set xs \<and> snap_name_lsn (siSnapPath s) = Some (siLastIncludedLSN s) \<and> siSnapSize s = length (fCur f))" for xs
    by (induction xs) (auto simp: List.map_filter_simps split: option.splits)
  then show ?thesis by (simp add: snap_infos_def)
qed

lemma snap_List_infos: "snap_List d = rev (sort_key siLastIncludedLSN (snap_infos d))"
  by (simp add: snap_List_def snap_infos_def)

lemma newest_picked:
  assumes "map_of (files d) (snap_Name lsn) = Some f" "fCur f = snap_file lsn t rsv es" "list_all wf_entry es" "length rsv = 4"
    and "\<forall>x \<in> set (files d). fst x \<noteq> snap_Name lsn \<longrightarrow> (\<forall>l. snap_name_lsn (fst x) = Some l \<longrightarrow> l < lsn)" "feed fn es c = (None, c')"
  shows "LoadNewestValid fn d c = (Inr (snap_hdr lsn t es, snap_Name lsn), c')"
proof -
  have m: "\<lparr>siSnapPath = snap_Name lsn, siLastIncludedLSN = lsn, siSnapSize = length (fCur f)\<rparr> \<in> set (snap_infos d)"
    using map_of_SomeD [OF assms(1)] by (auto simp: snap_infos_iff snap_Name_lsn)
  let ?xs = "sort_key siLastIncludedLSN (snap_infos d)"
  have ne: "?xs \<noteq> []" using m by (metis empty_iff list.set(1) set_sort)
  obtain i where i: "i < length ?xs" "siLastIncludedLSN (?xs ! i) = lsn" using m by (metis in_set_conv_nth set_sort SnapInfo.select_convs(2))
  have "map siLastIncludedLSN ?xs ! i \<le> map siLastIncludedLSN ?xs ! (length ?xs - 1)"
    using i by (intro sorted_nth_mono) auto
  then have "lsn \<le> siLastIncludedLSN (last ?xs)" using i ne by (simp add: last_conv_nth)
  moreover have "last ?xs \<in> set (snap_infos d)" using last_in_set [OF ne] by simp
  ultimately have p: "siSnapPath (last ?xs) = snap_Name lsn" using assms(5) unfolding snap_infos_iff by fastforce
  obtain ys where "snap_List d = last ?xs # ys"
    unfolding snap_List_infos using ne by (metis append_butlast_last_id rev_eq_Cons_iff rev_rev_ident)
  then show ?thesis
    unfolding LoadNewestValid_def Let_def using assms(1-4,6) p snap_Load_file [OF assms(3,4), of fn lsn t c] by simp
qed

lemma crash_lookup:
  assumes "crash_image d d'" "x \<in> set (files d)" "fLinked (snd x)"
  shows "\<exists>x' \<in> set (files d'). fst x' = fst x \<and> crash_file (snd x) (snd x')"
proof -
  obtain keep where k: "\<forall>x \<in> set (files d). fLinked (snd x) \<longrightarrow> keep (fst x)"
    "list_all2 (\<lambda>x x'. fst x' = fst x \<and> crash_file (snd x) (snd x')) (filter (\<lambda>x. keep (fst x)) (files d)) (files d')"
    using assms(1) by (auto simp: crash_image_def)
  have "x \<in> set (filter (\<lambda>x. keep (fst x)) (files d))" using k(1) assms(2,3) by simp
  then obtain i where "i < length (filter (\<lambda>x. keep (fst x)) (files d))" "filter (\<lambda>x. keep (fst x)) (files d) ! i = x" unfolding in_set_conv_nth by blast
  then show ?thesis using list_all2_nthD [OF k(2), of i] list_all2_lengthD [OF k(2)] nth_mem [of i "files d'"] by (intro bexI [of _ "files d' ! i"]) auto
qed

lemma crash_origin:
  assumes "crash_image d d'" "x' \<in> set (files d')"
  shows "\<exists>x \<in> set (files d). fst x' = fst x \<and> crash_file (snd x) (snd x')"
proof -
  obtain keep where k: "list_all2 (\<lambda>x x'. fst x' = fst x \<and> crash_file (snd x) (snd x')) (filter (\<lambda>x. keep (fst x)) (files d)) (files d')"
    using assms(1) by (auto simp: crash_image_def)
  obtain i where i: "i < length (files d')" "files d' ! i = x'" using assms(2) by (auto simp: in_set_conv_nth)
  have "i < length (filter (\<lambda>x. keep (fst x)) (files d))" using list_all2_lengthD [OF k] i(1) by simp
  then have "filter (\<lambda>x. keep (fst x)) (files d) ! i \<in> set (files d)" using nth_mem [of i "filter (\<lambda>x. keep (fst x)) (files d)"] by simp
  then show ?thesis using list_all2_nthD2 [OF k i(1)] i(2) by blast
qed

lemma committed_files:
  assumes "snap_Create lsn t d = (Inr w, d1)" "add_all es w d1 = (None, w1, d2)" "snap_Commit w1 d2 = (Inr path, w2, d3)"
  shows "path = snap_Name lsn" "list_all wf_entry es"
    "files d3 = map (\<lambda>(m, f). (m, f\<lparr>fLinked := True\<rparr>)) (filter (\<lambda>x. fst x \<noteq> snap_Name lsn) (others (snap_Name lsn @ ''.tmp'') d))
       @ [(snap_Name lsn, \<lparr>fCur = snap_file lsn t (replicate 4 0) es, fDur = snap_file lsn t (replicate 4 0) es, fLinked = True\<rparr>)]"
proof -
  have a: "snap_open lsn (snap_header lsn t @ snap_body es) (0 + length es) d w1 d2" "list_all wf_entry es"
    using add_all_open [OF snap_Create_open [OF assms(1)] assms(2)] by simp_all
  have e: "(let b = (snap_header lsn t @ snap_body es) @ footerMagic @ PutUint64 (word_of_nat (0 + length es)) in b @ PutUint32 (crc_Checksum b))
      = snap_file lsn t (replicate 4 0) es"
    by (simp add: snap_file_def snap_header_def Let_def)
  show "path = snap_Name lsn" "list_all wf_entry es" using snap_Commit_ok(1) [OF a(1) assms(3)] a(2) by auto
  show "files d3 = map (\<lambda>(m, f). (m, f\<lparr>fLinked := True\<rparr>)) (filter (\<lambda>x. fst x \<noteq> snap_Name lsn) (others (snap_Name lsn @ ''.tmp'') d))
       @ [(snap_Name lsn, \<lparr>fCur = snap_file lsn t (replicate 4 0) es, fDur = snap_file lsn t (replicate 4 0) es, fLinked = True\<rparr>)]"
    using snap_Commit_ok(2) [OF a(1) assms(3)] e by (simp add: Let_def)
qed

text \<open>
  C6. When writing a snapshot reports success, whatever calls failed on the way, recovery loads
  exactly the entries that were added: immediately and after any crash that follows. The snapshot
  must be newer than the ones already in the directory.
\<close>

theorem snapshot_survives:
  assumes "snap_Create lsn t d = (Inr w, d1)" "add_all es w d1 = (None, w1, d2)" "snap_Commit w1 d2 = (Inr path, w2, d3)"
    and "\<forall>s \<in> set (snap_List d). siSnapPath s \<noteq> snap_Name lsn \<longrightarrow> siLastIncludedLSN s < lsn"
    and "d' = d3 \<or> crash_image d3 d'" "feed fn es c = (None, c')"
  shows "LoadNewestValid fn d' c = (Inr (snap_hdr lsn t es, snap_Name lsn), c')"
proof -
  note F = committed_files [OF assms(1-3)]
  let ?c = "snap_file lsn t (replicate 4 0) es"
  have old: "l < lsn" if x: "x \<in> set (files d3)" "fst x \<noteq> snap_Name lsn" "snap_name_lsn (fst x) = Some l" for x l
  proof -
    obtain f where "(fst x, f) \<in> set (files d)" using x(1,2) unfolding F(3) by auto
    then have "\<lparr>siSnapPath = fst x, siLastIncludedLSN = l, siSnapSize = length (fCur f)\<rparr> \<in> set (snap_List d)"
      unfolding snap_List_infos set_rev set_sort snap_infos_iff using x(3) by auto
    then show ?thesis using assms(4) x(2) by force
  qed
  have cur: "fCur (snd x) = ?c" "fDur (snd x) = ?c" "fLinked (snd x)" if "x \<in> set (files d3)" "fst x = snap_Name lsn" for x
    using that unfolding F(3) by auto
  have "(snap_Name lsn, \<lparr>fCur = ?c, fDur = ?c, fLinked = True\<rparr>) \<in> set (files d3)" unfolding F(3) by simp
  then obtain x0 where x0: "x0 \<in> set (files d3)" "fst x0 = snap_Name lsn" by force
  have "(\<exists>x \<in> set (files d'). fst x = snap_Name lsn) \<and> (\<forall>x \<in> set (files d'). (fst x = snap_Name lsn \<longrightarrow> fCur (snd x) = ?c)
      \<and> (fst x \<noteq> snap_Name lsn \<longrightarrow> (\<forall>l. snap_name_lsn (fst x) = Some l \<longrightarrow> l < lsn)))"
    using assms(5)
  proof
    assume "d' = d3"
    then show ?thesis using x0 cur old by blast
  next
    assume cr: "crash_image d3 d'"
    have "\<exists>x \<in> set (files d'). fst x = snap_Name lsn" using crash_lookup [OF cr x0(1) cur(3) [OF x0]] x0(2) by auto
    moreover have "fCur (snd x') = ?c" if "x' \<in> set (files d')" "fst x' = snap_Name lsn" for x'
      using crash_origin [OF cr that(1)] that(2) cur by (auto simp: crash_file_def prefix_order.antisym)
    moreover have "l < lsn" if "x' \<in> set (files d')" "fst x' \<noteq> snap_Name lsn" "snap_name_lsn (fst x') = Some l" for x' l
      using crash_origin [OF cr that(1)] that(2,3) old by metis
    ultimately show ?thesis by blast
  qed
  moreover obtain f where f: "map_of (files d') (snap_Name lsn) = Some f"
    using calculation by (metis map_of_eq_None_iff image_eqI not_Some_eq)
  ultimately show ?thesis
    using newest_picked [OF f _ F(2) _ _ assms(6), of t "replicate 4 0"] map_of_SomeD [OF f] by auto
qed

definition empty_dir :: fs where "empty_dir = \<lparr>files = [], plan = []\<rparr>"

theorem snapshot_survives_witness:
  "\<exists>w d1 w1 d2 w2 d3. snap_Create 1 2 empty_dir = (Inr w, d1) \<and> add_all [] w d1 = (None, w1, d2) \<and> snap_Commit w1 d2 = (Inr (snap_Name 1), w2, d3)
     \<and> LoadNewestValid (\<lambda>e c. (None :: unit option, c @ [e])) d3 [] = (Inr (snap_hdr 1 2 [], snap_Name 1), [])"
proof -
  obtain w d1 where c: "snap_Create 1 2 empty_dir = (Inr w, d1)" "plan d1 = []"
    by (simp add: snap_Create_def empty_dir_def os_open_trunc_def next_outcome_def snap_write_def os_write_def upd_file_def Let_def)
  note o = snap_Create_open [OF c(1), unfolded snap_open_def]
  have t: "map_of (files (upd_file (swTmp w) h d1)) (swTmp w) \<noteq> None" for h using o by auto
  obtain path w2 d3 where m: "snap_Commit w d1 = (Inr path, w2, d3)"
    using o c(2) t by (auto simp: snap_Commit_def os_write_def os_sync_def os_close_def os_rename_def SyncDir_def next_outcome_def Let_def
      split: option.splits)
  have a: "add_all [] w d1 = (None, w, d1)" by simp
  have "\<forall>s \<in> set (snap_List empty_dir). siSnapPath s \<noteq> snap_Name 1 \<longrightarrow> siLastIncludedLSN s < 1"
    by (simp add: snap_List_def empty_dir_def List.map_filter_simps)
  then have "LoadNewestValid (\<lambda>e c. (None :: unit option, c @ [e])) d3 [] = (Inr (snap_hdr 1 2 [], snap_Name 1), [])"
    by (rule snapshot_survives [OF c(1) a m _ disjI1 [OF refl] feed.simps(1)])
  then show ?thesis using committed_files(1) [OF c(1) a m] c(1) a m by blast
qed

section \<open>A snapshot in progress\<close>

lemma snap_Add_others: "snap_Add e w d = (r, w', d') \<Longrightarrow> others (swTmp w) d' = others (swTmp w) d \<and> swTmp w' = swTmp w"
  by (auto simp: snap_Add_def dest!: snap_write_others split: prod.splits if_splits)

lemma add_all_others: "add_all es w d = (r, w', d') \<Longrightarrow> others (swTmp w) d' = others (swTmp w) d \<and> swTmp w' = swTmp w"
proof (induction es arbitrary: w d)
  case (Cons e es)
  obtain r1 w1 d1 where a: "snap_Add e w d = (r1, w1, d1)" by (metis prod.exhaust)
  show ?case using Cons.prems Cons.IH [of w1 d1] a snap_Add_others [OF a] by (cases r1) auto
qed simp

lemma snap_abort_others: "others (swTmp w) (snap_abort w d) = others (swTmp w) d"
proof -
  obtain b d1 where c: "os_close d = (b, d1)" by fastforce
  have "(\<lambda>(n, _ :: dfile). n \<noteq> swTmp w) = (\<lambda>x. fst x \<noteq> swTmp w)" by auto
  then have "others (swTmp w) (snd (os_remove (swTmp w) d1)) = others (swTmp w) d1"
    by (auto simp: os_remove_def dest!: next_outcome_files split: prod.splits outcome.splits)
  then show ?thesis using os_close_ok [OF c] by (simp add: snap_abort_def c)
qed

lemma tmp_not_listed: "snap_name_lsn (n @ ''.tmp'') = None"
proof -
  have "last (drop (length (n @ ''.tmp'') - 5) (n @ ''.tmp'')) = CHR ''p''" by (cases "n = []") (simp_all add: last_drop)
  moreover have "drop (length (n @ ''.tmp'') - 5) (n @ ''.tmp'') ! (length (drop (length (n @ ''.tmp'') - 5) (n @ ''.tmp'')) - 2) = CHR ''m''"
    by (simp add: nth_append)
  ultimately show ?thesis by (auto simp: snap_name_lsn_def has_suffix_def)
qed

lemma listing_others:
  assumes "snap_name_lsn tmp = None" "others tmp d' = others tmp d"
  shows "snap_List d' = snap_List d" "LoadNewestValid fn d' c = LoadNewestValid fn d c"
proof -
  let ?g = "\<lambda>(name, f). map_option (\<lambda>lsn. \<lparr>siSnapPath = name, siLastIncludedLSN = lsn, siSnapSize = length (fCur f)\<rparr>) (snap_name_lsn name)"
  have "List.map_filter ?g xs = List.map_filter ?g (filter (\<lambda>x. fst x \<noteq> tmp) xs)" for xs
    using assms(1) by (induction xs) (auto simp: List.map_filter_simps split: option.splits)
  from this [of "files d"] this [of "files d'"] show L: "snap_List d' = snap_List d" using assms(2) by (simp add: snap_List_def)
  have "load_newest fn ss e d' c = load_newest fn ss e d c" if "\<forall>s \<in> set ss. siSnapPath s \<noteq> tmp" for ss e c
    using that
  proof (induction ss arbitrary: e c)
    case (Cons s ss)
    have "map_of (files d') (siSnapPath s) = map_of (files d) (siSnapPath s)"
      using map_of_others [of "siSnapPath s" tmp d'] map_of_others [of "siSnapPath s" tmp d] Cons.prems assms(2) by simp
    then show ?case using Cons by (simp split: option.splits sum.splits prod.splits)
  qed simp
  moreover have "\<forall>s \<in> set (snap_List d). siSnapPath s \<noteq> tmp"
    unfolding snap_List_infos set_rev set_sort using assms(1) by (auto simp: snap_infos_iff)
  ultimately show "LoadNewestValid fn d' c = LoadNewestValid fn d c" unfolding LoadNewestValid_def L Let_def by simp
qed

text \<open>
  C23. While a snapshot is being written, whatever system calls fail, and after it has been aborted,
  recovery sees exactly the snapshots that were there before.
\<close>

theorem snapshot_in_progress_invisible:
  assumes "snap_Create lsn t d = (Inr w, d1)" "add_all es w d1 = (r, w1, d2)"
  shows "snap_List d2 = snap_List d \<and> LoadNewestValid fn d2 c = LoadNewestValid fn d c
    \<and> snap_List (snd (snap_Abort w1 d2)) = snap_List d \<and> LoadNewestValid fn (snd (snap_Abort w1 d2)) c = LoadNewestValid fn d c"
proof -
  have o: "swTmp w = snap_Name lsn @ ''.tmp''" "others (swTmp w) d1 = others (swTmp w) d"
    using snap_Create_open [OF assms(1)] by (auto simp: snap_open_def)
  have t: "snap_name_lsn (swTmp w) = None" unfolding o(1) by (rule tmp_not_listed)
  have a: "others (swTmp w) d2 = others (swTmp w) d" "swTmp w1 = swTmp w" using add_all_others [OF assms(2)] o(2) by auto
  have b: "others (swTmp w) (snd (snap_Abort w1 d2)) = others (swTmp w) d"
    using snap_abort_others [of w1 d2] a by (simp add: snap_Abort_def)
  show ?thesis using listing_others(1) [OF t a(1)] listing_others(1) [OF t b] listing_others(2) [OF t a(1), of fn c] listing_others(2) [OF t b, of fn c]
    by simp
qed

theorem snapshot_in_progress_invisible_witness:
  "\<exists>w d1 w1 d2 r. snap_Create 1 2 empty_dir = (Inr w, d1) \<and> add_all [] w d1 = (r, w1, d2) \<and> snap_List d2 = []"
proof -
  obtain w d1 where c: "snap_Create 1 2 empty_dir = (Inr w, d1)"
    by (simp add: snap_Create_def empty_dir_def os_open_trunc_def next_outcome_def snap_write_def os_write_def upd_file_def Let_def)
  have a: "add_all [] w d1 = (None, w, d1)" by simp
  have "snap_List empty_dir = []" by (simp add: snap_List_def empty_dir_def List.map_filter_simps)
  then have "snap_List d1 = []" using snapshot_in_progress_invisible [OF c a, of "\<lambda>e c. (None :: unit option, c)" "()"] by simp
  then show ?thesis using c a by blast
qed

section \<open>Pruning\<close>

lemma filter_not_later:
  assumes "distinct (map f xs)"
  shows "filter (\<lambda>x. f x \<notin> f ` set (drop k xs)) xs = take k xs"
proof -
  have d: "distinct (map f (take k xs @ drop k xs))" using assms by simp
  have "filter (\<lambda>x. f x \<notin> f ` set (drop k xs)) (take k xs @ drop k xs) = take k xs"
    unfolding filter_append using d by (auto simp: filter_empty_conv simp del: append_take_drop_id intro!: filter_True)
  then show ?thesis by simp
qed

lemma prune_old_files:
  assumes "plan d = []" "\<forall>s \<in> set ss. siSnapPath s \<in> fst ` set (files d)" "distinct (map siSnapPath ss)"
  shows "\<exists>d'. prune_old ss n d = (n + length ss, True, d') \<and> plan d' = [] \<and> files d' = filter (\<lambda>x. fst x \<notin> siSnapPath ` set ss) (files d)"
  using assms
proof (induction ss arbitrary: d n)
  case (Cons s ss)
  let ?d = "d\<lparr>files := others (siSnapPath s) d\<rparr>"
  have ne: "map_of (files d) (siSnapPath s) \<noteq> None" using Cons.prems(2) by (simp add: map_of_eq_None_iff)
  have e: "(\<lambda>(m, _ :: dfile). m \<noteq> siSnapPath s) = (\<lambda>x. fst x \<noteq> siSnapPath s)" by auto
  have r: "os_remove (siSnapPath s) d = (True, ?d)" using no_fault_calls(3) [OF Cons.prems(1), of "siSnapPath s"] ne unfolding e by (simp only: simp_thms)
  have "\<forall>s' \<in> set ss. siSnapPath s' \<in> fst ` set (files ?d)"
  proof
    fix s' assume s': "s' \<in> set ss"
    have "siSnapPath s' \<in> siSnapPath ` set ss" using s' by (rule imageI)
    then have "siSnapPath s' \<in> fst ` set (files d)" "siSnapPath s' \<noteq> siSnapPath s" using Cons.prems(2,3) s' by (simp, metis distinct.simps(2) list.set_map list.simps(9))
    then obtain f where "(siSnapPath s', f) \<in> set (files d)" "siSnapPath s' \<noteq> siSnapPath s" by auto
    then show "siSnapPath s' \<in> fst ` set (files ?d)" by (intro image_eqI [of _ _ "(siSnapPath s', f)"]) simp_all
  qed
  from Cons.IH [of ?d "n + 1", OF _ this] Cons.prems obtain d' where d': "prune_old ss (n + 1) ?d = (n + 1 + length ss, True, d')" "plan d' = []"
    "files d' = filter (\<lambda>x. fst x \<notin> siSnapPath ` set ss) (files ?d)" by auto
  then show ?case using r by (auto intro!: filter_cong)
qed simp

lemma remove_all_files: "plan d = [] \<Longrightarrow> plan (remove_all ns d) = [] \<and> files (remove_all ns d) = filter (\<lambda>x. fst x \<notin> set ns) (files d)"
proof (induction ns arbitrary: d)
  case (Cons n ns)
  have e: "(\<lambda>(m, _ :: dfile). m \<noteq> n) = (\<lambda>x. fst x \<noteq> n)" by auto
  have "snd (os_remove n d) = d\<lparr>files := others n d\<rparr>" using no_fault_calls(3) [OF Cons.prems, of n] unfolding e by simp
  then show ?case using Cons by (auto intro!: filter_cong)
qed simp

lemma snap_infos_filter:
  assumes "files d' = filter (\<lambda>x. fst x \<notin> P) (files d)"
  shows "snap_infos d' = filter (\<lambda>s. siSnapPath s \<notin> P) (snap_infos d)"
proof -
  let ?g = "\<lambda>(name, f). map_option (\<lambda>lsn. \<lparr>siSnapPath = name, siLastIncludedLSN = lsn, siSnapSize = length (fCur f)\<rparr>) (snap_name_lsn name)"
  have "List.map_filter ?g (filter (\<lambda>x. fst x \<notin> P) xs) = filter (\<lambda>s. siSnapPath s \<notin> P) (List.map_filter ?g xs)" for xs
    by (induction xs) (auto simp: List.map_filter_simps split: option.splits)
  then show ?thesis by (simp add: snap_infos_def assms)
qed

lemma snap_infos_distinct: "distinct (map fst (files d)) \<Longrightarrow> distinct (map siSnapPath (snap_infos d))"
proof -
  let ?g = "\<lambda>(name, f). map_option (\<lambda>lsn. \<lparr>siSnapPath = name, siLastIncludedLSN = lsn, siSnapSize = length (fCur f)\<rparr>) (snap_name_lsn name)"
  have p: "siSnapPath ` set (List.map_filter ?g xs) \<subseteq> fst ` set xs" for xs
    by (induction xs) (auto simp: List.map_filter_simps split: option.splits)
  have "distinct (map fst xs) \<Longrightarrow> distinct (map siSnapPath (List.map_filter ?g xs))" for xs
  proof (induction xs)
    case (Cons x xs)
    then show ?case using p [of xs] by (cases x) (auto simp: List.map_filter_simps split: option.splits)
  qed (simp add: List.map_filter_simps)
  then show "distinct (map fst (files d)) \<Longrightarrow> ?thesis" by (simp add: snap_infos_def)
qed

text \<open>
  Pruning keeps exactly the newest snapshots, as many as asked for and at least one, removes the
  temporary files of interrupted snapshots and touches nothing else.
\<close>

theorem snap_Prune_keeps_newest:
  assumes "plan d = []" "distinct (map fst (files d))"
  shows "\<exists>d'. snap_Prune keep d = (length (snap_List d) - max 1 (nat keep), True, d') \<and> snap_List d' = take (max 1 (nat keep)) (snap_List d)
    \<and> files d' = filter (\<lambda>x. fst x \<notin> siSnapPath ` set (drop (max 1 (nat keep)) (snap_List d)) \<and> \<not> has_suffix ''.tmp'' (fst x)) (files d)"
proof -
  define k where "k = max 1 (nat keep)"
  let ?L = "snap_List d" and ?P = "siSnapPath ` set (drop k (snap_List d))"
  have k: "nat (if keep < 1 then 1 else keep) = k" by (auto simp: k_def)
  have di: "distinct (map siSnapPath ?L)"
    unfolding snap_List_infos using snap_infos_distinct [OF assms(2)] by (simp add: distinct_map rev_map [symmetric])
  have ex: "\<forall>s \<in> set (drop k ?L). siSnapPath s \<in> fst ` set (files d)"
    by (auto dest!: in_set_dropD simp: snap_List_infos snap_infos_iff image_iff) force
  have "distinct (map siSnapPath (drop k ?L))" using di by (simp add: drop_map [symmetric])
  from prune_old_files [OF assms(1) ex this, of 0] obtain d1 where d1: "prune_old (drop k ?L) 0 d = (length ?L - k, True, d1)" "plan d1 = []"
    "files d1 = filter (\<lambda>x. fst x \<notin> ?P) (files d)" by auto
  define d2 where "d2 = remove_all (filter (has_suffix ''.tmp'') (map fst (files d1))) d1"
  have f2: "files d2 = filter (\<lambda>x. \<not> has_suffix ''.tmp'' (fst x)) (files d1)"
  proof -
    have "(fst x \<notin> set (filter (has_suffix ''.tmp'') (map fst (files d1)))) = (\<not> has_suffix ''.tmp'' (fst x))" if "x \<in> set (files d1)" for x
      using that by (simp only: set_filter set_map mem_Collect_eq) blast
    then show ?thesis unfolding d2_def using remove_all_files [OF d1(2)] by (simp only: cong: filter_cong)
  qed
  have "has_suffix ''.tmp'' n \<Longrightarrow> snap_name_lsn n = None" for n
  proof -
    assume "has_suffix ''.tmp'' n"
    then have "n = take (length n - 4) n @ ''.tmp''" using append_take_drop_id [of "length n - 4" n] by (simp add: has_suffix_def numeral_eq_Suc)
    then show ?thesis using tmp_not_listed [of "take (length n - 4) n"] by simp
  qed
  then have "siSnapPath s \<in> {n. has_suffix ''.tmp'' n} \<Longrightarrow> s \<notin> set (snap_infos d1)" for s by (auto simp: snap_infos_iff)
  then have "snap_infos d2 = snap_infos d1"
    using snap_infos_filter [of d2 "{n. has_suffix ''.tmp'' n}" d1] f2 by (auto intro!: filter_True)
  then have "snap_List d2 = filter (\<lambda>s. siSnapPath s \<notin> ?P) ?L"
    unfolding snap_List_infos snap_infos_filter [OF d1(3)] by (simp add: filter_sort rev_filter [symmetric])
  then have "snap_List d2 = take k ?L" using filter_not_later [OF di, of k] by simp
  moreover have "snap_Prune keep d = (length ?L - k, True, d2)" unfolding snap_Prune_def Let_def k d1(1) by (simp add: d2_def)
  moreover have "files d2 = filter (\<lambda>x. fst x \<notin> ?P \<and> \<not> has_suffix ''.tmp'' (fst x)) (files d)" unfolding f2 d1(3) filter_filter ..
  ultimately show ?thesis unfolding k_def [symmetric] by blast
qed

definition two_snaps :: "bytes \<Rightarrow> bytes \<Rightarrow> fs" where
  "two_snaps a b = \<lparr>files = [(snap_Name 1, \<lparr>fCur = a, fDur = a, fLinked = True\<rparr>), (snap_Name 2, \<lparr>fCur = b, fDur = b, fLinked = True\<rparr>)], plan = []\<rparr>"

lemma two_snaps_names: "snap_Name 1 \<noteq> snap_Name 2"
  using snap_Name_lsn [of 1] snap_Name_lsn [of 2] by auto

lemma two_snaps_list: "snap_List (two_snaps a b) = [\<lparr>siSnapPath = snap_Name 2, siLastIncludedLSN = 2, siSnapSize = length b\<rparr>,
    \<lparr>siSnapPath = snap_Name 1, siLastIncludedLSN = 1, siSnapSize = length a\<rparr>]"
  by (simp add: snap_List_def two_snaps_def List.map_filter_simps snap_Name_lsn)

theorem snap_Prune_keeps_newest_witness:
  "\<exists>d'. snap_Prune 0 (two_snaps [] []) = (1, True, d') \<and> map siSnapPath (snap_List d') = [snap_Name 2]"
proof -
  have "plan (two_snaps [] []) = []" "distinct (map fst (files (two_snaps [] [])))" using two_snaps_names by (simp_all add: two_snaps_def)
  from snap_Prune_keeps_newest [OF this, of 0] show ?thesis unfolding two_snaps_list by auto
qed

text \<open>
  C40. Falling back to an older snapshot does not undo what the callback has already received: when
  the newest snapshot is intact but the callback rejects one of its entries, the older snapshot is loaded
  on top of the entries of the newer one that came before.
\<close>

theorem LoadNewestValid_mixes_snapshots:
  assumes "list_all wf_entry es1" "list_all wf_entry es2" "feed fn es2 c = (Some x, c1)" "feed fn es1 c1 = (None, c2)"
  shows "LoadNewestValid fn (two_snaps (snap_file 1 t1 (replicate 4 0) es1) (snap_file 2 t2 (replicate 4 0) es2)) c
    = (Inr (snap_hdr 1 t1 es1, snap_Name 1), c2)"
proof -
  let ?d = "two_snaps (snap_file 1 t1 (replicate 4 0) es1) (snap_file 2 t2 (replicate 4 0) es2)"
  have m: "map_of (files ?d) (snap_Name 1) = Some \<lparr>fCur = snap_file 1 t1 (replicate 4 0) es1, fDur = snap_file 1 t1 (replicate 4 0) es1, fLinked = True\<rparr>"
    "map_of (files ?d) (snap_Name 2) = Some \<lparr>fCur = snap_file 2 t2 (replicate 4 0) es2, fDur = snap_file 2 t2 (replicate 4 0) es2, fLinked = True\<rparr>"
    using two_snaps_names by (simp_all add: two_snaps_def)
  have l: "snap_Load fn (snap_file 2 t2 (replicate 4 0) es2) c = (Inl (SnapFn x), c1)"
    "snap_Load fn (snap_file 1 t1 (replicate 4 0) es1) c1 = (Inr (snap_hdr 1 t1 es1), c2)"
    using snap_Load_file [OF assms(1), of "replicate 4 0" fn 1 t1 c1] snap_Load_file [OF assms(2), of "replicate 4 0" fn 2 t2 c] assms(3,4) by simp_all
  show ?thesis unfolding LoadNewestValid_def two_snaps_list Let_def by (simp add: m l)
qed

theorem LoadNewestValid_mixes_snapshots_witness:
  "snd (LoadNewestValid (\<lambda>e c. if seValue e = [] then (Some (), c) else (None, c @ [seKey e]))
     (two_snaps (snap_file 1 0 (replicate 4 0) [\<lparr>seKey = [1], seValue = [7], seExpireAtMs = 0\<rparr>])
        (snap_file 2 0 (replicate 4 0) [\<lparr>seKey = [2], seValue = [7], seExpireAtMs = 0\<rparr>, \<lparr>seKey = [3], seValue = [], seExpireAtMs = 0\<rparr>])) [])
   = [[2], [1]]"
  by (subst LoadNewestValid_mixes_snapshots [where x = "()" and ?c1.0 = "[[2]]" and ?c2.0 = "[[2], [1]]"]) (simp_all add: wf_entry_def)

end
