(* ===== verification/Engine.thy ===== *)
theory Engine
  imports Expiry Wal_Durable Snapshot_Load
begin

text \<open>
  \<^verbatim>\<open>internal/engine\<close>: the durable store, composed of the sharded store, the log writer, the log and
  snapshot directories and the queue of deletes that the store itself generates. A write applies to
  memory and submits a log record; its caller waits for the record's commit, which is an entry of
  the writer's list of finished commits. The readings of the clock are arguments. The gate that
  bounds the writes in flight is left out: one operation runs at a time.
\<close>

section \<open>State\<close>

datatype eng_error = ErrClosed | ErrReadOnly | ErrOOM | EngWal submit_error | EngSnap snap_werror | ErrBadRecord u8

record EngineConfig =
  cgStore :: Options
  cgWal :: wal_Options
  cgUnsafeTruncate :: bool
  cgReplica :: bool
  cgSnapshotMinChanges :: u64
  cgSnapshotOnShutdown :: bool

record RecoveryReport =
  rrSnapshotPath :: string
  rrSnapshotLSN :: u64
  rrSnapshotEntries :: u64
  rrReplay :: ReplayResult
  rrExpiredOnLoad :: nat
  rrKeysLoaded :: nat

text \<open>A feed of records for a replica: its capacity and the records it holds.\<close>

record Engine =
  enCfg :: EngineConfig
  enStore :: Store
  enWal :: wal_Writer
  enWalDir :: fs
  enSnapDir :: fs
  enEvictQ :: "(bytes \<times> EvictReason) list"
  enEvictDrops :: u64
  enFeeds :: "(int \<times> nat \<times> Record list) list"
  enReplNext :: int
  enReadOnly :: bool
  enClosed :: bool
  enMutations :: u64
  enLastSnapLSN :: u64
  enSnapshots :: u64
  enRecovery :: RecoveryReport

record Clock =
  ckDeadline :: u64
  ckMs :: u64
  ckMono :: u64
  ckWal :: u64

section \<open>Eviction and expiry propagation\<close>

abbreviation evictQCap :: nat where "evictQCap \<equiv> 8192"

definition onStoreEvict :: "bytes \<times> EvictReason \<Rightarrow> Engine \<Rightarrow> Engine" where
  "onStoreEvict ev e =
     (if enReadOnly e \<or> enClosed e then e
      else if length (enEvictQ e) < evictQCap then e\<lparr>enEvictQ := enEvictQ e @ [ev]\<rparr>
      else e\<lparr>enEvictDrops := enEvictDrops e + 1\<rparr>)"

text \<open>The calls that a store operation made of the callback, in their order.\<close>

definition deliver_evicts :: "Engine \<Rightarrow> Engine" where
  "deliver_evicts e = fold onStoreEvict (firedEvict (enStore e)) (e\<lparr>enStore := (enStore e)\<lparr>firedEvict := []\<rparr>\<rparr>)"

definition record_of :: "u8 \<Rightarrow> bytes \<Rightarrow> bytes \<Rightarrow> u64 \<Rightarrow> Record" where
  "record_of typ key val expireAt =
     \<lparr>rLSN = 0, rCreatedAtMs = 0, rType = typ, rFlags = 0, rKey = key, Record.rValue = val, rExpireAtMs = expireAt\<rparr>"

fun fan_out :: "Record \<Rightarrow> (int \<times> nat \<times> Record list) list \<Rightarrow> (int \<times> nat \<times> Record list) list" where
  "fan_out r [] = []"
| "fan_out r ((i, cap, q) # fs) = (if length q < cap then (i, cap, q @ [r]) # fan_out r fs else fan_out r fs)"

definition fanOutToReplicas :: "Record \<Rightarrow> u64 \<Rightarrow> Engine \<Rightarrow> Engine" where
  "fanOutToReplicas rec lsn e = e\<lparr>enFeeds := fan_out (rec\<lparr>rLSN := lsn\<rparr>) (enFeeds e)\<rparr>"

definition logEvict :: "u64 \<Rightarrow> bytes \<times> EvictReason \<Rightarrow> Engine \<Rightarrow> Engine" where
  "logEvict nowMs ev e =
     (let rec = record_of RecDelete (fst ev) [] 0
      in case Submit nowMs rec (enWal e) of
           (Inl _, w) \<Rightarrow> e\<lparr>enWal := w\<rparr>
         | (Inr lsn, w) \<Rightarrow> fanOutToReplicas rec lsn (e\<lparr>enWal := w\<rparr>))"

text \<open>One turn of \<^verbatim>\<open>drainEvictQueue\<close>.\<close>

definition drainEvict :: "u64 \<Rightarrow> Engine \<Rightarrow> Engine" where
  "drainEvict nowMs e = (case enEvictQ e of [] \<Rightarrow> e | ev # q \<Rightarrow> logEvict nowMs ev (e\<lparr>enEvictQ := q\<rparr>))"

section \<open>Reads\<close>

definition eng_Get :: "bytes \<Rightarrow> u64 \<Rightarrow> u64 \<Rightarrow> Engine \<Rightarrow> (bytes \<times> bool) \<times> Engine" where
  "eng_Get key nowMs nowMono e = (let (r, s) = store_Get key nowMs nowMono (enStore e) in (r, deliver_evicts (e\<lparr>enStore := s\<rparr>)))"

definition eng_Exists :: "bytes \<Rightarrow> u64 \<Rightarrow> u64 \<Rightarrow> Engine \<Rightarrow> bool \<times> Engine" where
  "eng_Exists key nowMs nowMono e = (let (r, s) = store_Exists key nowMs nowMono (enStore e) in (r, deliver_evicts (e\<lparr>enStore := s\<rparr>)))"

definition eng_TTL :: "bytes \<Rightarrow> u64 \<Rightarrow> u64 \<Rightarrow> Engine \<Rightarrow> (int \<times> bool) \<times> Engine" where
  "eng_TTL key nowMs nowMono e = (let (r, s) = store_TTL key nowMs nowMono (enStore e) in (r, deliver_evicts (e\<lparr>enStore := s\<rparr>)))"

definition eng_Keys :: "bytes \<Rightarrow> int \<Rightarrow> u64 \<Rightarrow> Engine \<Rightarrow> bytes list" where
  "eng_Keys pfx limit nowMs e = store_Keys pfx limit nowMs (enStore e)"

section \<open>Writes\<close>

definition deadline :: "u64 \<Rightarrow> u64 \<Rightarrow> u64" where
  "deadline nowMs ttlMillis = (if ttlMillis = 0 then 0 else nowMs + (if ttlMillis > 2 ^ 50 then 2 ^ 50 else ttlMillis))"

text \<open>
  \<^verbatim>\<open>mutate\<close> in two parts: what it does under the shard lock, and what it does after it released the lock.
\<close>

definition mutate_locked :: "Clock \<Rightarrow> Record \<Rightarrow> (Txn \<Rightarrow> (eng_error option \<times> bool) \<times> Txn) \<Rightarrow> Engine \<Rightarrow> (eng_error + bool \<times> u64) \<times> Engine" where
  "mutate_locked ck rec app e =
     (let ((applyErr, res), s) = store_WithKey (rKey rec) (ckMs ck) (ckMono ck) app (enStore e);
          e = deliver_evicts (e\<lparr>enStore := s\<rparr>)
      in case applyErr of
           Some x \<Rightarrow> (Inl x, e)
         | None \<Rightarrow> (case Submit (ckWal ck) rec (enWal e) of
               (Inl x, w) \<Rightarrow> (Inl (EngWal x), e\<lparr>enWal := w\<rparr>)
             | (Inr lsn, w) \<Rightarrow> (Inr (res, lsn), e\<lparr>enWal := w\<rparr>)))"

definition mutate_unlocked :: "Record \<Rightarrow> u64 \<Rightarrow> Engine \<Rightarrow> Engine" where
  "mutate_unlocked rec lsn e = fanOutToReplicas rec lsn (e\<lparr>enMutations := enMutations e + 1\<rparr>)"

definition mutate :: "Clock \<Rightarrow> Record \<Rightarrow> (Txn \<Rightarrow> (eng_error option \<times> bool) \<times> Txn) \<Rightarrow> Engine \<Rightarrow> (eng_error + bool \<times> u64) \<times> Engine" where
  "mutate ck rec app e =
     (case mutate_locked ck rec app e of
        (Inl x, e) \<Rightarrow> (Inl x, e)
      | (Inr (res, lsn), e) \<Rightarrow> (Inr (res, lsn), mutate_unlocked rec lsn e))"

definition eng_Set :: "Clock \<Rightarrow> bytes \<Rightarrow> bytes \<Rightarrow> u64 \<Rightarrow> Engine \<Rightarrow> (eng_error + bool \<times> u64) \<times> Engine" where
  "eng_Set ck key val ttlMillis e =
     (if enClosed e then (Inl ErrClosed, e)
      else if enReadOnly e then (Inl ErrReadOnly, e)
      else let expireAt = deadline (ckDeadline ck) ttlMillis
           in mutate ck (record_of RecSet key val expireAt)
                (\<lambda>t. let (ok, t) = txn_Set key val expireAt t in ((if ok then None else Some ErrOOM, ok), t)) e)"

definition eng_Delete :: "Clock \<Rightarrow> bytes \<Rightarrow> Engine \<Rightarrow> (eng_error + bool \<times> u64) \<times> Engine" where
  "eng_Delete ck key e =
     (if enClosed e then (Inl ErrClosed, e)
      else if enReadOnly e then (Inl ErrReadOnly, e)
      else mutate ck (record_of RecDelete key [] 0) (\<lambda>t. let (ok, t) = txn_Delete key t in ((None, ok), t)) e)"

definition eng_Expire :: "Clock \<Rightarrow> bytes \<Rightarrow> u64 \<Rightarrow> Engine \<Rightarrow> (eng_error + bool \<times> u64) \<times> Engine" where
  "eng_Expire ck key ttlMillis e =
     (if enClosed e then (Inl ErrClosed, e)
      else if enReadOnly e then (Inl ErrReadOnly, e)
      else let expireAt = deadline (ckDeadline ck) ttlMillis
           in mutate ck (record_of RecExpire key [] expireAt) (\<lambda>t. let (ok, t) = txn_Expire key expireAt t in ((None, ok), t)) e)"

text \<open>\<^verbatim>\<open>commit.Wait\<close>: \<open>None\<close> while the commit is pending.\<close>

definition commit_Wait :: "u64 \<Rightarrow> Engine \<Rightarrow> bool option" where
  "commit_Wait lsn e = map_of (wwCommits (enWal e)) lsn"

section \<open>Snapshots\<close>

record SnapshotResult =
  srPath :: string
  srEntries :: u64
  srBytes :: nat
  srLastIncludedLSN :: u64
  srSegmentsRemoved :: nat

text \<open>The callback that \<^verbatim>\<open>Snapshot\<close> passes to \<^verbatim>\<open>Range\<close>.\<close>

definition snap_visit :: "entry \<Rightarrow> snap_werror option \<times> snap_Writer \<times> fs \<Rightarrow> bool \<times> (snap_werror option \<times> snap_Writer \<times> fs)" where
  "snap_visit en = (\<lambda>(err, w, d).
     case snap_Add \<lparr>seKey = eKey en, seValue = eValue en, seExpireAtMs = eExpireAt en\<rparr> w d of
       (Some x, w, d) \<Rightarrow> (False, Some x, w, d)
     | (None, w, d) \<Rightarrow> (True, err, w, d))"

definition eng_Snapshot :: "u64 \<Rightarrow> u64 \<Rightarrow> Engine \<Rightarrow> (eng_error + SnapshotResult) \<times> Engine" where
  "eng_Snapshot createdMs nowMs e =
     (let lastLSN = wal_DurableLSN (enWal e)
      in case snap_Create lastLSN createdMs (enSnapDir e) of
           (Inl x, d) \<Rightarrow> (Inl (EngSnap x), e\<lparr>enSnapDir := d\<rparr>)
         | (Inr w, d) \<Rightarrow>
             (case store_Range snap_visit nowMs (enStore e) (None, w, d) of
                (Some x, w, d) \<Rightarrow> (Inl (EngSnap x), e\<lparr>enSnapDir := snd (snap_Abort w d)\<rparr>)
              | (None, w, d) \<Rightarrow>
                  (let entries = swCount w;
                       written = swWritten w
                   in case snap_Commit w d of
                        (Inl x, w, d) \<Rightarrow> (Inl (EngSnap x), e\<lparr>enSnapDir := d\<rparr>)
                      | (Inr path, w, d) \<Rightarrow>
                          (let e = e\<lparr>enSnapDir := d, enLastSnapLSN := lastLSN, enSnapshots := enSnapshots e + 1, enMutations := 0\<rparr>;
                               (removed, ok, wd) = TruncateBelow lastLSN (enWalDir e);
                               (pruned, ok2, sd) = snap_Prune 2 (enSnapDir e)
                           in (Inr \<lparr>srPath = path, srEntries = entries, srBytes = written, srLastIncludedLSN = lastLSN,
                                    srSegmentsRemoved = removed\<rparr>,
                               e\<lparr>enWalDir := wd, enSnapDir := sd\<rparr>)))))"

definition resetKeyspace :: "u64 \<Rightarrow> u64 \<Rightarrow> Engine \<Rightarrow> eng_error option \<times> Engine" where
  "resetKeyspace createdMs nowMs e =
     (case eng_Snapshot createdMs nowMs (deliver_evicts (e\<lparr>enStore := store_Flush (enStore e)\<rparr>)) of
        (Inl x, e) \<Rightarrow> (Some x, e) | (Inr _, e) \<Rightarrow> (None, e))"

definition eng_Flush :: "u64 \<Rightarrow> u64 \<Rightarrow> Engine \<Rightarrow> eng_error option \<times> Engine" where
  "eng_Flush createdMs nowMs e = (if enReadOnly e then (Some ErrReadOnly, e) else resetKeyspace createdMs nowMs e)"

definition ResetForFullResync :: "u64 \<Rightarrow> u64 \<Rightarrow> Engine \<Rightarrow> eng_error option \<times> Engine" where
  "ResetForFullResync createdMs nowMs e = resetKeyspace createdMs nowMs e"

section \<open>Background steps\<close>

text \<open>One tick of the eviction controller and one of the snapshot controller.\<close>

definition evict_tick :: "Engine \<Rightarrow> Engine" where
  "evict_tick e = (if oMaxMemory (cgStore (enCfg e)) > 0 \<and> oPolicy (cgStore (enCfg e)) \<noteq> EvictNone
     then deliver_evicts (e\<lparr>enStore := snd (EvictToLimit (enStore e))\<rparr>) else e)"

definition snapshot_tick :: "u64 \<Rightarrow> u64 \<Rightarrow> Engine \<Rightarrow> Engine" where
  "snapshot_tick createdMs nowMs e =
     (if enMutations e < cgSnapshotMinChanges (enCfg e) then e else snd (eng_Snapshot createdMs nowMs e))"

text \<open>One turn of the log writer goroutine and of its ticker, and \<^verbatim>\<open>ForceSync\<close>.\<close>

definition eng_flush_turn :: "u64 \<Rightarrow> nat \<Rightarrow> Engine \<Rightarrow> Engine" where
  "eng_flush_turn nowMs n e = (let (w, d) = run_turn nowMs n (enWal e) (enWalDir e) in e\<lparr>enWal := w, enWalDir := d\<rparr>)"

definition eng_wal_tick :: "Engine \<Rightarrow> Engine" where
  "eng_wal_tick e = (let (w, d) = everySec_tick (enWal e) (enWalDir e) in e\<lparr>enWal := w, enWalDir := d\<rparr>)"

definition ForceSync :: "Engine \<Rightarrow> bool \<times> Engine" where
  "ForceSync e = (let (ok, w, d) = wal_Sync (enWal e) (enWalDir e) in (ok, e\<lparr>enWal := w, enWalDir := d\<rparr>))"

section \<open>Replication support\<close>

definition eng_Subscribe :: "int \<Rightarrow> Engine \<Rightarrow> int \<times> Engine" where
  "eng_Subscribe buffer e =
     (let buffer = (if buffer \<le> 0 then 4096 else buffer);
          i = enReplNext e + 1
      in (i, e\<lparr>enReplNext := i, enFeeds := enFeeds e @ [(i, nat buffer, [])]\<rparr>))"

definition eng_Unsubscribe :: "int \<Rightarrow> Engine \<Rightarrow> Engine" where
  "eng_Unsubscribe i e = e\<lparr>enFeeds := filter (\<lambda>f. fst f \<noteq> i) (enFeeds e)\<rparr>"

definition applyRecord :: "u64 \<Rightarrow> u64 \<Rightarrow> Record \<Rightarrow> Store \<Rightarrow> eng_error option \<times> Store" where
  "applyRecord nowMs nowMono r s =
     (if rType r = RecSet then (let (ok, s) = store_Set (rKey r) (Record.rValue r) (rExpireAtMs r) nowMono s in (if ok then None else Some ErrOOM, s))
      else if rType r = RecDelete then (None, snd (store_Delete (rKey r) nowMs s))
      else if rType r = RecExpire then (None, snd (store_Expire (rKey r) (rExpireAtMs r) nowMs s))
      else if rType r = RecSegmentHdr then (None, s)
      else (Some (ErrBadRecord (rType r)), s))"

definition ApplyReplicated :: "Clock \<Rightarrow> Record \<Rightarrow> Engine \<Rightarrow> eng_error option \<times> Engine" where
  "ApplyReplicated ck r e =
     (let (err, s) = applyRecord (ckMs ck) (ckMono ck) r (enStore e);
          e = deliver_evicts (e\<lparr>enStore := s\<rparr>)
      in case err of
           Some x \<Rightarrow> (Some x, e)
         | None \<Rightarrow> (case Submit (ckWal ck) r (enWal e) of
               (Inl x, w) \<Rightarrow> (Some (EngWal x), e\<lparr>enWal := w\<rparr>)
             | (Inr _, w) \<Rightarrow> (None, e\<lparr>enWal := w, enMutations := enMutations e + 1\<rparr>)))"

definition SetReadOnly :: "bool \<Rightarrow> Engine \<Rightarrow> Engine" where
  "SetReadOnly ro e = e\<lparr>enReadOnly := ro\<rparr>"

definition eng_LastLSN :: "Engine \<Rightarrow> u64" where "eng_LastLSN e = wal_LastLSN (enWal e)"
definition eng_DurableLSN :: "Engine \<Rightarrow> u64" where "eng_DurableLSN e = wal_DurableLSN (enWal e)"

section \<open>Startup and shutdown\<close>

definition load_entry :: "u64 \<Rightarrow> SnapEntry \<Rightarrow> Store \<Rightarrow> eng_error option \<times> Store" where
  "load_entry nowMono en s = (let (ok, s) = store_Set (seKey en) (seValue en) (seExpireAtMs en) nowMono s in (if ok then None else Some ErrOOM, s))"

datatype recover_error = RecSnapshot "eng_error snap_error" | RecReplay "eng_error replay_error" | RecPurge

text \<open>\<open>RecPurge\<close> stands for a purge that does not end; it never happens.\<close>

definition eng_recover :: "bool \<Rightarrow> u64 \<Rightarrow> u64 \<Rightarrow> fs \<Rightarrow> fs \<Rightarrow> Store \<Rightarrow> (recover_error + RecoveryReport) \<times> fs \<times> Store" where
  "eng_recover unsafe nowMs nowMono snapDir walDir s =
     (case LoadNewestValid (load_entry nowMono) snapDir s of
        (Inl err, s) \<Rightarrow>
          if err \<noteq> ErrNoSnapshot then (Inl (RecSnapshot err), walDir, s)
          else (case Replay 0 unsafe (applyRecord nowMs nowMono) walDir s of
             (Some x, res, d, s) \<Rightarrow> (Inl (RecReplay x), d, s)
           | (None, res, d, s) \<Rightarrow> (case PurgeExpired nowMs s of
                None \<Rightarrow> (Inl RecPurge, d, s)
              | Some (n, s) \<Rightarrow> (Inr \<lparr>rrSnapshotPath = '''', rrSnapshotLSN = 0, rrSnapshotEntries = 0, rrReplay = res,
                                   rrExpiredOnLoad = n, rrKeysLoaded = 0\<rparr>, d, s)))
      | (Inr (hdr, path), s) \<Rightarrow>
          (case Replay (shLastIncludedLSN hdr) unsafe (applyRecord nowMs nowMono) walDir s of
             (Some x, res, d, s) \<Rightarrow> (Inl (RecReplay x), d, s)
           | (None, res, d, s) \<Rightarrow> (case PurgeExpired nowMs s of
                None \<Rightarrow> (Inl RecPurge, d, s)
              | Some (n, s) \<Rightarrow> (Inr \<lparr>rrSnapshotPath = path, rrSnapshotLSN = shLastIncludedLSN hdr, rrSnapshotEntries = shEntryCount hdr,
                                   rrReplay = res, rrExpiredOnLoad = n, rrKeysLoaded = 0\<rparr>, d, s))))"

datatype open_error = OpenRecover recover_error | OpenWal

definition eng_Open :: "EngineConfig \<Rightarrow> bytes option \<Rightarrow> u64 \<Rightarrow> u64 \<Rightarrow> fs \<Rightarrow> fs \<Rightarrow> (open_error + Engine) \<times> fs" where
  "eng_Open cfg entropy nowMs nowMono snapDir walDir =
     (case eng_recover (cgUnsafeTruncate cfg) nowMs nowMono snapDir walDir (store_New entropy (cgStore cfg)) of
        (Inl x, d, s) \<Rightarrow> (Inl (OpenRecover x), d)
      | (Inr rep, d, s) \<Rightarrow>
          (case wal_Open ((cgWal cfg)\<lparr>woStartLSN := rpNextLSN (rrReplay rep), woResumePath := rpResumePath (rrReplay rep),
                                      woResumeOffset := rpResumeOffset (rrReplay rep)\<rparr>) nowMs d of
             (None, d) \<Rightarrow> (Inl OpenWal, d)
           | (Some w, d) \<Rightarrow>
               (Inr \<lparr>enCfg = cfg, enStore = SetOnEvict True s, enWal = w, enWalDir = d, enSnapDir = snapDir, enEvictQ = [],
                     enEvictDrops = 0, enFeeds = [], enReplNext = 0, enReadOnly = cgReplica cfg, enClosed = False, enMutations = 0,
                     enLastSnapLSN = rrSnapshotLSN rep, enSnapshots = 0, enRecovery = rep\<lparr>rrKeysLoaded := store_Len s\<rparr>\<rparr>, d)))"

text \<open>\<^verbatim>\<open>Close\<close>; \<open>ns\<close> lists the batches in which the log writer drains its queue.\<close>

definition eng_Close :: "u64 \<Rightarrow> u64 \<Rightarrow> nat list \<Rightarrow> Engine \<Rightarrow> bool \<times> Engine" where
  "eng_Close createdMs nowMs ns e =
     (if enClosed e then (True, e)
      else let e = e\<lparr>enClosed := True\<rparr>;
               e = fold (\<lambda>ev. logEvict nowMs ev) (enEvictQ e) (e\<lparr>enEvictQ := []\<rparr>);
               e = (if cgSnapshotOnShutdown (enCfg e) then snd (eng_Snapshot createdMs nowMs e) else e);
               e = e\<lparr>enFeeds := []\<rparr>;
               (ok, w, d) = wal_Close nowMs ns (enWal e) (enWalDir e)
           in (ok, e\<lparr>enWal := w, enWalDir := d\<rparr>))"

end
