(* ===== verification/Engine_Spec.thy ===== *)
theory Engine_Spec
  imports Engine
begin

text \<open>
  What the engine promises: what each operation does to the keyspace, to the log and to the replica
  feeds, that memory is the effect of the submitted records as long as no deadline passed, and that
  recovery after a crash rebuilds the effect of a prefix of them which, under the policy \<^verbatim>\<open>always\<close> and as long as no
  system call failed, holds every acknowledged one.
\<close>

section \<open>The effect of a record\<close>

text \<open>The effect of a record on a keyspace when it is written, and when it is replayed at time \<open>now\<close>.\<close>

definition record_effect :: "Record \<Rightarrow> kv \<Rightarrow> kv" where
  "record_effect r m =
     (if rType r = RecSet then m(rKey r \<mapsto> (Record.rValue r, rExpireAtMs r))
      else if rType r = RecDelete then m(rKey r := None)
      else if rType r = RecExpire then m(rKey r := map_option (\<lambda>(v, x). (v, rExpireAtMs r)) (m (rKey r)))
      else m)"

definition replay_effect :: "u64 \<Rightarrow> Record \<Rightarrow> kv \<Rightarrow> kv" where
  "replay_effect now r m =
     (if rType r = RecSet then m(rKey r \<mapsto> (Record.rValue r, rExpireAtMs r))
      else if rType r = RecDelete then m(rKey r := None)
      else if rType r = RecExpire then spec_expire (rKey r) (rExpireAtMs r) now m
      else m)"

definition unexpired :: "u64 \<Rightarrow> kv \<Rightarrow> bool" where
  "unexpired now m \<longleftrightarrow> live now m = m"

lemma unexpired_live: "unexpired now m \<Longrightarrow> live now m k = m k"
  by (simp add: unexpired_def)

lemma unexpired_reap: "unexpired now m \<Longrightarrow> reap_key k now m = m"
  using unexpired_live [of now m k] by (auto simp: reap_key_def live_def split: option.splits if_splits)

lemma spec_expire_unexpired:
  "unexpired now m \<Longrightarrow> spec_expire k x now m = m(k := map_option (\<lambda>(v, _). (v, x)) (m k))"
  by (simp add: spec_expire_def unexpired_live split: option.splits)

lemma live_empty [simp]: "live now Map.empty = Map.empty"
  by (simp add: live_def fun_eq_iff)

lemma live_idem [simp]: "live now (live now m) = live now m"
  by (auto simp: live_def fun_eq_iff split: option.splits)

text \<open>A record that the store takes without running out of room.\<close>

definition replayable :: "Record \<Rightarrow> bool" where
  "replayable r \<longleftrightarrow> rType r \<in> {RecSet, RecDelete, RecExpire} \<and> cost_fits (rKey r) (Record.rValue r)"

lemma applyRecord_spec:
  assumes "store_room (Suc n) s" "replayable r" "applyRecord now nm r s = (err, t)"
  shows "err = None" "store_abs t = replay_effect now r (store_abs s)" "store_room n t"
proof -
  have w: "wf_store s" and n: "store_room n s" using assms(1) by (auto simp: store_room_def)
  note S = store_Set_unlimited [OF assms(1), of "rKey r" "Record.rValue r" "rExpireAtMs r" nm]
  note D = store_Delete_spec [OF w, where k = "rKey r" and now = now] and E = store_Expire_spec [OF w, where k = "rKey r" and x = "rExpireAtMs r" and now = now]
  show "err = None" "store_abs t = replay_effect now r (store_abs s)" "store_room n t"
    using assms(2,3) S D E n
    by (auto simp: applyRecord_def replay_effect_def replayable_def split: prod.splits if_splits)
qed

text \<open>
  What recovery and replication need of the receiver of a stream of records: an accepted record is
  applied without error, with its effect on the state that the receiver denotes, and uses up one unit of
  the room that is left. Then a whole stream has the effects of its records, in order.
\<close>

locale record_sink =
  fixes eff :: "Record \<Rightarrow> 'm \<Rightarrow> 'm"
    and lookup :: "'s \<Rightarrow> 'm"
    and room :: "nat \<Rightarrow> 's \<Rightarrow> bool"
    and ok :: "Record \<Rightarrow> bool"
    and app :: "Record \<Rightarrow> 's \<Rightarrow> 'e option \<times> 's"
  assumes app_ok: "room (Suc n) s \<Longrightarrow> ok r \<Longrightarrow> fst (app r s) = None"
    and app_lookup: "room (Suc n) s \<Longrightarrow> ok r \<Longrightarrow> lookup (snd (app r s)) = eff r (lookup s)"
    and app_room: "room (Suc n) s \<Longrightarrow> ok r \<Longrightarrow> room n (snd (app r s))"
begin

lemma stream_accepts: "room (length rs + n) s \<Longrightarrow> list_all ok rs \<Longrightarrow> accepts app rs s"
  by (induction rs arbitrary: s) (simp_all add: app_ok app_room)

lemma stream_lookup:
  "room (length rs + n) s \<Longrightarrow> list_all ok rs \<Longrightarrow> lookup (fold (\<lambda>r s. snd (app r s)) rs s) = fold eff rs (lookup s)"
  by (induction rs arbitrary: s) (simp_all add: app_lookup app_room)

lemma stream_room: "room (length rs + n) s \<Longrightarrow> list_all ok rs \<Longrightarrow> room n (fold (\<lambda>r s. snd (app r s)) rs s)"
  by (induction rs arbitrary: s) (simp_all add: app_room)

end

interpretation recovery: record_sink "replay_effect now" store_abs store_room replayable "applyRecord now nm" for now nm
proof
  fix n s r
  assume a: "store_room (Suc n) s" "replayable r"
  note A = applyRecord_spec [OF a prod.collapse [symmetric]]
  show "fst (applyRecord now nm r s) = None" "store_abs (snd (applyRecord now nm r s)) = replay_effect now r (store_abs s)"
    "store_room n (snd (applyRecord now nm r s))" by (rule A)+
qed

lemma applyRecord_fold:
  assumes "store_room (length rs) s" "\<forall>r \<in> set rs. replayable r"
  shows "accepts (applyRecord now nm) rs s"
    "store_abs (fold (\<lambda>r s. snd (applyRecord now nm r s)) rs s) = fold (replay_effect now) rs (store_abs s)"
    "wf_store (fold (\<lambda>r s. snd (applyRecord now nm r s)) rs s)"
  using recovery.stream_accepts [of rs 0 s] recovery.stream_lookup [of rs 0 s] recovery.stream_room [of rs 0 s] assms
  by (simp_all add: list_all_iff store_room_def)

section \<open>Operations\<close>

lemma onStoreEvict_frame:
  "enStore (fold onStoreEvict evs e) = enStore e" "enWal (fold onStoreEvict evs e) = enWal e"
  "enWalDir (fold onStoreEvict evs e) = enWalDir e" "enSnapDir (fold onStoreEvict evs e) = enSnapDir e"
  "enFeeds (fold onStoreEvict evs e) = enFeeds e" "enCfg (fold onStoreEvict evs e) = enCfg e"
  "enReadOnly (fold onStoreEvict evs e) = enReadOnly e" "enClosed (fold onStoreEvict evs e) = enClosed e"
  "enMutations (fold onStoreEvict evs e) = enMutations e" "enLastSnapLSN (fold onStoreEvict evs e) = enLastSnapLSN e"
  by (induction evs arbitrary: e) (simp_all add: onStoreEvict_def)

lemma store_abs_fired [simp]:
  "store_abs (s\<lparr>firedEvict := x\<rparr>) = store_abs s" "wf_store (s\<lparr>firedEvict := x\<rparr>) = wf_store s"
  "store_room n (s\<lparr>firedEvict := x\<rparr>) = store_room n s"
  "store_abs (s\<lparr>onEvictSet := y\<rparr>) = store_abs s" "store_room n (s\<lparr>onEvictSet := y\<rparr>) = store_room n s"
  by (simp_all add: store_abs_def wf_store_def store_room_def shardFor_def fun_eq_iff)

lemma deliver_evicts_frame [simp]:
  "enStore (deliver_evicts e) = (enStore e)\<lparr>firedEvict := []\<rparr>" "enWal (deliver_evicts e) = enWal e"
  "enWalDir (deliver_evicts e) = enWalDir e" "enSnapDir (deliver_evicts e) = enSnapDir e"
  "enFeeds (deliver_evicts e) = enFeeds e" "enCfg (deliver_evicts e) = enCfg e" "enReadOnly (deliver_evicts e) = enReadOnly e"
  "enClosed (deliver_evicts e) = enClosed e" "enMutations (deliver_evicts e) = enMutations e"
  "enLastSnapLSN (deliver_evicts e) = enLastSnapLSN e"
  by (simp_all add: deliver_evicts_def onStoreEvict_frame)

lemma fanOut_frame [simp]:
  "enStore (fanOutToReplicas r n e) = enStore e" "enWal (fanOutToReplicas r n e) = enWal e"
  "enWalDir (fanOutToReplicas r n e) = enWalDir e" "enSnapDir (fanOutToReplicas r n e) = enSnapDir e"
  "enCfg (fanOutToReplicas r n e) = enCfg e" "enReadOnly (fanOutToReplicas r n e) = enReadOnly e"
  "enClosed (fanOutToReplicas r n e) = enClosed e" "enMutations (fanOutToReplicas r n e) = enMutations e"
  "enEvictQ (fanOutToReplicas r n e) = enEvictQ e" "enLastSnapLSN (fanOutToReplicas r n e) = enLastSnapLSN e"
  by (simp_all add: fanOutToReplicas_def)

text \<open>The operations of a transaction are those of the store, without the registration of the deadline.\<close>

lemma WithKey_Set:
  "store_WithKey k now nm (\<lambda>t. let (ok, t) = txn_Set k v x t in (g ok, t)) s
     = (let (ok, s') = withWrite (shardFor s k) (setLocked k v x nm) s in (g ok, s'))"
  by (simp add: store_WithKey_def txn_Set_def withWrite_def split_beta Let_def)

lemma WithKey_Delete:
  "store_WithKey k now nm (\<lambda>t. let (ok, t) = txn_Delete k t in (g ok, t)) s = (let (ok, s') = store_Delete k now s in (g ok, s'))"
  by (simp add: store_WithKey_def txn_Delete_def store_Delete_def withWrite_def split_beta Let_def)

lemma WithKey_Expire:
  "store_WithKey k now nm (\<lambda>t. let (ok, t) = txn_Expire k x t in (g ok, t)) s
     = (let (ok, s') = withWrite (shardFor s k) (expire_live k x now) s in (g ok, s'))"
  by (simp add: store_WithKey_def txn_Expire_def withWrite_def split_beta Let_def)

lemma withWrite_Set:
  assumes "store_room (Suc n) s" "cost_fits k v" "withWrite (shardFor s k) (setLocked k v x nm) s = (ok, t)"
  shows "ok" "store_abs t = (store_abs s)(k \<mapsto> (v, x))" "store_room n t"
  using store_Set_unlimited [OF assms(1,2), of x nm] assms(3) by (auto simp: store_Set_def split: if_splits)

lemma withWrite_Expire:
  assumes "wf_store s" "withWrite (shardFor s k) (expire_live k x now) s = (ok, t)"
  shows "ok \<longleftrightarrow> live now (store_abs s) k \<noteq> None" "store_abs t = spec_expire k x now (store_abs s)"
    "store_room n s \<Longrightarrow> store_room n t"
  using store_Expire_spec [OF assms(1), where k = k and x = x and now = now] assms(2) by (auto simp: store_Expire_def split: if_splits)

text \<open>What a successful write changed: the record it submitted is the last one of the queue.\<close>

definition submitted_as :: "Record \<Rightarrow> Record \<Rightarrow> bool" where
  "submitted_as r r' \<longleftrightarrow> rType r' = rType r \<and> rKey r' = rKey r \<and> Record.rValue r' = Record.rValue r \<and> rExpireAtMs r' = rExpireAtMs r"

lemma mutate_ok:
  assumes "mutate ck rec app e = (Inr (res, lsn), e')"
  shows "\<exists>s. store_WithKey (rKey rec) (ckMs ck) (ckMono ck) app (enStore e) = ((None, res), s) \<and> enStore e' = s\<lparr>firedEvict := []\<rparr>"
    "Submit (ckWal ck) rec (enWal e) = (Inr lsn, enWal e')" "enWalDir e' = enWalDir e"
    "enSnapDir e' = enSnapDir e" "enCfg e' = enCfg e" "enFeeds e' = fan_out (rec\<lparr>rLSN := lsn\<rparr>) (enFeeds e)"
  using assms
  by (auto simp: mutate_def mutate_locked_def mutate_unlocked_def Let_def fanOutToReplicas_def split: prod.splits option.splits sum.splits)

lemma Submit_as:
  assumes "Submit t r w = (Inr n, w')"
  shows "wwQueue w' = wwQueue w @ [last (wwQueue w')]" "submitted_as r (last (wwQueue w'))" "rLSN (last (wwQueue w')) = n"
    "n = wwNextLSN w" "wf_record (last (wwQueue w'))" "\<not> wwFatal w" "wwCommits w' = wwCommits w" "wwFatal w' = wwFatal w"
proof -
  obtain r' where r: "w' = w\<lparr>wwNextLSN := wwNextLSN w + 1, wwQueue := wwQueue w @ [r']\<rparr>" "rLSN r' = wwNextLSN w" "wf_record r'" "n = wwNextLSN w"
    "rKey r' = rKey r" "Record.rValue r' = Record.rValue r" "rType r' = rType r" "rExpireAtMs r' = rExpireAtMs r" "\<not> wwFatal w"
    by (rule Submit_ok [OF assms])
  then show "wwQueue w' = wwQueue w @ [last (wwQueue w')]" "submitted_as r (last (wwQueue w'))" "rLSN (last (wwQueue w')) = n"
    "n = wwNextLSN w" "wf_record (last (wwQueue w'))" "\<not> wwFatal w" "wwCommits w' = wwCommits w" "wwFatal w' = wwFatal w"
    by (simp_all add: submitted_as_def)
qed

lemma Submit_cost: "Submit t r w = (Inr n, w') \<Longrightarrow> cost_fits (rKey r) (Record.rValue r)"
  by (auto simp: Submit_def cost_fits_def EntryCost_def split: if_splits)

text \<open>A successful write on a store with no memory limit: the deadline, the record and the memory.\<close>

lemma eng_Set_ok:
  assumes "eng_Set ck k v ttl e = (Inr (b, lsn), e')" "store_room (Suc n) (enStore e)"
  shows "Submit (ckWal ck) (record_of RecSet k v (deadline (ckDeadline ck) ttl)) (enWal e) = (Inr lsn, enWal e')"
    "store_abs (enStore e') = (store_abs (enStore e))(k \<mapsto> (v, deadline (ckDeadline ck) ttl))" "store_room n (enStore e')" "b"
    "enWalDir e' = enWalDir e" "enSnapDir e' = enSnapDir e" "enCfg e' = enCfg e"
proof -
  let ?r = "record_of RecSet k v (deadline (ckDeadline ck) ttl)"
  have m: "mutate ck ?r (\<lambda>t. let (ok, t) = txn_Set k v (deadline (ckDeadline ck) ttl) t in ((if ok then None else Some ErrOOM, ok), t)) e = (Inr (b, lsn), e')"
    using assms(1) by (simp add: eng_Set_def Let_def split: if_splits)
  have k: "rKey ?r = k" "Record.rValue ?r = v" by (simp_all add: record_of_def)
  note M = mutate_ok [OF m, unfolded k WithKey_Set]
  have c: "cost_fits k v" using Submit_cost [OF M(2)] by (simp add: k)
  obtain ok t where t: "withWrite (shardFor (enStore e) k) (setLocked k v (deadline (ckDeadline ck) ttl) (ckMono ck)) (enStore e) = (ok, t)" by force
  note W = withWrite_Set [OF assms(2) c t]
  have "b" "enStore e' = t\<lparr>firedEvict := []\<rparr>" using M(1) t W(1) by auto
  then show "Submit (ckWal ck) ?r (enWal e) = (Inr lsn, enWal e')"
    "store_abs (enStore e') = (store_abs (enStore e))(k \<mapsto> (v, deadline (ckDeadline ck) ttl))" "store_room n (enStore e')" "b"
    "enWalDir e' = enWalDir e" "enSnapDir e' = enSnapDir e" "enCfg e' = enCfg e"
    using M W by simp_all
qed

lemma eng_Delete_ok:
  assumes "eng_Delete ck k e = (Inr (b, lsn), e')" "wf_store (enStore e)"
  shows "Submit (ckWal ck) (record_of RecDelete k [] 0) (enWal e) = (Inr lsn, enWal e')"
    "store_abs (enStore e') = (store_abs (enStore e))(k := None)" "store_room n (enStore e) \<Longrightarrow> store_room n (enStore e')"
    "b \<longleftrightarrow> live (ckMs ck) (store_abs (enStore e)) k \<noteq> None" "enWalDir e' = enWalDir e" "enSnapDir e' = enSnapDir e" "enCfg e' = enCfg e"
proof -
  have m: "mutate ck (record_of RecDelete k [] 0) (\<lambda>t. let (ok, t) = txn_Delete k t in ((None, ok), t)) e = (Inr (b, lsn), e')"
    using assms(1) by (simp add: eng_Delete_def split: if_splits)
  have k: "rKey (record_of RecDelete k [] 0) = k" by (simp add: record_of_def)
  note M = mutate_ok [OF m, unfolded k WithKey_Delete]
  obtain t where "store_Delete k (ckMs ck) (enStore e) = (b, t)" "enStore e' = t\<lparr>firedEvict := []\<rparr>"
    using M(1) by (auto split: prod.splits)
  then show "Submit (ckWal ck) (record_of RecDelete k [] 0) (enWal e) = (Inr lsn, enWal e')"
    "store_abs (enStore e') = (store_abs (enStore e))(k := None)" "store_room n (enStore e) \<Longrightarrow> store_room n (enStore e')"
    "b \<longleftrightarrow> live (ckMs ck) (store_abs (enStore e)) k \<noteq> None" "enWalDir e' = enWalDir e" "enSnapDir e' = enSnapDir e" "enCfg e' = enCfg e"
    using M store_Delete_spec [OF assms(2), where k = k and now = "ckMs ck"] by simp_all
qed

lemma eng_Expire_ok:
  assumes "eng_Expire ck k ttl e = (Inr (b, lsn), e')" "wf_store (enStore e)"
  shows "Submit (ckWal ck) (record_of RecExpire k [] (deadline (ckDeadline ck) ttl)) (enWal e) = (Inr lsn, enWal e')"
    "store_abs (enStore e') = spec_expire k (deadline (ckDeadline ck) ttl) (ckMs ck) (store_abs (enStore e))"
    "store_room n (enStore e) \<Longrightarrow> store_room n (enStore e')" "b \<longleftrightarrow> live (ckMs ck) (store_abs (enStore e)) k \<noteq> None"
    "enWalDir e' = enWalDir e" "enSnapDir e' = enSnapDir e" "enCfg e' = enCfg e"
proof -
  let ?x = "deadline (ckDeadline ck) ttl"
  have m: "mutate ck (record_of RecExpire k [] ?x) (\<lambda>t. let (ok, t) = txn_Expire k ?x t in ((None, ok), t)) e = (Inr (b, lsn), e')"
    using assms(1) by (simp add: eng_Expire_def Let_def split: if_splits)
  have k: "rKey (record_of RecExpire k [] ?x) = k" by (simp add: record_of_def)
  note M = mutate_ok [OF m, unfolded k WithKey_Expire]
  obtain t where t: "withWrite (shardFor (enStore e) k) (expire_live k ?x (ckMs ck)) (enStore e) = (b, t)" "enStore e' = t\<lparr>firedEvict := []\<rparr>"
    using M(1) by (auto split: prod.splits)
  then show "Submit (ckWal ck) (record_of RecExpire k [] ?x) (enWal e) = (Inr lsn, enWal e')"
    "store_abs (enStore e') = spec_expire k ?x (ckMs ck) (store_abs (enStore e))"
    "store_room n (enStore e) \<Longrightarrow> store_room n (enStore e')" "b \<longleftrightarrow> live (ckMs ck) (store_abs (enStore e)) k \<noteq> None"
    "enWalDir e' = enWalDir e" "enSnapDir e' = enSnapDir e" "enCfg e' = enCfg e"
    using M withWrite_Expire [OF assms(2) t(1)] by simp_all
qed

section \<open>Runs of the engine\<close>

text \<open>
  The states that the engine goes through from empty directories, with the list of the records that it
  submitted: client writes and reads at times at which no deadline of the keyspace has passed, the
  turns of the log writer and of its ticker, explicit syncs, the eviction controller and the replica
  feeds. System calls may fail at any point.
\<close>

definition may_write :: "Clock \<Rightarrow> Engine \<Rightarrow> bool" where
  "may_write ck e \<longleftrightarrow> unexpired (ckMs ck) (store_abs (enStore e)) \<and> int (length (wwQueue (enWal e))) < woQueueDepth (wwO (enWal e))
     \<and> unat (wwNextLSN (enWal e)) + 1 < 10 ^ 16"

inductive eng_reach :: "EngineConfig \<Rightarrow> Record list \<Rightarrow> Engine \<Rightarrow> bool" for cfg where
  opened: "files sd = [] \<Longrightarrow> files d = [] \<Longrightarrow> eng_Open cfg ent t tm sd d = (Inr e, d') \<Longrightarrow> eng_reach cfg [] e"
| set: "eng_reach cfg subs e \<Longrightarrow> may_write ck e \<Longrightarrow> eng_Set ck k v ttl e = (Inr (b, lsn), e')
    \<Longrightarrow> eng_reach cfg (subs @ [last (wwQueue (enWal e'))]) e'"
| delete: "eng_reach cfg subs e \<Longrightarrow> may_write ck e \<Longrightarrow> eng_Delete ck k e = (Inr (b, lsn), e')
    \<Longrightarrow> eng_reach cfg (subs @ [last (wwQueue (enWal e'))]) e'"
| expire: "eng_reach cfg subs e \<Longrightarrow> may_write ck e \<Longrightarrow> eng_Expire ck k ttl e = (Inr (b, lsn), e')
    \<Longrightarrow> eng_reach cfg (subs @ [last (wwQueue (enWal e'))]) e'"
| get: "eng_reach cfg subs e \<Longrightarrow> unexpired now (store_abs (enStore e)) \<Longrightarrow> eng_Get k now nm e = (r, e') \<Longrightarrow> eng_reach cfg subs e'"
| exist: "eng_reach cfg subs e \<Longrightarrow> unexpired now (store_abs (enStore e)) \<Longrightarrow> eng_Exists k now nm e = (q, e') \<Longrightarrow> eng_reach cfg subs e'"
| ttl: "eng_reach cfg subs e \<Longrightarrow> unexpired now (store_abs (enStore e)) \<Longrightarrow> eng_TTL k now nm e = (p, e') \<Longrightarrow> eng_reach cfg subs e'"
| flushed: "eng_reach cfg subs e \<Longrightarrow> eng_reach cfg subs (eng_flush_turn t n e)"
| ticked: "eng_reach cfg subs e \<Longrightarrow> eng_reach cfg subs (eng_wal_tick e)"
| synced: "eng_reach cfg subs e \<Longrightarrow> eng_reach cfg subs (snd (ForceSync e))"
| evicted: "eng_reach cfg subs e \<Longrightarrow> eng_reach cfg subs (evict_tick e)"
| subscribed: "eng_reach cfg subs e \<Longrightarrow> eng_reach cfg subs (snd (eng_Subscribe i e))"
| unsubscribed: "eng_reach cfg subs e \<Longrightarrow> eng_reach cfg subs (eng_Unsubscribe j e)"

definition unlimited :: "EngineConfig \<Rightarrow> bool" where
  "unlimited cfg \<longleftrightarrow> oMaxMemory (cgStore cfg) \<le> 0 \<and> oShards (cgStore cfg) \<le> 2 ^ 64"

lemma withDefaults_shards_bound: "oShards o0 \<le> 2 ^ 64 \<Longrightarrow> oShards (withDefaults ent o0) \<le> 2 ^ 64"
  by (simp add: withDefaults_def Let_def)

lemma unlimited_New:
  assumes "unlimited cfg" "n < 2 ^ 31"
  shows "store_room n (store_New ent (cgStore cfg))" "store_abs (store_New ent (cgStore cfg)) = Map.empty"
  using assms store_New_spec [of ent "cgStore cfg"] withDefaults_shards_bound [of "cgStore cfg" ent]
  by (simp_all add: unlimited_def)

definition eng_inv :: "EngineConfig \<Rightarrow> Record list \<Rightarrow> Engine \<Rightarrow> bool" where
  "eng_inv cfg subs e \<longleftrightarrow> (\<exists>o1. wal_reach o1 subs (enWal e) (enWalDir e)) \<and> store_room (2 ^ 31 - 1 - length subs) (enStore e)
     \<and> store_abs (enStore e) = fold record_effect subs Map.empty \<and> (\<forall>r \<in> set subs. replayable r)
     \<and> files (enSnapDir e) = [] \<and> enCfg e = cfg"

lemma eng_invI:
  assumes "wal_reach o1 subs (enWal e) (enWalDir e)" "store_room (2 ^ 31 - 1 - length subs) (enStore e)"
    "store_abs (enStore e) = fold record_effect subs Map.empty" "\<forall>r \<in> set subs. replayable r" "files (enSnapDir e) = []" "enCfg e = cfg"
  shows "eng_inv cfg subs e"
  using assms unfolding eng_inv_def by blast

lemma record_effect_cong:
  "submitted_as r r' \<Longrightarrow> record_effect r' = record_effect r" "submitted_as r r' \<Longrightarrow> replayable r' \<longleftrightarrow> replayable r"
  by (simp_all add: submitted_as_def record_effect_def replayable_def fun_eq_iff)

text \<open>A write keeps the invariant when its effect on memory is the effect of its record.\<close>

lemma write_inv:
  assumes "eng_inv cfg subs e" "may_write ck e" "Submit (ckWal ck) r (enWal e) = (Inr lsn, enWal e')" "enWalDir e' = enWalDir e"
    and "store_abs (enStore e') = record_effect r (store_abs (enStore e))" "replayable r" "enSnapDir e' = enSnapDir e" "enCfg e' = enCfg e"
    and "store_room (2 ^ 31 - 1 - length (subs @ [last (wwQueue (enWal e'))])) (enStore e')"
  shows "eng_inv cfg (subs @ [last (wwQueue (enWal e'))]) e'"
proof -
  obtain o1 where o1: "wal_reach o1 subs (enWal e) (enWalDir e)" using assms(1) by (auto simp: eng_inv_def)
  have "wal_reach o1 (subs @ [last (wwQueue (enWal e'))]) (enWal e') (enWalDir e')"
    using wal_reach.submitted [OF o1 _ _ assms(3)] assms(2,4) by (simp add: may_write_def)
  then show ?thesis
    using assms record_effect_cong [OF Submit_as(2) [OF assms(3)]] by (intro eng_invI) (auto simp: eng_inv_def)
qed

text \<open>A step that neither writes nor changes the keyspace keeps the invariant.\<close>

lemma frame_inv:
  assumes "eng_inv cfg subs e" "\<And>o1. wal_reach o1 subs (enWal e) (enWalDir e) \<Longrightarrow> wal_reach o1 subs (enWal e') (enWalDir e')"
    and "store_abs (enStore e') = store_abs (enStore e)" "\<And>n. store_room n (enStore e) \<Longrightarrow> store_room n (enStore e')"
    and "enSnapDir e' = enSnapDir e" "enCfg e' = enCfg e"
  shows "eng_inv cfg subs e'"
  using assms unfolding eng_inv_def by metis

lemma inv_room: "eng_inv cfg subs e \<Longrightarrow> store_room (2 ^ 31 - 1 - length (subs @ [r])) (enStore e)"
  by (auto simp: eng_inv_def store_room_def)

lemma inv_wf: "eng_inv cfg subs e \<Longrightarrow> wf_store (enStore e)"
  by (simp add: eng_inv_def store_room_def)

text \<open>A purge never takes more room.\<close>

lemma within_trans: "within 0 u t \<Longrightarrow> within 0 t s \<Longrightarrow> within 0 u s"
  by (auto simp: within_def)

lemma purge_pass_within: "within 0 (snd (purge_pass n now r sh)) sh"
proof (induction n now r sh rule: purge_pass.induct)
  case (2 j nowMs removed sh)
  show ?case
  proof (cases "removed < 1024 \<and> entry_Expired (heap sh (ttlSlots sh ! j)) nowMs")
    case True
    then show ?thesis using within_trans [OF 2(1) [OF _ refl] expire_remove_within] by (simp add: Let_def)
  next
    case False
    then show ?thesis using 2(2) [OF _ refl] by (simp add: Let_def)
  qed
qed simp

lemma purge_shard_within: "purge_shard fuel i now tot s = Some (r, t) \<Longrightarrow> i < length (shards s) \<Longrightarrow> store_within 0 t s"
proof (induction fuel arbitrary: tot s)
  case (Suc fuel)
  let ?u = "withWrite i (\<lambda>sh. purge_pass (length (ttlSlots sh)) now 0 sh) s"
  have w: "store_within 0 (snd ?u) s"
    by (rule withWrite_within) (rule purge_pass_within)
  show ?case
  proof (cases "fst ?u < 1024")
    case False
    then have "store_within 0 t (snd ?u)" using Suc w by (auto simp: split_beta Let_def store_within_def)
    then show ?thesis using store_within_trans [OF _ w] by fastforce
  qed (use Suc.prems w in \<open>auto simp: split_beta Let_def\<close>)
qed simp

lemma purge_shards_within:
  "purge_shards is now tot s = Some (r, t) \<Longrightarrow> \<forall>i \<in> set is. i < length (shards s) \<Longrightarrow> store_within 0 t s"
proof (induction "is" arbitrary: tot s)
  case (Cons i "is")
  then obtain q u where u: "purge_shard (Suc (length (ttlSlots (shards s ! i)))) i now tot s = Some (q, u)" "purge_shards is now q u = Some (r, t)"
    by (auto split: option.splits)
  have "store_within 0 u s" using purge_shard_within [OF u(1)] Cons.prems(2) by simp
  moreover from this have "store_within 0 t u" using Cons.IH [OF u(2)] Cons.prems(2) by (simp add: store_within_def)
  ultimately show ?case using store_within_trans by fastforce
qed simp

lemma purge_room:
  assumes "store_room n s"
  shows "\<exists>r t. PurgeExpired now s = Some (r, t) \<and> store_room n t \<and> store_abs t = live now (store_abs s)"
proof -
  obtain r t where t: "PurgeExpired now s = Some (r, t)" "wf_store t" "store_abs t = live now (store_abs s)"
    using purge_live [of s now] assms by (auto simp: store_room_def)
  have "store_within 0 t s" using purge_shards_within [of "[0..<length (shards s)]"] t(1) by (simp add: PurgeExpired_def)
  then have w: "length (shards t) = length (shards s)" "\<And>i. i < length (shards s) \<Longrightarrow> within 0 (shards t ! i) (shards s ! i)"
    by (simp_all add: store_within_def)
  have "budget sh \<le> 0 \<and> length (slots sh) + n < 2 ^ 31" if "sh \<in> set (shards t)" for sh
  proof -
    obtain i where i: "i < length (shards s)" "sh = shards t ! i" using \<open>sh \<in> set (shards t)\<close> w(1) by (auto simp: in_set_conv_nth)
    then have "budget (shards s ! i) \<le> 0" "length (slots (shards s ! i)) + n < 2 ^ 31" using assms by (auto simp: store_room_def)
    then show ?thesis using w(2) [OF i(1)] i(2) by (auto simp: within_def)
  qed
  then show ?thesis using t by (auto simp: store_room_def)
qed

lemma recover_fresh:
  assumes "files sd = []" "files d = []"
  shows "\<exists>rep s'. eng_recover u now nm sd d s = (Inr rep, d, s') \<and> rpNextLSN (rrReplay rep) = 1 \<and> rpResumePath (rrReplay rep) = ''''
    \<and> PurgeExpired now s = Some (rrExpiredOnLoad rep, s') \<or> PurgeExpired now s = None"
  using assms
  by (cases "PurgeExpired now s")
    (auto simp: eng_recover_def LoadNewestValid_def snap_List_def Replay_def ListSegments_def List.map_filter_simps)

lemma opened_inv:
  assumes "unlimited cfg" "files sd = []" "files d = []" "eng_Open cfg ent t tm sd d = (Inr e, d')"
  shows "eng_inv cfg [] e"
proof -
  let ?s = "store_New ent (cgStore cfg)"
  have w: "store_room (2 ^ 31 - 1) ?s" "store_abs ?s = Map.empty" using unlimited_New [OF assms(1), of "2 ^ 31 - 1"] by simp_all
  obtain n s where p: "PurgeExpired t ?s = Some (n, s)" "store_abs s = Map.empty" "store_room (2 ^ 31 - 1) s"
    using purge_room [OF w(1), of t] w(2) live_empty [of t] by auto
  obtain rep where r: "eng_recover (cgUnsafeTruncate cfg) t tm sd d ?s = (Inr rep, d, s)" "rpNextLSN (rrReplay rep) = 1" "rpResumePath (rrReplay rep) = ''''"
    using recover_fresh [OF assms(2,3), of "cgUnsafeTruncate cfg" t tm ?s] p(1) by auto
  let ?o = "(cgWal cfg)\<lparr>woStartLSN := 1, woResumePath := '''', woResumeOffset := rpResumeOffset (rrReplay rep)\<rparr>"
  obtain w where "wal_Open ?o t d = (Some w, enWalDir e)" "enWal e = w" "enStore e = SetOnEvict True s" "enSnapDir e = sd" "enCfg e = cfg"
    using assms(4) by (auto simp: eng_Open_def r split: prod.splits option.splits)
  moreover from this have "wal_reach ?o [] (enWal e) (enWalDir e)" using assms(3) by (intro wal_reach.opened [of d]) simp_all
  ultimately show ?thesis using p assms(2) by (intro eng_invI [of ?o]) (simp_all add: SetOnEvict_def)
qed

lemma read_inv:
  assumes "eng_inv cfg subs e" "unexpired now (store_abs (enStore e))" "e' = deliver_evicts (e\<lparr>enStore := s\<rparr>)"
    "store_abs s = reap_key k now (store_abs (enStore e))" "\<And>n. store_room n (enStore e) \<Longrightarrow> store_room n s"
  shows "eng_inv cfg subs e'"
  using unexpired_reap [OF assms(2), of k] assms(4,5) by (intro frame_inv [OF assms(1)]) (simp_all add: assms(3))

lemma eng_reach_inv:
  assumes "eng_reach cfg subs e" "unlimited cfg" "length subs < 2 ^ 31 - 1"
  shows "eng_inv cfg subs e"
  using assms
proof induction
  case (opened sd d ent t tm e d')
  then show ?case by (intro opened_inv)
next
  case (set subs e ck k v ttl b lsn e')
  then have i: "eng_inv cfg subs e" by simp
  have "store_room (Suc (2 ^ 31 - 1 - length (subs @ [last (wwQueue (enWal e'))]))) (enStore e)"
  proof -
    have "Suc (2 ^ 31 - 1 - length (subs @ [last (wwQueue (enWal e'))])) = 2 ^ 31 - 1 - length subs" using set.prems by simp
    then show ?thesis using i by (simp only: eng_inv_def)
  qed
  note S = eng_Set_ok [OF set.hyps(3) this]
  show ?case
    by (rule write_inv [OF i set.hyps(2) S(1,5)]) (use S Submit_cost [OF S(1)] in \<open>simp_all add: record_effect_def replayable_def record_of_def\<close>)
next
  case (delete subs e ck k b lsn e')
  then have i: "eng_inv cfg subs e" by simp
  note D = eng_Delete_ok [OF delete.hyps(3) inv_wf [OF i]]
  show ?case
    by (rule write_inv [OF i delete.hyps(2) D(1,5)]) (use D Submit_cost [OF D(1)] inv_room [OF i] in \<open>simp_all add: record_effect_def replayable_def record_of_def\<close>)
next
  case (expire subs e ck k ttl b lsn e')
  then have i: "eng_inv cfg subs e" by simp
  note E = eng_Expire_ok [OF expire.hyps(3) inv_wf [OF i]]
  have x: "unexpired (ckMs ck) (store_abs (enStore e))" using expire.hyps(2) by (simp add: may_write_def)
  show ?case
    by (rule write_inv [OF i expire.hyps(2) E(1,5)])
      (use E Submit_cost [OF E(1)] inv_room [OF i] spec_expire_unexpired [OF x] in \<open>simp_all add: record_effect_def replayable_def record_of_def\<close>)
next
  case (get subs e now k nm r e')
  then have i: "eng_inv cfg subs e" by simp
  have "e' = deliver_evicts (e\<lparr>enStore := snd (store_Get k now nm (enStore e))\<rparr>)"
    using get.hyps(3) by (auto simp: eng_Get_def split: prod.splits)
  then show ?case by (rule read_inv [OF i get.hyps(2) _ store_Get_spec(3,4) [OF inv_wf [OF i]]])
next
  case (exist subs e now k nm r e')
  then have i: "eng_inv cfg subs e" by simp
  have "e' = deliver_evicts (e\<lparr>enStore := snd (store_Exists k now nm (enStore e))\<rparr>)"
    using exist.hyps(3) by (auto simp: eng_Exists_def split: prod.splits)
  then show ?case by (rule read_inv [OF i exist.hyps(2) _ store_Exists_spec(3,4) [OF inv_wf [OF i]]])
next
  case (ttl subs e now k nm r e')
  then have i: "eng_inv cfg subs e" by simp
  have "e' = deliver_evicts (e\<lparr>enStore := snd (store_TTL k now nm (enStore e))\<rparr>)"
    using ttl.hyps(3) by (auto simp: eng_TTL_def split: prod.splits)
  then show ?case by (rule read_inv [OF i ttl.hyps(2) _ store_TTL_spec(3,4) [OF inv_wf [OF i]]])
next
  case (flushed subs e t n)
  then have i: "eng_inv cfg subs e" by simp
  obtain w d where w: "run_turn t n (enWal e) (enWalDir e) = (w, d)" by force
  show ?case by (rule frame_inv [OF i]) (use wal_reach.flushed [OF _ w] in \<open>simp_all add: eng_flush_turn_def w\<close>)
next
  case (ticked subs e)
  then have i: "eng_inv cfg subs e" by simp
  obtain w d where w: "everySec_tick (enWal e) (enWalDir e) = (w, d)" by force
  show ?case by (rule frame_inv [OF i]) (use wal_reach.ticked [OF _ w] in \<open>simp_all add: eng_wal_tick_def w\<close>)
next
  case (synced subs e)
  then have i: "eng_inv cfg subs e" by simp
  obtain ok w d where w: "wal_Sync (enWal e) (enWalDir e) = (ok, w, d)" by (metis prod.exhaust)
  show ?case by (rule frame_inv [OF i]) (use wal_reach.synced [OF _ w] in \<open>simp_all add: ForceSync_def w\<close>)
next
  case (evicted subs e)
  then have i: "eng_inv cfg subs e" and c: "enCfg e = cfg" by (simp_all add: eng_inv_def)
  have "evict_tick e = e" using evicted.prems(1) by (simp add: evict_tick_def c unlimited_def)
  then show ?case using i by simp
next
  case (subscribed subs e i)
  then have i: "eng_inv cfg subs e" by simp
  show ?case by (rule frame_inv [OF i]) (simp_all add: eng_Subscribe_def Let_def)
next
  case (unsubscribed subs e j)
  then have i: "eng_inv cfg subs e" by simp
  show ?case by (rule frame_inv [OF i]) (simp_all add: eng_Unsubscribe_def)
qed

section \<open>Recovery\<close>

text \<open>Without a snapshot, recovery is the replay of the log followed by the purge of the expired keys.\<close>

lemma recover_log:
  assumes "files sd = []" "Replay 0 u (applyRecord now nm) d s = (None, res, d', s')" "PurgeExpired now s' = Some (n, t)"
  shows "\<exists>rep. eng_recover u now nm sd d s = (Inr rep, d', t) \<and> rrReplay rep = res"
  using assms by (simp add: eng_recover_def LoadNewestValid_def snap_List_def List.map_filter_simps)

lemma replayed_all: "\<forall>r \<in> set rs. 0 < rLSN r \<Longrightarrow> replayed 0 rs = rs"
  by (induction rs) auto

lemma wal_inv_LSNs:
  assumes "wal_inv idle subs w d" "r \<in> set subs"
  shows "0 < rLSN r"
proof -
  obtain s where s: "wal_lsns subs s w" using assms(1) by (auto simp: wal_inv_def)
  obtain i where i: "i < length subs" "r = subs ! i" using assms(2) by (auto simp: in_set_conv_nth)
  have "0 < unat (rLSN r)" using wal_lsns_nth [OF s i(1)] s i(2) by (auto simp: wal_lsns_def)
  then show ?thesis by (simp add: unat_gt_0 word_neq_0_conv)
qed

text \<open>
  Recovery of the directories that a crash leaves, at any time: the keyspace is the effect of a prefix of
  the submitted records, replayed at the time of the recovery, without the keys that expired.
\<close>

lemma recover_crashed:
  assumes "eng_inv cfg subs e" "unlimited cfg" "length subs < 2 ^ 31 - 1" "\<not> wwFatal (enWal e)" "crash_image (enWalDir e) d'" "files sd = []"
  shows "\<exists>rs rep d2 s. eng_recover u now nm sd d' (store_New ent (cgStore cfg)) = (Inr rep, d2, s) \<and> prefix rs subs
    \<and> store_abs s = live now (fold (replay_effect now) rs Map.empty)
    \<and> (woFsync (wwO (enWal e)) = FsyncAlways \<longrightarrow> (\<forall>n. (n, True) \<in> set (wwCommits (enWal e)) \<longrightarrow> n \<in> rLSN ` set rs))"
proof -
  let ?s = "store_New ent (cgStore cfg)"
  obtain o1 where o1: "wal_reach o1 subs (enWal e) (enWalDir e)" using assms(1) by (auto simp: eng_inv_def)
  have w: "wal_inv True subs (enWal e) (enWalDir e)" by (rule wal_reach_inv [OF o1 assms(4)])
  have R: "\<forall>r \<in> set subs. replayable r" using assms(1) by (simp add: eng_inv_def)
  have all: "replayed 0 rs = rs" if "set rs \<subseteq> set subs" for rs
    using replayed_all [of rs] wal_inv_LSNs [OF w] \<open>set rs \<subseteq> set subs\<close> by blast
  have n: "store_room (length subs) ?s" "store_abs ?s = Map.empty" using unlimited_New [OF assms(2), of "length subs"] assms(3) by simp_all
  have "accepts (applyRecord now nm) (replayed 0 subs) ?s" using applyRecord_fold(1) [OF n(1) R] all [of subs] by simp
  from crash_recovery [OF w assms(5) this, of u] obtain rs res d2 where
    rs: "Replay 0 u (applyRecord now nm) d' ?s = (None, res, d2, fold (\<lambda>r c. snd (applyRecord now nm r c)) (replayed 0 rs) ?s)" "prefix rs subs"
      "woFsync (wwO (enWal e)) = FsyncAlways \<longrightarrow> (\<forall>n. (n, True) \<in> set (wwCommits (enWal e)) \<longrightarrow> n \<in> rLSN ` set rs)"
    by blast
  have sub: "set rs \<subseteq> set subs" by (rule set_mono_prefix [OF rs(2)])
  have "store_room (length rs) ?s" using n(1) prefix_length_le [OF rs(2)] by (auto simp: store_room_def)
  note F = applyRecord_fold [OF this, of now nm] 
  let ?t = "fold (\<lambda>r c. snd (applyRecord now nm r c)) rs ?s"
  have t: "store_abs ?t = fold (replay_effect now) rs Map.empty" "wf_store ?t" using F(2,3) R sub n(2) by auto
  obtain m t' where p: "PurgeExpired now ?t = Some (m, t')" "store_abs t' = live now (store_abs ?t)" using purge_live [OF t(2)] by blast
  obtain rep where "eng_recover u now nm sd d' ?s = (Inr rep, d2, t')"
    using recover_log [OF assms(6) rs(1) [unfolded all [OF sub]] p(1)] by blast
  then show ?thesis using rs(2,3) t(1) p(2) by (intro exI [of _ rs] exI [of _ rep] exI [of _ d2] exI [of _ t']) simp
qed

text \<open>
  Replaying a record at a time when no deadline has passed is writing it.
\<close>

lemma replay_effect_unexpired: "unexpired now m \<Longrightarrow> replay_effect now r m = record_effect r m"
  by (simp add: replay_effect_def record_effect_def spec_expire_unexpired)

definition timely :: "u64 \<Rightarrow> Record list \<Rightarrow> bool" where
  "timely now rs \<longleftrightarrow> (\<forall>r \<in> set rs. \<not> expired_at (rExpireAtMs r) now)"

lemma record_effect_unexpired:
  assumes "unexpired now m" "\<not> expired_at (rExpireAtMs r) now"
  shows "unexpired now (record_effect r m)"
proof -
  have "live now (record_effect r m) k = record_effect r m k" for k
    using unexpired_live [OF assms(1), of k] assms(2)
    by (auto simp: record_effect_def live_def expired_at_def split: option.splits if_splits)
  then show ?thesis by (simp add: unexpired_def fun_eq_iff)
qed

lemma timely_effect:
  assumes "timely now rs" "unexpired now m"
  shows "fold (replay_effect now) rs m = fold record_effect rs m" "unexpired now (fold record_effect rs m)"
  using assms
proof (induction rs arbitrary: m)
  case (Cons r rs)
  { case 1 then show ?case using Cons.IH(1) [of "record_effect r m"] record_effect_unexpired [of now m r] replay_effect_unexpired [of now m r]
      by (simp add: timely_def)
  next case 2 then show ?case using Cons.IH(2) [of "record_effect r m"] record_effect_unexpired [of now m r] by (simp add: timely_def) }
qed simp_all

end
