(* ===== verification/Cluster.thy ===== *)
theory Cluster
  imports Repl_Stream Wire_Command Engine_Spec
begin

text \<open>
  \<^verbatim>\<open>internal/cluster/node.go\<close>, \<^verbatim>\<open>primary.go\<close> and \<^verbatim>\<open>replica.go\<close>: the node around an engine, the primary's side
  of a replication connection (handshake, catch-up from the log or by a full resync, live feed,
  heartbeats, acknowledgements, failure detector) and the replica's side (handling of each message).
  What a side writes to a connection is the list of bytes that its function returns; a connection that
  breaks delivers a prefix of them. Readings of the clock are arguments.
\<close>

section \<open>Nodes\<close>

datatype peerState = peerAlive | peerSuspect | peerDead

definition peerState_String :: "peerState \<Rightarrow> string" where
  "peerState_String p = (case p of peerAlive \<Rightarrow> ''alive'' | peerSuspect \<Rightarrow> ''suspect'' | peerDead \<Rightarrow> ''dead'')"

record replicaConn =
  rcConnected :: int
  rcAckedLSN :: u64
  rcLastAckAt :: int
  rcSent :: u64
  rcFullSync :: bool
  rcState :: peerState

record replicaState =
  rsAppliedLSN :: u64
  rsPrimaryLSN :: u64
  rsLastMsgAt :: int
  rsConnected :: bool
  rsFullSyncs :: u64
  rsPartialSyncs :: u64
  rsApplied :: u64
  rsReconnects :: u64
  rsPeer :: peerState

record Node =
  ndReplicaRole :: bool
  ndFailureTimeout :: int
  ndReplBacklog :: int
  ndEng :: Engine
  ndEpoch :: u64
  ndReplicas :: "(int \<times> replicaConn) list"
  ndNextReplID :: int
  ndRepl :: replicaState

definition node_New :: "bool \<Rightarrow> int \<Rightarrow> int \<Rightarrow> Engine \<Rightarrow> Node" where
  "node_New replica timeout backlog eng =
     \<lparr>ndReplicaRole = replica, ndFailureTimeout = timeout, ndReplBacklog = backlog,
      ndEng = (if replica then SetReadOnly True eng else eng), ndEpoch = 1, ndReplicas = [], ndNextReplID = 0,
      ndRepl = \<lparr>rsAppliedLSN = 0, rsPrimaryLSN = 0, rsLastMsgAt = 0, rsConnected = False, rsFullSyncs = 0, rsPartialSyncs = 0,
        rsApplied = 0, rsReconnects = 0, rsPeer = peerAlive\<rparr>\<rparr>"

text \<open>The second component says whether the replication goroutine is started.\<close>

definition node_Start :: "Node \<Rightarrow> Node \<times> bool" where
  "node_Start n = (if ndReplicaRole n then (n\<lparr>ndEng := SetReadOnly True (ndEng n)\<rparr>, True) else (n, False))"

definition Promote :: "Node \<Rightarrow> bool \<times> Node" where
  "Promote n =
     (if \<not> enReadOnly (ndEng n) then (False, n)
      else (True, n\<lparr>ndEpoch := ndEpoch n + 1, ndEng := SetReadOnly False (ndEng n)\<rparr>))"

text \<open>The lag of the STATS document: the difference of two LSNs read as signed, never negative.\<close>

definition lag_records :: "u64 \<Rightarrow> u64 \<Rightarrow> int" where
  "lag_records primary acked = (let lag = sint (primary - acked) in if lag < 0 then 0 else lag)"

definition ReplicaCount :: "Node \<Rightarrow> nat" where "ReplicaCount n = length (ndReplicas n)"

section \<open>The primary\<close>

definition writeStatus :: "Frame \<Rightarrow> u8 \<Rightarrow> bytes \<Rightarrow> bytes" where
  "writeStatus frame status msg =
     WriteFrame [] (zeroHeader\<lparr>hVersion := ProtoVersion, hCode := status, hRequestID := hRequestID (fHeader frame)\<rparr>)
       (if msg \<noteq> [] then EncodeErrorBody [] msg else [])"

text \<open>
  The three handshake commands: the bytes written to the connection and the new node. \<open>text\<close> renders an
  error as \<^verbatim>\<open>err.Error()\<close> does, and \<open>done\<close> the message of a promotion at the given epoch.
\<close>

definition handleReplConf :: "(proto_error \<Rightarrow> bytes) \<Rightarrow> Frame \<Rightarrow> Node \<Rightarrow> bytes \<times> bool \<times> Node" where
  "handleReplConf text frame n =
     (case DecodeCommand OpReplConf (fBody frame) of
        Inl e \<Rightarrow> (writeStatus frame StatusBadRequest (text e), False, n)
      | Inr cmd \<Rightarrow> (writeStatus frame StatusOK [], False, n))"

definition replica_text :: bytes where
  "replica_text = map (\<lambda>c. of_char c) ''this node is a replica, not a primary''"

definition handleSync :: "(proto_error \<Rightarrow> bytes) \<Rightarrow> int \<Rightarrow> Frame \<Rightarrow> Node \<Rightarrow> bytes \<times> bool \<times> Node" where
  "handleSync text now frame n =
     (case DecodeCommand OpSync (fBody frame) of
        Inl e \<Rightarrow> (writeStatus frame StatusBadRequest (text e), False, n)
      | Inr cmd \<Rightarrow>
          if enReadOnly (ndEng n) then (writeStatus frame StatusNotLeader replica_text, False, n)
          else (writeStatus frame StatusOK [], True,
                n\<lparr>ndNextReplID := ndNextReplID n + 1,
                  ndReplicas := ndReplicas n @ [(ndNextReplID n + 1, \<lparr>rcConnected = now, rcAckedLSN = 0, rcLastAckAt = now, rcSent = 0,
                    rcFullSync = False, rcState = peerAlive\<rparr>)]\<rparr>))"

definition handlePromote :: "bytes \<Rightarrow> (u64 \<Rightarrow> bytes) \<Rightarrow> Frame \<Rightarrow> Node \<Rightarrow> bytes \<times> bool \<times> Node" where
  "handlePromote already done frame n =
     (let (ok, n) = Promote n
      in if \<not> ok then (writeStatus frame StatusBadRequest already, False, n)
         else (writeStatus frame StatusOK (done (ndEpoch n)), False, n))"

definition HandleConn :: "(proto_error \<Rightarrow> bytes) \<Rightarrow> bytes \<Rightarrow> (u64 \<Rightarrow> bytes) \<Rightarrow> int \<Rightarrow> Frame \<Rightarrow> Node \<Rightarrow> bytes \<times> bool \<times> Node" where
  "HandleConn text already done now frame n =
     (let op = hCode (fHeader frame)
      in if op = OpReplConf then handleReplConf text frame n
         else if op = OpSync then handleSync text now frame n
         else if op = OpPromote then handlePromote already done frame n
         else ([], False, n))"

definition set_conn :: "int \<Rightarrow> (replicaConn \<Rightarrow> replicaConn) \<Rightarrow> Node \<Rightarrow> Node" where
  "set_conn i f n = n\<lparr>ndReplicas := map (\<lambda>(j, rc). (j, if j = i then f rc else rc)) (ndReplicas n)\<rparr>"

text \<open>The callback of the full resync: one SET record per entry.\<close>

definition resync_record :: "u64 \<Rightarrow> entry \<Rightarrow> Record" where
  "resync_record lsn e = \<lparr>rLSN = lsn, rCreatedAtMs = 0, rType = RecSet, rFlags = 0, rKey = eKey e, Record.rValue = eValue e, rExpireAtMs = eExpireAt e\<rparr>"

definition fullResync :: "u64 \<Rightarrow> Engine \<Rightarrow> bytes" where
  "fullResync nowMs e =
     (let lsn = eng_DurableLSN e
      in writeLSNMsg msgFullBegin lsn
         @ store_Range (\<lambda>en out. (True, out @ writeRecord (resync_record lsn en))) nowMs (enStore e) []
         @ writeLSNMsg msgFullEnd lsn)"

fun catch_up_segs :: "u64 \<Rightarrow> SegmentInfo list \<Rightarrow> fs \<Rightarrow> bytes \<Rightarrow> bool \<times> bytes" where
  "catch_up_segs fromLSN [] d out = (True, out)"
| "catch_up_segs fromLSN (seg # segs) d out =
     (case map_of (files d) (siPath seg) of
        None \<Rightarrow> (False, out)
      | Some f \<Rightarrow>
          (let (res, out, err) = ScanSegment (\<lambda>r out. (None :: unit option, if rLSN r \<le> fromLSN then out else out @ writeRecord r))
                 (length (fCur f)) (fCur f) out
           in if scFault res \<noteq> FaultNone then (True, out) else catch_up_segs fromLSN segs d out))"

text \<open>
  \<^verbatim>\<open>catchUp\<close>: whether it succeeded, whether it was a full resync, and what it sent.
\<close>

definition catchUp :: "u64 \<Rightarrow> u64 \<Rightarrow> Engine \<Rightarrow> bool \<times> bool \<times> bytes" where
  "catchUp nowMs fromLSN e =
     (let segs = ListSegments (enWalDir e);
          haveFrom = (case segs of [] \<Rightarrow> 0 | s # _ \<Rightarrow> siFirstLSN s);
          needFull = fromLSN = 0 \<or> segs = [] \<or> fromLSN + 1 < haveFrom
      in if needFull then (True, True, fullResync nowMs e)
         else let (ok, out) = catch_up_segs fromLSN segs (enWalDir e) [] in (ok, False, out))"

text \<open>
  \<^verbatim>\<open>streamTo\<close> up to its loop: the feed is subscribed before the backlog is read.
\<close>

definition streamTo_start :: "u64 \<Rightarrow> int \<Rightarrow> u64 \<Rightarrow> Node \<Rightarrow> bool \<times> int \<times> bytes \<times> Node" where
  "streamTo_start nowMs i fromLSN n =
     (let (fid, e) = eng_Subscribe (ndReplBacklog n) (ndEng n);
          (ok, full, out) = catchUp nowMs fromLSN e
      in (ok, fid, out, set_conn i (\<lambda>rc. rc\<lparr>rcFullSync := full\<rparr>) (n\<lparr>ndEng := e\<rparr>)))"

text \<open>The cases of its loop: a record of the feed, a tick of the heartbeat, an acknowledgement.\<close>

definition stream_record :: "int \<Rightarrow> u64 \<Rightarrow> Record \<Rightarrow> Node \<Rightarrow> bytes \<times> Node" where
  "stream_record i fromLSN rec n =
     (case map_of (ndReplicas n) i of
        None \<Rightarrow> ([], n)
      | Some rc \<Rightarrow> if rLSN rec \<le> rcAckedLSN rc \<and> rLSN rec \<le> fromLSN then ([], n)
                   else (writeRecord rec, set_conn i (\<lambda>rc. rc\<lparr>rcSent := rcSent rc + 1\<rparr>) n))"

definition checkReplicaLiveness :: "int \<Rightarrow> int \<Rightarrow> peerState \<Rightarrow> peerState" where
  "checkReplicaLiveness since timeout st = (if since > timeout * 2 then peerDead else if since > timeout then peerSuspect else st)"

definition stream_heartbeat :: "int \<Rightarrow> int \<Rightarrow> Node \<Rightarrow> bytes \<times> Node" where
  "stream_heartbeat i now n =
     (writeHeartbeat (eng_LastLSN (ndEng n)) (ndEpoch n),
      set_conn i (\<lambda>rc. rc\<lparr>rcState := checkReplicaLiveness (now - rcLastAckAt rc) (ndFailureTimeout n) (rcState rc)\<rparr>) n)"

definition stream_ack :: "int \<Rightarrow> int \<Rightarrow> streamMsg \<Rightarrow> Node \<Rightarrow> Node" where
  "stream_ack i now m n =
     (if smType m = msgAck
      then set_conn i (\<lambda>rc. rc\<lparr>rcAckedLSN := smLSN m, rcLastAckAt := now, rcState := peerAlive\<rparr>) n else n)"

definition stream_close :: "int \<Rightarrow> int \<Rightarrow> Node \<Rightarrow> Node" where
  "stream_close i fid n = n\<lparr>ndReplicas := filter (\<lambda>(j, rc). j \<noteq> i) (ndReplicas n), ndEng := eng_Unsubscribe fid (ndEng n)\<rparr>"

section \<open>The replica\<close>

datatype repl_error = ReplEngine eng_error | ReplStale u64 | ReplRejected bytes | ReplUnexpected u8 | ReplSilent | ReplStream stream_error

text \<open>The start of \<^verbatim>\<open>replicateOnce\<close>: the position that the replica asks for, and its new state.\<close>

definition replicate_hello :: "int \<Rightarrow> Node \<Rightarrow> u64 \<times> Node" where
  "replicate_hello now n =
     (let from = eng_LastLSN (ndEng n)
      in (from, n\<lparr>ndRepl := (ndRepl n)\<lparr>rsAppliedLSN := from, rsConnected := True, rsLastMsgAt := now, rsPeer := peerAlive\<rparr>\<rparr>))"

definition applyFromPrimary :: "Clock \<Rightarrow> Record \<Rightarrow> Engine \<Rightarrow> eng_error option \<times> Engine" where
  "applyFromPrimary ck rec e = ApplyReplicated ck rec e"

text \<open>One message of the stream; the flag is \<^verbatim>\<open>inFullSync\<close>.\<close>

definition on_message :: "Clock \<Rightarrow> u64 \<Rightarrow> int \<Rightarrow> streamMsg \<Rightarrow> bool \<Rightarrow> Node \<Rightarrow> repl_error option \<times> bool \<times> Node" where
  "on_message ck createdMs now msg inFullSync n =
     (let n = n\<lparr>ndRepl := (ndRepl n)\<lparr>rsLastMsgAt := now, rsPeer := peerAlive\<rparr>\<rparr>
      in if smType msg = msgFullBegin then
           (case ResetForFullResync createdMs (ckMs ck) (ndEng n) of
              (Some x, e) \<Rightarrow> (Some (ReplEngine x), inFullSync, n\<lparr>ndEng := e\<rparr>)
            | (None, e) \<Rightarrow> (None, True, n\<lparr>ndEng := e, ndRepl := (ndRepl n)\<lparr>rsFullSyncs := rsFullSyncs (ndRepl n) + 1\<rparr>\<rparr>))
         else if smType msg = msgFullEnd then
           (None, False, n\<lparr>ndRepl := (ndRepl n)\<lparr>rsAppliedLSN := smLSN msg, rsPrimaryLSN := smLSN msg\<rparr>\<rparr>)
         else if smType msg = msgRecord then
           (case applyFromPrimary ck (smRecord msg) (ndEng n) of
              (Some x, e) \<Rightarrow> (Some (ReplEngine x), inFullSync, n\<lparr>ndEng := e\<rparr>)
            | (None, e) \<Rightarrow>
                (let rs = (ndRepl n)\<lparr>rsApplied := rsApplied (ndRepl n) + 1\<rparr>;
                     rs = (if \<not> inFullSync \<and> rLSN (smRecord msg) > rsAppliedLSN rs then rs\<lparr>rsAppliedLSN := rLSN (smRecord msg)\<rparr> else rs)
                 in (None, inFullSync, n\<lparr>ndEng := e, ndRepl := rs\<rparr>)))
         else if smType msg = msgHeartbeat then
           (let n = n\<lparr>ndRepl := (ndRepl n)\<lparr>rsPrimaryLSN := smLSN msg\<rparr>\<rparr>
            in if smEpoch msg < ndEpoch n then (Some (ReplStale (smEpoch msg)), inFullSync, n)
               else (None, inFullSync, if smEpoch msg > ndEpoch n then n\<lparr>ndEpoch := smEpoch msg\<rparr> else n))
         else if smType msg = msgReject then (Some (ReplRejected (smReason msg)), inFullSync, n)
         else (Some (ReplUnexpected (smType msg)), inFullSync, n))"

text \<open>The loop of \<^verbatim>\<open>replicateOnce\<close> over the messages that arrive before the connection ends.\<close>

fun replica_run :: "Clock \<Rightarrow> u64 \<Rightarrow> int \<Rightarrow> streamMsg list \<Rightarrow> bool \<Rightarrow> Node \<Rightarrow> repl_error option \<times> bool \<times> Node" where
  "replica_run ck createdMs now [] inFullSync n = (None, inFullSync, n)"
| "replica_run ck createdMs now (m # ms) inFullSync n =
     (case on_message ck createdMs now m inFullSync n of
        (Some x, b, n) \<Rightarrow> (Some x, b, n)
      | (None, b, n) \<Rightarrow> replica_run ck createdMs now ms b n)"

text \<open>\<^verbatim>\<open>runReplica\<close> between two connections: the link goes down, the next wait is twice as long, at most five seconds.\<close>

definition link_down :: "Node \<Rightarrow> Node" where
  "link_down n = n\<lparr>ndRepl := (ndRepl n)\<lparr>rsConnected := False, rsReconnects := rsReconnects (ndRepl n) + 1\<rparr>\<rparr>"

definition next_backoff :: "int \<Rightarrow> int" where
  "next_backoff b = (let b = b * 2 in if b > 5000 then 5000 else b)"

definition replica_ack :: "Node \<Rightarrow> bytes" where
  "replica_ack n = writeLSNMsg msgAck (rsAppliedLSN (ndRepl n))"

end
