(* ===== verification/Engine_Durable.thy ===== *)
theory Engine_Durable
  imports Engine_Spec
begin

text \<open>
  The engine's guarantees, for a write on every branch and for a crash of a run with no memory limit, no snapshot and no passed deadline, and the orders of events in which they fail: the
  deadline of a key that is written through the engine is never registered with the timer wheel, a
  delete that is waiting in the queue of evictions is logged after a later write of its key, a replayed
  EXPIRE finds its key already expired, and two writers hand their records to the replicas in the
  opposite order of the log.
\<close>

section \<open>A write\<close>

abbreviation set_of :: "Clock \<Rightarrow> bytes \<Rightarrow> bytes \<Rightarrow> u64 \<Rightarrow> Record" where
  "set_of ck k v ttl \<equiv> record_of RecSet k v (deadline (ckDeadline ck) ttl)"

lemma eng_Set_run:
  fixes ck k v ttl
  assumes "store_room (Suc n) (enStore e)" "cost_fits k v" "\<not> enClosed e" "\<not> enReadOnly e"
  defines "r \<equiv> set_of ck k v ttl"
  shows "fst (eng_Set ck k v ttl e) = (case fst (Submit (ckWal ck) r (enWal e)) of Inl x \<Rightarrow> Inl (EngWal x) | Inr lsn \<Rightarrow> Inr (True, lsn))"
    "enWal (snd (eng_Set ck k v ttl e)) = snd (Submit (ckWal ck) r (enWal e))"
    "store_abs (enStore (snd (eng_Set ck k v ttl e))) = (store_abs (enStore e))(k \<mapsto> (v, deadline (ckDeadline ck) ttl))"
    "store_room n (enStore (snd (eng_Set ck k v ttl e)))"
    "enFeeds (snd (eng_Set ck k v ttl e)) = (case fst (Submit (ckWal ck) r (enWal e)) of Inl x \<Rightarrow> enFeeds e
       | Inr lsn \<Rightarrow> fan_out (r\<lparr>rLSN := lsn\<rparr>) (enFeeds e))"
    "enWalDir (snd (eng_Set ck k v ttl e)) = enWalDir e" "enSnapDir (snd (eng_Set ck k v ttl e)) = enSnapDir e"
    "enCfg (snd (eng_Set ck k v ttl e)) = enCfg e"
proof -
  let ?x = "deadline (ckDeadline ck) ttl"
  obtain ok s where s: "withWrite (shardFor (enStore e) k) (setLocked k v ?x (ckMono ck)) (enStore e) = (ok, s)" by force
  note W = withWrite_Set [OF assms(1,2) s]
  have k: "rKey r = k" by (simp add: r_def record_of_def)
  have e: "eng_Set ck k v ttl e = mutate ck r (\<lambda>t. let (ok, t) = txn_Set k v ?x t in ((if ok then None else Some ErrOOM, ok), t)) e"
    using assms(3,4) by (simp add: eng_Set_def r_def Let_def)
  have l: "mutate_locked ck r (\<lambda>t. let (ok, t) = txn_Set k v ?x t in ((if ok then None else Some ErrOOM, ok), t)) e
    = (let e = deliver_evicts (e\<lparr>enStore := s\<rparr>)
       in case Submit (ckWal ck) r (enWal e) of
               (Inl x, w) \<Rightarrow> (Inl (EngWal x), e\<lparr>enWal := w\<rparr>)
             | (Inr lsn, w) \<Rightarrow> (Inr (True, lsn), e\<lparr>enWal := w\<rparr>))"
    unfolding mutate_locked_def k WithKey_Set s using W(1) by simp
  obtain q w where q: "Submit (ckWal ck) r (enWal e) = (q, w)" by force
  show "fst (eng_Set ck k v ttl e) = (case fst (Submit (ckWal ck) r (enWal e)) of Inl x \<Rightarrow> Inl (EngWal x) | Inr lsn \<Rightarrow> Inr (True, lsn))"
    "enWal (snd (eng_Set ck k v ttl e)) = snd (Submit (ckWal ck) r (enWal e))"
    "store_abs (enStore (snd (eng_Set ck k v ttl e))) = (store_abs (enStore e))(k \<mapsto> (v, deadline (ckDeadline ck) ttl))"
    "store_room n (enStore (snd (eng_Set ck k v ttl e)))"
    "enFeeds (snd (eng_Set ck k v ttl e)) = (case fst (Submit (ckWal ck) r (enWal e)) of Inl x \<Rightarrow> enFeeds e
       | Inr lsn \<Rightarrow> fan_out (r\<lparr>rLSN := lsn\<rparr>) (enFeeds e))"
    "enWalDir (snd (eng_Set ck k v ttl e)) = enWalDir e" "enSnapDir (snd (eng_Set ck k v ttl e)) = enSnapDir e"
    "enCfg (snd (eng_Set ck k v ttl e)) = enCfg e"
    unfolding e mutate_def l using W(2,3) q
    by (cases q; simp add: Let_def mutate_unlocked_def fanOutToReplicas_def)+
qed

text \<open>The same without a condition on the memory limit: the three ends of the write path.\<close>

lemma eng_Set_parts:
  assumes "\<not> enClosed e" "\<not> enReadOnly e"
    and "withWrite (shardFor (enStore e) k) (setLocked k v (deadline (ckDeadline ck) ttl) (ckMono ck)) (enStore e) = (ok, s)"
  shows "eng_Set ck k v ttl e = (let e1 = deliver_evicts (e\<lparr>enStore := s\<rparr>); r = set_of ck k v ttl
     in if \<not> ok then (Inl ErrOOM, e1)
        else case Submit (ckWal ck) r (enWal e) of
               (Inl x, w) \<Rightarrow> (Inl (EngWal x), e1\<lparr>enWal := w\<rparr>)
             | (Inr lsn, w) \<Rightarrow> (Inr (True, lsn), mutate_unlocked r lsn (e1\<lparr>enWal := w\<rparr>)))"
proof -
  have k: "rKey (set_of ck k v ttl) = k" by (simp add: record_of_def)
  have "mutate_locked ck (set_of ck k v ttl) (\<lambda>t. let (ok, t) = txn_Set k v (deadline (ckDeadline ck) ttl) t in ((if ok then None else Some ErrOOM, ok), t)) e
    = (let e1 = deliver_evicts (e\<lparr>enStore := s\<rparr>)
       in if \<not> ok then (Inl ErrOOM, e1)
          else case Submit (ckWal ck) (set_of ck k v ttl) (enWal e) of
               (Inl x, w) \<Rightarrow> (Inl (EngWal x), e1\<lparr>enWal := w\<rparr>)
             | (Inr lsn, w) \<Rightarrow> (Inr (True, lsn), e1\<lparr>enWal := w\<rparr>))"
    unfolding mutate_locked_def k WithKey_Set assms(3) by (cases ok) (simp_all add: Let_def)
  then show ?thesis using assms(1,2) by (auto simp: eng_Set_def mutate_def Let_def split: sum.splits prod.splits)
qed

lemma evicts_queued:
  "\<not> enReadOnly e \<Longrightarrow> \<not> enClosed e \<Longrightarrow> enEvictQ (fold onStoreEvict evs e) = enEvictQ e @ take (evictQCap - length (enEvictQ e)) evs"
proof (induction evs arbitrary: e)
  case (Cons ev evs)
  show ?case
  proof (cases "length (enEvictQ e) < evictQCap")
    case True
    then have "evictQCap - length (enEvictQ e) = Suc (evictQCap - Suc (length (enEvictQ e)))" by simp
    then show ?thesis using Cons.IH [of "onStoreEvict ev e"] Cons.prems True by (simp add: onStoreEvict_def)
  next
    case False
    then show ?thesis using Cons.IH [of "onStoreEvict ev e"] Cons.prems by (simp add: onStoreEvict_def)
  qed
qed simp

text \<open>
  C11. \<^verbatim>\<open>Engine.Set\<close>, with or without a memory limit. On a closed or read-only engine it fails and changes
  nothing. Otherwise the only other keys that disappear are those evicted to make room; they go to the queue of evictions as far as it has
  room, and without a memory limit there are none. The call fails for lack of memory exactly when the store refuses the write; then the key keeps the value it had, nothing is logged
  and no feed gets anything. Otherwise the key has the value and the deadline in memory, whatever the log says; the call succeeds with
  the next LSN of the log if the log takes the record, and then every replica feed that has room gets
  it; if the log refuses it, the call fails with the log's error and no feed gets anything.
\<close>

theorem eng_Set_correct:
  assumes "wf_store (enStore e)" "length (slots (cell (enStore e) k)) < 2 ^ 31 - 1" "cost_fits k v"
    and "onEvictSet (enStore e)" "firedEvict (enStore e) = []" "eng_Set ck k v ttl e = (res, e')"
  shows "if enClosed e then res = Inl ErrClosed \<and> e' = e
    else if enReadOnly e then res = Inl ErrReadOnly \<and> e' = e
    else \<exists>L m. m = store_abs (enStore e) |` (- (fst ` set L)) \<and> (\<forall>(k', why) \<in> set L. k' \<noteq> k \<and> why = ReasonEvicted)
      \<and> enEvictQ e' = enEvictQ e @ take (evictQCap - length (enEvictQ e)) L
      \<and> (budget (cell (enStore e) k) \<le> 0 \<longrightarrow> L = [] \<and> res \<noteq> Inl ErrOOM)
      \<and> (res = Inl ErrOOM \<longleftrightarrow> \<not> fst (store_Set k v (deadline (ckDeadline ck) ttl) (ckMono ck) (enStore e)))
      \<and> (case res of
           Inl x \<Rightarrow> enWal e' = enWal e \<and> enFeeds e' = enFeeds e
             \<and> (if x = ErrOOM then store_abs (enStore e') = m
                else (\<exists>y. x = EngWal y \<and> fst (Submit (ckWal ck) (set_of ck k v ttl) (enWal e)) = Inl y)
                  \<and> store_abs (enStore e') = m(k \<mapsto> (v, deadline (ckDeadline ck) ttl)))
         | Inr (b, lsn) \<Rightarrow> b \<and> lsn = wwNextLSN (enWal e) \<and> store_abs (enStore e') = m(k \<mapsto> (v, deadline (ckDeadline ck) ttl))
             \<and> (\<exists>r. wwQueue (enWal e') = wwQueue (enWal e) @ [r] \<and> submitted_as (set_of ck k v ttl) r \<and> rLSN r = lsn)
             \<and> enFeeds e' = fan_out ((set_of ck k v ttl)\<lparr>rLSN := lsn\<rparr>) (enFeeds e))"
proof (cases "enClosed e \<or> enReadOnly e")
  case True
  then show ?thesis using assms(6) by (auto simp: eng_Set_def)
next
  case False
  then have c: "\<not> enClosed e" "\<not> enReadOnly e" by simp_all
  let ?x = "deadline (ckDeadline ck) ttl" and ?r = "set_of ck k v ttl"
  obtain ok s where s: "withWrite (shardFor (enStore e) k) (setLocked k v ?x (ckMono ck)) (enStore e) = (ok, s)" by force
  let ?t = "if ok then fireTTL k ?x s else s"
  have t: "store_Set k v ?x (ckMono ck) (enStore e) = (ok, ?t)" "store_abs ?t = store_abs s" "firedEvict ?t = firedEvict s"
    using s by (simp_all add: store_Set_def fireTTL_fields fireTTL_store)
  obtain L where L: "firedEvict s = L" "\<forall>(k', why) \<in> set L. k' \<noteq> k \<and> why = ReasonEvicted"
    "store_abs s = (if ok then (store_abs (enStore e) |` (- (fst ` set L)))(k \<mapsto> (v, ?x)) else store_abs (enStore e) |` (- (fst ` set L)))"
    "budget (cell (enStore e) k) \<le> 0 \<longrightarrow> ok \<and> L = []"
    using store_Set_spec(2) [OF assms(1,3,2) t(1)] assms(4,5) unfolding t(2,3) by auto
  define e1 where "e1 = deliver_evicts (e\<lparr>enStore := s\<rparr>)"
  have e1: "enEvictQ e1 = enEvictQ e @ take (evictQCap - length (enEvictQ e)) L" "store_abs (enStore e1) = store_abs s" "enWal e1 = enWal e" "enFeeds e1 = enFeeds e"
    using evicts_queued [of "e\<lparr>enStore := s\<lparr>firedEvict := []\<rparr>\<rparr>" L] c L(1) by (simp_all add: e1_def deliver_evicts_def onStoreEvict_frame)
  obtain q w where q: "Submit (ckWal ck) ?r (enWal e) = (q, w)" by force
  note R = assms(6) [unfolded eng_Set_parts [OF c s] Let_def, folded e1_def, unfolded q]
  have "w = enWal e" if "q = Inl y" for y using that q by (auto simp: Submit_def Let_def split: if_splits)
  moreover have "lsn = wwNextLSN (enWal e) \<and> (\<exists>r. wwQueue w = wwQueue (enWal e) @ [r] \<and> submitted_as ?r r \<and> rLSN r = lsn)" if "q = Inr lsn" for lsn
    using Submit_as [of "ckWal ck" ?r "enWal e" lsn w] q that by auto
  ultimately show ?thesis
    using c R e1 L t(1) q by (intro if_not_P [THEN iffD2] exI [of _ L]) (auto simp: mutate_unlocked_def fanOutToReplicas_def split: if_splits sum.splits)
qed

section \<open>The crash theorem\<close>

lemma crash_empty: "crash_image d d' \<Longrightarrow> files d = [] \<Longrightarrow> files d' = []"
  by (auto simp: crash_image_def)


section \<open>A sample run\<close>

definition sample_cfg :: EngineConfig where
  "sample_cfg = \<lparr>cgStore = \<lparr>oEngine = [], oShards = 1, oSeed = 7, oMaxMemory = 0, oLowWater = 0, oPolicy = [], oExactLRU = False,
     oEvictSampleK = 5, oEvictBatch = 200, oActorQueue = 1\<rparr>, cgWal = sample_opts FsyncAlways, cgUnsafeTruncate = False, cgReplica = False,
     cgSnapshotMinChanges = 1, cgSnapshotOnShutdown = False\<rparr>"

definition bare_dir :: fs where "bare_dir = \<lparr>files = [], plan = []\<rparr>"

lemma sample_unlimited: "unlimited sample_cfg"
  by (simp add: unlimited_def sample_cfg_def)

lemma sample_engine:
  obtains e where "eng_Open sample_cfg None 0 0 bare_dir (fresh_dir []) = (Inr e, log_of hdr1 hdr1 [])" "enWal e = sample_writer FsyncAlways"
    "enWalDir e = log_of hdr1 hdr1 []" "enSnapDir e = bare_dir" "\<not> enClosed e" "\<not> enReadOnly e" "enFeeds e = []" "enEvictQ e = []"
    "store_room (2 ^ 31 - 1) (enStore e)" "store_abs (enStore e) = Map.empty" "eng_reach sample_cfg [] e"
    "onEvictSet (enStore e)"
proof -
  let ?s = "store_New None (cgStore sample_cfg)"
  have w: "store_room (2 ^ 31 - 1) ?s" "store_abs ?s = Map.empty" using unlimited_New [OF sample_unlimited, of "2 ^ 31 - 1"] by simp_all
  obtain n s where p: "PurgeExpired 0 ?s = Some (n, s)" "store_abs s = Map.empty" "store_room (2 ^ 31 - 1) s"
    using purge_room [OF w(1), of 0] w(2) by auto
  have o: "(cgWal sample_cfg)\<lparr>woStartLSN := 1, woResumePath := '''', woResumeOffset := 0\<rparr> = sample_opts FsyncAlways"
    by (simp add: sample_cfg_def sample_opts_def)
  have "files (fresh_dir []) = []" "files bare_dir = []" by (simp_all add: fresh_dir_def bare_dir_def)
  then obtain rep where r: "eng_recover (cgUnsafeTruncate sample_cfg) 0 0 bare_dir (fresh_dir []) ?s = (Inr rep, fresh_dir [], s)"
    "rpNextLSN (rrReplay rep) = 1" "rpResumePath (rrReplay rep) = ''''" "rpResumeOffset (rrReplay rep) = 0"
    using p(1) by (auto simp: eng_recover_def LoadNewestValid_def snap_List_def Replay_def ListSegments_def List.map_filter_simps)
  obtain e where e: "eng_Open sample_cfg None 0 0 bare_dir (fresh_dir []) = (Inr e, log_of hdr1 hdr1 [])" "enWal e = sample_writer FsyncAlways"
    "enWalDir e = log_of hdr1 hdr1 []" "enSnapDir e = bare_dir" "\<not> enClosed e" "enReadOnly e = cgReplica sample_cfg" "enFeeds e = []" "enEvictQ e = []"
    "enStore e = SetOnEvict True s"
    by (simp add: eng_Open_def r o sample_open)
  have "eng_reach sample_cfg [] e" by (rule eng_reach.opened [OF _ _ e(1)]) (simp_all add: fresh_dir_def bare_dir_def)
  then show ?thesis using that [OF e(1-5) _ e(7,8)] e(6,9) p(2,3) by (simp add: SetOnEvict_def sample_cfg_def)
qed

definition sample_clock :: Clock where "sample_clock = \<lparr>ckDeadline = 0, ckMs = 0, ckMono = 0, ckWal = 5\<rparr>"

lemma sample_set:
  obtains e where "eng_reach sample_cfg [set_record 1 3] e" "enWal e = sample_queued FsyncAlways [set_record 1 3]" "enWalDir e = log_of hdr1 hdr1 []"
    "enSnapDir e = bare_dir" "store_room (2 ^ 31 - 2) (enStore e)"
proof -
  obtain e where e: "enWal e = sample_writer FsyncAlways" "enWalDir e = log_of hdr1 hdr1 []" "enSnapDir e = bare_dir" "\<not> enClosed e" "\<not> enReadOnly e"
    "store_room (2 ^ 31 - 1) (enStore e)" "store_abs (enStore e) = Map.empty" "eng_reach sample_cfg [] e"
    by (rule sample_engine) blast
  let ?e = "snd (eng_Set sample_clock [] [3] 0 e)"
  have c: "cost_fits [] [3]" by (simp add: cost_fits_def EntryCost_def)
  have "Suc (2 ^ 31 - 2) = 2 ^ 31 - (1 :: nat)" by simp
  then have room: "store_room (Suc (2 ^ 31 - 2)) (enStore e)" using e(6) by (simp only:)
  have sub: "Submit (ckWal sample_clock) (set_of sample_clock [] [3] 0) (enWal e) = (Inr 1, sample_queued FsyncAlways [set_record 1 3])"
    by (simp add: e(1) Submit_def sample_writer_def set_record_def sample_queued_def rectype_Valid_def record_of_def sample_clock_def deadline_def)
  note R = eng_Set_run [OF room c e(4,5), of sample_clock 0, unfolded sub]
  have "may_write sample_clock e" by (simp add: may_write_def e unexpired_def sample_writer_def sample_opts_def)
  moreover have "eng_Set sample_clock [] [3] 0 e = (Inr (True, 1), ?e)" using R(1) by (simp add: prod_eq_iff)
  ultimately have "eng_reach sample_cfg ([] @ [last (wwQueue (enWal ?e))]) ?e" by (rule eng_reach.set [OF e(8)])
  then show ?thesis using that [of ?e] R(2,4,6,7) e(2,3) by (simp add: sample_queued_def)
qed

theorem eng_Set_correct_witness:
  "\<exists>e e'. eng_Set sample_clock [] [3] 0 e = (Inr (True, 1), e') \<and> store_abs (enStore e') [] = Some ([3], 0)"
proof -
  obtain e0 :: Engine where e0: "enWal e0 = sample_writer FsyncAlways" "\<not> enClosed e0" "\<not> enReadOnly e0" "store_room (2 ^ 31 - 1) (enStore e0)"
    "onEvictSet (enStore e0)"
    by (rule sample_engine) blast
  define e where "e = deliver_evicts e0"
  have "Suc (2 ^ 31 - 2) = 2 ^ 31 - (1 :: nat)" by simp
  then have room: "store_room (Suc (2 ^ 31 - 2)) (enStore e)" using e0(4) by (simp add: e_def)
  have e: "enWal e = sample_writer FsyncAlways" "\<not> enClosed e" "\<not> enReadOnly e" "onEvictSet (enStore e)" "firedEvict (enStore e) = []"
    using e0 by (simp_all add: e_def)
  have w: "wf_store (enStore e)" "length (slots (cell (enStore e) [])) < 2 ^ 31 - 1"
    using room wf_storeD(1) [of "enStore e" "[]"] by (auto simp: store_room_def)
  have c: "cost_fits [] [3]" by (simp add: cost_fits_def EntryCost_def)
  obtain res e' where s: "eng_Set sample_clock [] [3] 0 e = (res, e')" by force
  have "fst (Submit (ckWal sample_clock) (set_of sample_clock [] [3] 0) (enWal e)) = Inr 1"
    by (simp add: e(1) Submit_def sample_writer_def rectype_Valid_def record_of_def sample_clock_def)
  then have "res = Inr (True, 1)" using eng_Set_run(1) [OF room c e(2,3), of sample_clock 0] s by simp
  moreover from this have "store_abs (enStore e') [] = Some ([3], 0)"
    using eng_Set_correct [OF w c e(4,5) s] e(2,3) by (auto simp: deadline_def)
  ultimately show ?thesis using s by blast
qed


section \<open>Orders of events that break the guarantee\<close>

text \<open>
  C18. A write through the engine never registers its deadline: the calls of the store's TTL callback,
  which is how the timer wheel learns of a deadline, are the same before and after \<^verbatim>\<open>Set\<close> and \<^verbatim>\<open>Expire\<close>.
  With the wheel as the expiry strategy, keys written by clients are never expired by it.
\<close>

theorem engine_deadlines_unregistered:
  "firedTTL (enStore (snd (eng_Set ck k v ttl e))) = firedTTL (enStore e)
   \<and> firedTTL (enStore (snd (eng_Expire ck k ttl e))) = firedTTL (enStore e)"
proof -
  have w: "firedTTL (snd (withWrite i fn s)) = firedTTL s" for i s and fn :: "shard \<Rightarrow> 'r \<times> shard"
    by (simp add: withWrite_def fireEvict_def split_beta Let_def)
  have "firedTTL (enStore (snd (mutate ck r app e))) = firedTTL (enStore e)" for r app
    using w by (auto simp: mutate_def mutate_locked_def mutate_unlocked_def store_WithKey_def Let_def split_beta
      split: sum.splits option.splits prod.splits)
  then show ?thesis by (simp add: eng_Set_def eng_Expire_def Let_def)
qed

lemma Submit_again:
  assumes "Submit t r w = (Inr n, w')"
  shows "\<exists>w''. Submit t' (record_of RecDelete (rKey r) [] 0) w' = (Inr (n + 1), w'')"
proof -
  have c: "\<not> wwClosed w" "length (rKey r) \<le> maxKeyLen" using assms by (simp_all add: Submit_def split: if_splits)
  obtain r' where "w' = w\<lparr>wwNextLSN := wwNextLSN w + 1, wwQueue := wwQueue w @ [r']\<rparr>" "n = wwNextLSN w" "\<not> wwFatal w"
    by (rule Submit_ok [OF assms])
  then show ?thesis using c by (simp add: Submit_def record_of_def rectype_Valid_def)
qed

lemma onStoreEvict_queue: "\<exists>zs. enEvictQ (fold onStoreEvict evs e) = enEvictQ e @ zs"
proof (induction evs arbitrary: e)
  case (Cons ev evs)
  have "\<exists>zs. enEvictQ (onStoreEvict ev e) = enEvictQ e @ zs" by (auto simp: onStoreEvict_def)
  then show ?case using Cons.IH [of "onStoreEvict ev e"] by fastforce
qed simp

lemma mutate_queue:
  assumes "mutate ck rec app e = (Inr (res, lsn), e')"
  shows "\<exists>zs. enEvictQ e' = enEvictQ e @ zs"
proof -
  obtain s where "enEvictQ e' = enEvictQ (deliver_evicts (e\<lparr>enStore := s\<rparr>))"
    using assms by (auto simp: mutate_def mutate_locked_def mutate_unlocked_def Let_def split: prod.splits option.splits sum.splits)
  then show ?thesis using onStoreEvict_queue [of "firedEvict s" "e\<lparr>enStore := s\<lparr>firedEvict := []\<rparr>\<rparr>"] by (simp add: deliver_evicts_def)
qed

text \<open>
  C13. A delete that the store generated, because the key expired or was evicted, and that is still
  waiting in the queue, is logged after a later write of the same key. The write is acknowledged and
  in memory, but the log ends with the delete of its key: whoever replays the log, recovery or a
  replica, does not have the key.
\<close>

theorem pending_delete_overtakes_write:
  assumes "store_room (Suc n) (enStore e)" "enEvictQ e = (k, reason) # q" "eng_Set ck k v ttl e = (Inr (b, lsn), e1)"
  shows "store_abs (enStore (drainEvict t e1)) k = Some (v, deadline (ckDeadline ck) ttl)
    \<and> (\<exists>r d. wwQueue (enWal (drainEvict t e1)) = wwQueue (enWal e) @ [r, d] \<and> submitted_as (set_of ck k v ttl) r
          \<and> rLSN r = lsn \<and> rLSN d = lsn + 1 \<and> fold record_effect [r, d] m k = None)"
proof -
  note S = eng_Set_ok [OF assms(3,1)]
  have "\<exists>zs. enEvictQ e1 = enEvictQ e @ zs"
    using assms(3) mutate_queue [of ck _ _ e b lsn e1] by (auto simp: eng_Set_def Let_def split: if_splits)
  then obtain zs where q: "enEvictQ e1 = (k, reason) # zs" using assms(2) by auto
  let ?d = "record_of RecDelete k [] 0"
  obtain w where d: "Submit t ?d (enWal e1) = (Inr (lsn + 1), w)" using Submit_again [OF S(1), of t] by (auto simp: record_of_def)
  have dr: "drainEvict t e1 = fanOutToReplicas ?d (lsn + 1) (e1\<lparr>enEvictQ := zs, enWal := w\<rparr>)"
    by (simp add: drainEvict_def q logEvict_def d)
  obtain r where r: "wwQueue (enWal e1) = wwQueue (enWal e) @ [r]" "submitted_as (set_of ck k v ttl) r" "rLSN r = lsn"
    using Submit_as [OF S(1)] by blast
  obtain d' where d': "wwQueue w = wwQueue (enWal e1) @ [d']" "submitted_as ?d d'" "rLSN d' = lsn + 1" using Submit_as [OF d] by blast
  have "record_effect d' m' k = None" for m' using d'(2) by (simp add: submitted_as_def record_of_def record_effect_def)
  then have "fold record_effect [r, d'] m k = None" by simp
  moreover have "wwQueue (enWal (drainEvict t e1)) = wwQueue (enWal e) @ [r, d']" by (simp add: dr d'(1) r(1))
  moreover have "store_abs (enStore (drainEvict t e1)) k = Some (v, deadline (ckDeadline ck) ttl)" using S(2) by (simp add: dr)
  ultimately show ?thesis using r(2,3) d'(3) by blast
qed

theorem pending_delete_overtakes_write_witness:
  "\<exists>e e2 r d. eng_Set sample_clock [] [3] 0 e = (Inr (True, 1), e2) \<and> store_abs (enStore (drainEvict 0 e2)) [] = Some ([3], 0)
     \<and> wwQueue (enWal (drainEvict 0 e2)) = [r, d] \<and> fold record_effect [r, d] Map.empty [] = None"
proof -
  obtain e0 :: Engine where e0: "enWal e0 = sample_writer FsyncAlways" "\<not> enClosed e0" "\<not> enReadOnly e0" "store_room (2 ^ 31 - 1) (enStore e0)"
    by (rule sample_engine) blast
  define e where "e = e0\<lparr>enEvictQ := [([], ReasonExpired)]\<rparr>"
  have e: "enWal e = sample_writer FsyncAlways" "\<not> enClosed e" "\<not> enReadOnly e" "store_room (2 ^ 31 - 1) (enStore e)" "enEvictQ e = [([], ReasonExpired)]"
    using e0 by (simp_all add: e_def)
  have "Suc (2 ^ 31 - 2) = 2 ^ 31 - (1 :: nat)" by simp
  then have room: "store_room (Suc (2 ^ 31 - 2)) (enStore e)" using e(4) by (simp only:)
  have c: "cost_fits [] [3]" by (simp add: cost_fits_def EntryCost_def)
  have "fst (Submit (ckWal sample_clock) (set_of sample_clock [] [3] 0) (enWal e)) = Inr 1"
    by (simp add: e(1) Submit_def sample_writer_def rectype_Valid_def record_of_def sample_clock_def)
  then have s: "eng_Set sample_clock [] [3] 0 e = (Inr (True, 1), snd (eng_Set sample_clock [] [3] 0 e))"
    using eng_Set_run(1) [OF room c e(2,3), of sample_clock 0] by (simp add: prod_eq_iff)
  have "wwQueue (enWal e) = []" by (simp add: e(1) sample_writer_def)
  then show ?thesis using pending_delete_overtakes_write [OF room e(5) s, of 0 Map.empty] s by (auto simp: deadline_def)
qed

text \<open>
  C14. EXPIRE does not survive a restart after the deadline it replaced. The log holds a SET of a key with
  a deadline and an EXPIRE that gives the key a later one, or none. Written, the key lives on with the
  new deadline; recovered after the old deadline, the EXPIRE finds the key expired, removes it, and the
  key is lost.
\<close>

theorem expire_replayed_late:
  assumes "unlimited cfg" "files sd = []" "log_dir [seg_file (l, t, [r1, r2])] d" "wf_record r1" "wf_record r2" "0 < rLSN r1" "0 < rLSN r2"
    and "rType r1 = RecSet" "rType r2 = RecExpire" "rKey r2 = rKey r1" "expired_at (rExpireAtMs r1) now" "\<not> expired_at (rExpireAtMs r2) now"
  shows "live now (fold record_effect [r1, r2] Map.empty) (rKey r1) = Some (Record.rValue r1, rExpireAtMs r2)
    \<and> (\<exists>rep s. eng_recover u now nm sd d (store_New ent (cgStore cfg)) = (Inr rep, d, s) \<and> store_abs s (rKey r1) = None)"
proof -
  let ?s = "store_New ent (cgStore cfg)" and ?rs = "[r1, r2]"
  have n: "store_room (length ?rs) ?s" "store_abs ?s = Map.empty" using unlimited_New [OF assms(1), of "Suc (Suc 0)"] by simp_all
  have "replayable r1" "replayable r2" using assms(4,5,8,9) by (simp_all add: replayable_def wf_record_def cost_fits_def EntryCost_def)
  then have R: "\<forall>r \<in> set ?rs. replayable r" by simp
  note F = applyRecord_fold [OF n(1) R, of now nm]
  have rp: "replayed 0 (concat (map seg_recs [(l, t, ?rs)])) = ?rs" using assms(6,7) by simp
  have "log_dir (map seg_file [(l, t, ?rs)]) d" "\<forall>g \<in> set [(l, t, ?rs)]. wf_seg g" using assms(3-5) by simp_all
  from Replay_complete [OF this(1) _ this(2), of "applyRecord now nm" 0 ?s u, unfolded rp] F(1)
  obtain res where res: "Replay 0 u (applyRecord now nm) d ?s = (None, res, d, fold (\<lambda>r s. snd (applyRecord now nm r s)) ?rs ?s)" by auto
  obtain m s where p: "PurgeExpired now (fold (\<lambda>r s. snd (applyRecord now nm r s)) ?rs ?s) = Some (m, s)"
    "store_abs s = live now (fold (replay_effect now) ?rs Map.empty)"
    using purge_live [OF F(3), of now] unfolding F(2) n(2) by blast
  have "store_abs s (rKey r1) = None"
    using assms(8-12) unfolding p(2) by (simp add: replay_effect_def spec_expire_def live_def)
  moreover have "live now (fold record_effect ?rs Map.empty) (rKey r1) = Some (Record.rValue r1, rExpireAtMs r2)"
    using assms(8-12) by (simp add: record_effect_def live_def)
  ultimately show ?thesis using recover_log [OF assms(2) res p(1)] by blast
qed

definition sample_late :: "Record list" where
  "sample_late = [\<lparr>rLSN = 1, rCreatedAtMs = 1, rType = RecSet, rFlags = 0, rKey = [], rValue = [3], rExpireAtMs = 10\<rparr>,
     \<lparr>rLSN = 2, rCreatedAtMs = 2, rType = RecExpire, rFlags = 0, rKey = [], rValue = [], rExpireAtMs = 0\<rparr>]"

theorem expire_replayed_late_witness:
  "live 20 (fold record_effect sample_late Map.empty) [] = Some ([3], 0)
   \<and> (\<exists>rep s. eng_recover False 20 0 bare_dir (log_of (seg_bytes (1, 0, sample_late)) [] []) (store_New None (cgStore sample_cfg))
        = (Inr rep, log_of (seg_bytes (1, 0, sample_late)) [] [], s) \<and> store_abs s [] = None)"
proof -
  have d: "log_dir [seg_file (1, 0, sample_late)] (log_of (seg_bytes (1, 0, sample_late)) [] [])" using log_of_dir by simp
  have b: "files bare_dir = []" by (simp add: bare_dir_def)
  show ?thesis
    using expire_replayed_late [OF sample_unlimited b d [unfolded sample_late_def], of 20 False 0 None]
    by (simp add: sample_late_def wf_record_def rectype_Valid_def expired_at_def)
qed

abbreviation set_app :: "bytes \<Rightarrow> bytes \<Rightarrow> u64 \<Rightarrow> Txn \<Rightarrow> (eng_error option \<times> bool) \<times> Txn" where
  "set_app k v x \<equiv> (\<lambda>t. let (ok, t) = txn_Set k v x t in ((if ok then None else Some ErrOOM, ok), t))"

lemma mutate_locked_ok:
  assumes "mutate_locked ck rec app e = (Inr (res, lsn), e')"
  shows "\<exists>s. store_WithKey (rKey rec) (ckMs ck) (ckMono ck) app (enStore e) = ((None, res), s) \<and> enStore e' = s\<lparr>firedEvict := []\<rparr>"
    "Submit (ckWal ck) rec (enWal e) = (Inr lsn, enWal e')" "enFeeds e' = enFeeds e"
  using assms by (auto simp: mutate_locked_def Let_def split: prod.splits option.splits sum.splits)

lemma set_locked_ok:
  assumes "mutate_locked ck (record_of RecSet k v x) (set_app k v x) e = (Inr (res, lsn), e')" "store_room (Suc n) (enStore e)"
  shows "store_abs (enStore e') = (store_abs (enStore e))(k \<mapsto> (v, x))" "store_room n (enStore e')" "enFeeds e' = enFeeds e"
    "lsn = wwNextLSN (enWal e)" "wwNextLSN (enWal e') = lsn + 1"
proof -
  have k: "rKey (record_of RecSet k v x) = k" by (simp add: record_of_def)
  note M = mutate_locked_ok [OF assms(1), unfolded k WithKey_Set]
  have c: "cost_fits k v" using Submit_cost [OF M(2)] by (simp add: record_of_def)
  obtain ok t where t: "withWrite (shardFor (enStore e) k) (setLocked k v x (ckMono ck)) (enStore e) = (ok, t)" by force
  note W = withWrite_Set [OF assms(2) c t]
  have "enStore e' = t\<lparr>firedEvict := []\<rparr>" using M(1) t W(1) by auto
  then show "store_abs (enStore e') = (store_abs (enStore e))(k \<mapsto> (v, x))" "store_room n (enStore e')" "enFeeds e' = enFeeds e"
    using W M(3) by simp_all
  obtain r' where "enWal e' = (enWal e)\<lparr>wwNextLSN := wwNextLSN (enWal e) + 1, wwQueue := wwQueue (enWal e) @ [r']\<rparr>" "lsn = wwNextLSN (enWal e)"
    by (rule Submit_ok [OF M(2)])
  then show "lsn = wwNextLSN (enWal e)" "wwNextLSN (enWal e') = lsn + 1" by simp_all
qed

text \<open>
  C15. Two writers of one key hand their records to the replicas after they released the shard lock, so
  that the second may overtake the first: the log and memory have the first write before the second,
  the feed has them in the opposite order, and a replica that applies its feed ends with the older
  value.
\<close>

theorem fan_out_overtakes:
  assumes "store_room (Suc (Suc n)) (enStore e)" "enFeeds e = [(i, cap, [])]" "2 \<le> cap"
    and "mutate_locked ck1 (record_of RecSet k v1 x1) (set_app k v1 x1) e = (Inr (b1, a), e1)"
    and "mutate_locked ck2 (record_of RecSet k v2 x2) (set_app k v2 x2) e1 = (Inr (b2, b), e2)"
  shows "\<exists>q. enFeeds (mutate_unlocked (record_of RecSet k v1 x1) a (mutate_unlocked (record_of RecSet k v2 x2) b e2)) = [(i, cap, q)]
    \<and> map rLSN q = [a + 1, a] \<and> fold record_effect q m k = Some (v1, x1) \<and> store_abs (enStore e2) k = Some (v2, x2)"
proof -
  note A = set_locked_ok [OF assms(4,1)]
  note B = set_locked_ok [OF assms(5) A(2)]
  have b: "b = a + 1" using A(5) B(4) by simp
  show ?thesis
    using assms(2,3) A B by (simp add: mutate_unlocked_def fanOutToReplicas_def b record_of_def record_effect_def)
qed

lemma set_locked_run:
  assumes "store_room (Suc n) (enStore e)" "cost_fits k v" "Submit (ckWal ck) (record_of RecSet k v x) (enWal e) = (Inr lsn, w)"
  shows "\<exists>e'. mutate_locked ck (record_of RecSet k v x) (set_app k v x) e = (Inr (True, lsn), e') \<and> enWal e' = w"
proof -
  have k: "rKey (record_of RecSet k v x) = k" by (simp add: record_of_def)
  obtain ok s where s: "withWrite (shardFor (enStore e) k) (setLocked k v x (ckMono ck)) (enStore e) = (ok, s)" by force
  show ?thesis
    unfolding mutate_locked_def k WithKey_Set s using withWrite_Set(1) [OF assms(1,2) s] assms(3) by (simp add: Let_def)
qed

theorem fan_out_overtakes_witness:
  "\<exists>(e :: Engine) b1 b2 e1 e2 q. mutate_locked sample_clock (record_of RecSet [] [3] 0) (set_app [] [3] 0) e = (Inr (b1, 1), e1)
     \<and> mutate_locked sample_clock (record_of RecSet [] [4] 0) (set_app [] [4] 0) e1 = (Inr (b2, 2), e2)
     \<and> enFeeds (mutate_unlocked (record_of RecSet [] [3] 0) 1 (mutate_unlocked (record_of RecSet [] [4] 0) 2 e2)) = [(1, 2, q)]
     \<and> fold record_effect q Map.empty [] = Some ([3], 0) \<and> store_abs (enStore e2) [] = Some ([4], 0)"
proof -
  obtain e0 :: Engine where e0: "enWal e0 = sample_writer FsyncAlways" "store_room (2 ^ 31 - 1) (enStore e0)"
    by (rule sample_engine) blast
  define e where "e = e0\<lparr>enFeeds := [(1, 2, [])]\<rparr>"
  have e: "enWal e = sample_writer FsyncAlways" "store_room (2 ^ 31 - 1) (enStore e)" "enFeeds e = [(1, 2, [])]" using e0 by (simp_all add: e_def)
  have "Suc (Suc (2 ^ 31 - 3)) = 2 ^ 31 - (1 :: nat)" by simp
  then have room: "store_room (Suc (Suc (2 ^ 31 - 3))) (enStore e)" using e(2) by (simp only:)
  have c: "cost_fits [] [x]" for x by (simp add: cost_fits_def EntryCost_def)
  have s1: "Submit (ckWal sample_clock) (record_of RecSet [] [3] 0) (enWal e) = (Inr 1, sample_queued FsyncAlways [set_record 1 3])"
    by (simp add: e(1) Submit_def sample_writer_def set_record_def sample_queued_def rectype_Valid_def record_of_def sample_clock_def)
  obtain e1 where e1: "mutate_locked sample_clock (record_of RecSet [] [3] 0) (set_app [] [3] 0) e = (Inr (True, 1), e1)"
    "enWal e1 = sample_queued FsyncAlways [set_record 1 3]"
    using set_locked_run [OF room c s1] by blast
  have s2: "Submit (ckWal sample_clock) (record_of RecSet [] [4] 0) (enWal e1) = (Inr 2, sample_queued FsyncAlways [set_record 1 3, set_record 2 4])"
    by (simp add: e1(2) Submit_def sample_writer_def set_record_def sample_queued_def rectype_Valid_def record_of_def sample_clock_def)
  obtain e2 where e2: "mutate_locked sample_clock (record_of RecSet [] [4] 0) (set_app [] [4] 0) e1 = (Inr (True, 2), e2)"
    using set_locked_run [OF set_locked_ok(2) [OF e1(1) room] c s2] by blast
  show ?thesis using fan_out_overtakes [OF room e(3) _ e1(1) e2, of Map.empty] e1(1) e2 by fastforce
qed

end
