(* ===== verification/Cluster_Spec.thy ===== *)
theory Cluster_Spec
  imports Cluster Engine_Durable
begin

text \<open>
  What replication gives: a partial resync sends exactly the records above the replica's position and
  brings it to the primary's keyspace, a full resync copies the primary's live keyspace, epochs never
  go back and a heartbeat of a stale primary ends the connection. And what it does not: the position
  of a replica is a number of its own log, and a promoted node still obeys its old primary.
\<close>

section \<open>Catching up from the log\<close>

definition ship :: "u64 \<Rightarrow> Record \<Rightarrow> bytes \<Rightarrow> unit option \<times> bytes" where
  "ship fromLSN r out = (None, if rLSN r \<le> fromLSN then out else out @ writeRecord r)"

lemma deliver_ship: "deliver (ship l) rs out = (None, out @ concat (map writeRecord (replayed l rs)))"
  by (induction rs arbitrary: out) (auto simp: ship_def not_less)

lemma scan_ship:
  assumes "wf_seg g"
  shows "\<exists>res. ScanSegment (ship l) (length (seg_bytes g)) (seg_bytes g) out = (res, out @ concat (map writeRecord (replayed l (seg_recs g))), None)
    \<and> scFault res = FaultNone"
proof -
  let ?h = "newSegmentHeader (fst g) (fst (snd g))"
  have st: "stuck []" by (simp add: stuck_def)
  have e: "seg_bytes g = AppendRecord [] ?h @ enc_records (seg_recs g) @ []" by (simp add: seg_bytes_def)
  from ScanSegment_enc [OF newSegmentHeader_wf assms st deliver_ship [of l "seg_recs g" out] e] show ?thesis
    by (elim exE conjE) (auto simp: scanned_def scan_start_def tail_fault_def)
qed

lemma catch_up_segs_complete:
  assumes "\<forall>g \<in> set gs. wf_seg g" "\<forall>g \<in> set gs. \<exists>f. map_of (files d) (SegmentName (fst g)) = Some f \<and> fCur f = seg_bytes g"
  shows "catch_up_segs l (map (\<lambda>g. seg_info (seg_file g)) gs) d out
    = (True, out @ concat (map writeRecord (replayed l (concat (map seg_recs gs)))))"
  using assms
proof (induction gs arbitrary: out)
  case (Cons g gs)
  obtain f where f: "map_of (files d) (SegmentName (fst g)) = Some f" "fCur f = seg_bytes g" using Cons.prems(2) by auto
  have w: "wf_seg g" using Cons.prems(1) by simp
  obtain res where r: "ScanSegment (ship l) (length (seg_bytes g)) (seg_bytes g) out
      = (res, out @ concat (map writeRecord (replayed l (seg_recs g))), None)" "scFault res = FaultNone"
    using scan_ship [OF w, of l out] by blast
  have "(\<lambda>r out. (None :: unit option, if rLSN r \<le> l then out else out @ writeRecord r)) = ship l" by (simp add: fun_eq_iff ship_def)
  then have "catch_up_segs l (map (\<lambda>g. seg_info (seg_file g)) (g # gs)) d out
    = catch_up_segs l (map (\<lambda>g. seg_info (seg_file g)) gs) d (out @ concat (map writeRecord (replayed l (seg_recs g))))"
    using f r by (simp add: seg_info_def)
  then show ?case using Cons.IH Cons.prems by simp
qed simp

lemma catchUp_log:
  assumes "log_dir (map seg_file gs) (enWalDir e)" "gs \<noteq> []" "\<forall>g \<in> set gs. wf_seg g" "l \<noteq> 0" "\<not> l + 1 < fst (hd gs)"
  shows "catchUp now l e = (True, False, concat (map writeRecord (replayed l (concat (map seg_recs gs)))))"
proof -
  have L: "ListSegments (enWalDir e) = map (\<lambda>g. seg_info (seg_file g)) gs" using ListSegments_log [OF assms(1)] by simp
  obtain g gs' where g: "gs = g # gs'" using assms(2) by (cases gs) auto
  have h: "siFirstLSN (seg_info (seg_file g)) = fst g" by (simp add: seg_info_def)
  have "\<forall>g \<in> set gs. \<exists>f. map_of (files (enWalDir e)) (SegmentName (fst g)) = Some f \<and> fCur f = seg_bytes g"
    using log_dir_lookups [of gs "[]" "enWalDir e"] assms(1) by simp
  note C = catch_up_segs_complete [OF assms(3) this, of l "[]"]
  have "catchUp now l e = (let (ok, out) = catch_up_segs l (ListSegments (enWalDir e)) (enWalDir e) [] in (ok, False, out))"
    using assms(4,5) h by (simp add: catchUp_def L g Let_def)
  then show ?thesis by (simp add: L C)
qed

section \<open>Applying what the primary sent\<close>

definition log_open :: "wal_Writer \<Rightarrow> bool" where
  "log_open w \<longleftrightarrow> \<not> wwClosed w \<and> \<not> wwFatal w"

definition shippable :: "Record \<Rightarrow> bool" where
  "shippable r \<longleftrightarrow> wf_record r \<and> rType r \<noteq> RecSegmentHdr"

lemma shippable_replayable:
  assumes "shippable r"
  shows "replayable r"
proof -
  have "rType r \<in> {RecSet, RecDelete, RecExpire}"
    using assms by (auto simp: shippable_def wf_record_def rectype_Valid_def word_le_nat_alt word_unat_eq_iff)
  then show ?thesis using assms by (simp add: shippable_def wf_record_def replayable_def cost_fits_def EntryCost_def)
qed

lemma store_room_le: "store_room n s \<Longrightarrow> m \<le> n \<Longrightarrow> store_room m s"
  by (auto simp: store_room_def)

lemma Submit_open:
  assumes "log_open w" "shippable r"
  shows "\<exists>w'. Submit t r w = (Inr (wwNextLSN w), w') \<and> log_open w' \<and> wal_LastLSN w' = wal_LastLSN w + 1"
  using assms by (auto simp: Submit_def log_open_def shippable_def wf_record_def Let_def wal_LastLSN_def wal_NextLSN_def)

lemma ApplyReplicated_ok:
  assumes "store_room (Suc n) (enStore e)" "shippable r" "log_open (enWal e)"
  shows "\<exists>e'. ApplyReplicated ck r e = (None, e') \<and> store_abs (enStore e') = replay_effect (ckMs ck) r (store_abs (enStore e))
    \<and> store_room n (enStore e') \<and> log_open (enWal e') \<and> eng_LastLSN e' = eng_LastLSN e + 1"
proof -
  obtain err s where s: "applyRecord (ckMs ck) (ckMono ck) r (enStore e) = (err, s)" by force
  note A = applyRecord_spec [OF assms(1) shippable_replayable [OF assms(2)] s]
  obtain w where w: "Submit (ckWal ck) r (enWal e) = (Inr (wwNextLSN (enWal e)), w)" "log_open w" "wal_LastLSN w = wal_LastLSN (enWal e) + 1"
    using Submit_open [OF assms(3,2)] by blast
  show ?thesis using A w by (simp add: ApplyReplicated_def s Let_def eng_LastLSN_def)
qed

definition rec_msg :: "Record \<Rightarrow> streamMsg" where
  "rec_msg r = (newMsg msgRecord)\<lparr>smRecord := r\<rparr>"

lemma rec_msg_write: "writeMsg (rec_msg r) = writeRecord r" "wf_record r \<Longrightarrow> wf_msg (rec_msg r)"
  by (auto simp: rec_msg_def writeMsg_def newMsg_def wf_msg_def)

lemma on_message_record:
  assumes "ApplyReplicated ck r (ndEng n) = (None, e)"
  shows "\<exists>n'. on_message ck cr now (rec_msg r) b n = (None, b, n') \<and> ndEng n' = e \<and> ndEpoch n' = ndEpoch n"
  using assms by (simp add: on_message_def rec_msg_def newMsg_def applyFromPrimary_def Let_def)

interpretation replica: record_sink "\<lambda>r (m, l). (replay_effect (ckMs ck) r m, l + 1)" "\<lambda>e. (store_abs (enStore e), eng_LastLSN e)"
  "\<lambda>n e. store_room n (enStore e) \<and> log_open (enWal e)" shippable "ApplyReplicated ck" for ck
proof
  fix n r and e :: Engine
  assume "store_room (Suc n) (enStore e) \<and> log_open (enWal e)" "shippable r"
  then show "fst (ApplyReplicated ck r e) = None"
    "(store_abs (enStore (snd (ApplyReplicated ck r e))), eng_LastLSN (snd (ApplyReplicated ck r e)))
      = (\<lambda>(m, l). (replay_effect (ckMs ck) r m, l + 1)) (store_abs (enStore e), eng_LastLSN e)"
    "store_room n (enStore (snd (ApplyReplicated ck r e))) \<and> log_open (enWal (snd (ApplyReplicated ck r e)))"
    using ApplyReplicated_ok [of n e r ck] by auto
qed

lemma fold_count: "fold (\<lambda>r (m, l). (f r m, l + 1)) rs (m, l) = (fold f rs m, l + word_of_nat (length rs))"
  by (induction rs arbitrary: m l) (simp_all add: algebra_simps)

text \<open>The loop of the replica hands the records to the engine, one by one.\<close>

lemma replica_run_accepts:
  "accepts (ApplyReplicated ck) rs (ndEng n) \<Longrightarrow> \<exists>n'. replica_run ck cr now (map rec_msg rs @ ms) b n = replica_run ck cr now ms b n'
     \<and> ndEng n' = fold (\<lambda>r e. snd (ApplyReplicated ck r e)) rs (ndEng n)"
proof (induction rs arbitrary: n)
  case (Cons r rs)
  obtain e where e: "ApplyReplicated ck r (ndEng n) = (None, e)" using Cons.prems by (cases "ApplyReplicated ck r (ndEng n)") simp
  obtain n1 where n1: "on_message ck cr now (rec_msg r) b n = (None, b, n1)" "ndEng n1 = e" using on_message_record [OF e] by blast
  then show ?case using Cons.IH [of n1] Cons.prems e by auto
qed auto

text \<open>A replica that gets records in order applies each of them, and numbers each of them itself.\<close>

lemma replica_run_records:
  assumes "store_room (length rs + m) (enStore (ndEng n))" "list_all shippable rs" "log_open (enWal (ndEng n))"
  shows "\<exists>n'. replica_run ck cr now (map rec_msg rs @ ms) b n = replica_run ck cr now ms b n'
    \<and> store_abs (enStore (ndEng n')) = fold (replay_effect (ckMs ck)) rs (store_abs (enStore (ndEng n)))
    \<and> store_room m (enStore (ndEng n')) \<and> log_open (enWal (ndEng n')) \<and> eng_LastLSN (ndEng n') = eng_LastLSN (ndEng n) + word_of_nat (length rs)"
proof -
  have r: "store_room (length rs + m) (enStore (ndEng n)) \<and> log_open (enWal (ndEng n))" using assms(1,3) by blast
  obtain n' where n': "replica_run ck cr now (map rec_msg rs @ ms) b n = replica_run ck cr now ms b n'"
    "ndEng n' = fold (\<lambda>r e. snd (ApplyReplicated ck r e)) rs (ndEng n)"
    using replica_run_accepts [OF replica.stream_accepts [OF r assms(2)]] by blast
  show ?thesis
    using n' replica.stream_lookup [OF r assms(2), of ck] replica.stream_room [OF r assms(2), of ck] by (auto simp: fold_count)
qed


definition sample_primary :: "Engine \<Rightarrow> Engine" where
  "sample_primary e = e\<lparr>enWalDir := log_of (seg_bytes (1, 0, [set_record 1 3, set_record 2 4])) [] []\<rparr>"

definition sample_node :: "Engine \<Rightarrow> Node" where
  "sample_node e = node_New True 3 10 e"

lemma sample_primary_log: "log_dir (map seg_file [(1, 0, [set_record 1 3, set_record 2 4])]) (enWalDir (sample_primary e))"
  using log_of_dir by (simp add: sample_primary_def)


section \<open>Full resync\<close>

lemma resync_bytes:
  "store_Range (\<lambda>en out. (True, out @ writeRecord (f en))) now s out = out @ concat (map (\<lambda>en. writeRecord (f en)) (range_entries now s))"
proof -
  have "snd (range_calls (\<lambda>en out. (True, out @ writeRecord (f en))) es out) = out @ concat (map (\<lambda>en. writeRecord (f en)) es)" for es out
    by (induction es arbitrary: out) auto
  then show ?thesis by (simp add: store_Range_calls)
qed

definition lsn_msg :: "u8 \<Rightarrow> u64 \<Rightarrow> streamMsg" where
  "lsn_msg t l = (newMsg t)\<lparr>smLSN := l\<rparr>"

definition resync_msgs :: "u64 \<Rightarrow> Engine \<Rightarrow> streamMsg list" where
  "resync_msgs now e = lsn_msg msgFullBegin (eng_DurableLSN e)
     # map rec_msg (map (resync_record (eng_DurableLSN e)) (range_entries now (enStore e))) @ [lsn_msg msgFullEnd (eng_DurableLSN e)]"

lemma lsn_msg_write:
  "t \<in> {msgFullBegin, msgFullEnd} \<Longrightarrow> writeMsg (lsn_msg t l) = writeLSNMsg t l" "t \<in> {msgFullBegin, msgFullEnd} \<Longrightarrow> wf_msg (lsn_msg t l)"
  by (auto simp: lsn_msg_def writeMsg_def newMsg_def wf_msg_def)

lemma fullResync_msgs: "fullResync now e = concat (map writeMsg (resync_msgs now e))"
  by (simp add: fullResync_def resync_msgs_def resync_bytes lsn_msg_write rec_msg_write comp_def Let_def)

text \<open>Loading the entries of a map into the empty map gives the map, in any order and with repetitions.\<close>

lemma load_all:
  assumes "\<forall>r \<in> set rs. rType r = RecSet \<and> m (rKey r) = Some (Record.rValue r, rExpireAtMs r)"
  shows "fold (replay_effect now) rs m0 k = (if k \<in> rKey ` set rs then m k else m0 k)"
  using assms by (induction rs arbitrary: m0) (auto simp: replay_effect_def)

lemma resync_effect:
  assumes "wf_store s"
  shows "fold (replay_effect t) (map (resync_record l) (range_entries now s)) Map.empty = live now (store_abs s)"
proof -
  let ?rs = "map (resync_record l) (range_entries now s)" and ?m = "live now (store_abs s)"
  note R = range_entries_live [OF assms, of now]
  have "?m (eKey en) = Some (eValue en, eExpireAt en)" if "en \<in> set (range_entries now s)" for en using R that by force
  then have "\<forall>r \<in> set ?rs. rType r = RecSet \<and> ?m (rKey r) = Some (Record.rValue r, rExpireAtMs r)" by (simp add: resync_record_def)
  note L = load_all [OF this, of t Map.empty]
  have "k \<in> rKey ` set ?rs" if k: "?m k = Some (v, x)" for k v x
  proof -
    have "(k, v, x) \<in> (\<lambda>e. (eKey e, eValue e, eExpireAt e)) ` set (range_entries now s)" using R k by simp
    then show ?thesis by (auto simp: resync_record_def image_image)
  qed
  then have "fold (replay_effect t) ?rs Map.empty k = ?m k" for k using L [of k] by (cases "?m k") auto
  then show ?thesis by blast
qed

lemma eng_Snapshot_frame:
  assumes "eng_Snapshot cr now e = (r, e')"
  shows "enStore e' = enStore e" "enWal e' = enWal e" "enReadOnly e' = enReadOnly e"
  using assms by (auto simp: eng_Snapshot_def Let_def split: sum.splits option.splits prod.splits)

lemma Reset_spec:
  assumes "ResetForFullResync cr now e = (err, e')" "wf_store (enStore e)"
  shows "store_abs (enStore e') = Map.empty" "store_room n (enStore e) \<Longrightarrow> store_room n (enStore e')" "enWal e' = enWal e" "enReadOnly e' = enReadOnly e"
proof -
  let ?e = "deliver_evicts (e\<lparr>enStore := store_Flush (enStore e)\<rparr>)"
  obtain r e1 where s: "eng_Snapshot cr now ?e = (r, e1)" by force
  have e': "e' = e1" using assms(1) s by (auto simp: ResetForFullResync_def resetKeyspace_def split: sum.splits)
  show "store_abs (enStore e') = Map.empty" "store_room n (enStore e) \<Longrightarrow> store_room n (enStore e')" "enWal e' = enWal e" "enReadOnly e' = enReadOnly e"
    using eng_Snapshot_frame [OF s] store_Flush_spec [OF assms(2)] by (simp_all add: e')
qed

lemma on_message_FullBegin:
  "smType m = msgFullBegin \<Longrightarrow> ResetForFullResync cr (ckMs ck) (ndEng n) = (None, e) \<Longrightarrow>
     \<exists>n'. on_message ck cr now m b n = (None, True, n') \<and> ndEng n' = e"
  by (simp add: on_message_def Let_def)

lemma on_message_FullEnd:
  "smType m = msgFullEnd \<Longrightarrow> \<exists>n'. on_message ck cr now m b n = (None, False, n') \<and> ndEng n' = ndEng n \<and> rsAppliedLSN (ndRepl n') = smLSN m"
  by (simp add: on_message_def Let_def)


section \<open>Fencing\<close>

lemma on_message_epoch:
  assumes "on_message ck cr now m b n = (x, b', n')"
  shows "ndEpoch n \<le> ndEpoch n'" "x = None \<Longrightarrow> smType m = msgHeartbeat \<Longrightarrow> ndEpoch n \<le> smEpoch m \<and> ndEpoch n' = smEpoch m"
  using assms by (auto simp: on_message_def Let_def not_less split: if_splits prod.splits option.splits)

text \<open>
  C19. Epoch fencing. On whatever messages a replica gets, its epoch never goes back; and as long as it goes on,
  the epochs of the heartbeats it accepts never go back either: each is at least the epoch it had before.
\<close>

theorem epoch_fencing:
  assumes "replica_run ck cr now ms b n = (x, b', n')"
  shows "ndEpoch n \<le> ndEpoch n' \<and> (x = None \<longrightarrow>
    sorted (ndEpoch n # map smEpoch (filter (\<lambda>m. smType m = msgHeartbeat) ms)))"
  using assms
proof (induction ms arbitrary: b n)
  case (Cons m ms)
  obtain y c n1 where m: "on_message ck cr now m b n = (y, c, n1)" by (metis prod.exhaust)
  note E = on_message_epoch [OF m]
  show ?case
  proof (cases y)
    case None
    then have "replica_run ck cr now ms c n1 = (x, b', n')" using Cons.prems m by simp
    from Cons.IH [OF this] E None show ?thesis by (auto dest: order_trans)
  qed (use Cons.prems m E in auto)
qed simp

lemma sample_reset:
  assumes "enSnapDir e = bare_dir" "wf_store (enStore e)"
  shows "\<exists>e0. ResetForFullResync 0 0 e = (None, e0)"
proof -
  let ?e = "deliver_evicts (e\<lparr>enStore := store_Flush (enStore e)\<rparr>)" and ?s = "(store_Flush (enStore e))\<lparr>firedEvict := []\<rparr>"
  have w: "wf_store ?s" "store_abs ?s = Map.empty" using store_Flush_spec [OF assms(2)] by simp_all
  have "{(k, v, x). live 0 (store_abs ?s) k = Some (v, x)} = {}" unfolding w(2) live_empty by auto
  with range_entries_live [OF w(1), of 0] have "(\<lambda>e. (eKey e, eValue e, eExpireAt e)) ` set (range_entries 0 ?s) = {}" by (simp only:)
  then have "range_entries 0 ?s = []" by (simp only: image_is_empty set_empty)
  then have r: "store_Range snap_visit 0 (enStore ?e) c = c" for c by (simp add: store_Range_calls)
  have d: "enSnapDir ?e = \<lparr>files = [], plan = []\<rparr>" using assms(1) by (simp add: bare_dir_def)
  obtain lsn where l: "wal_DurableLSN (enWal ?e) = lsn" by blast
  obtain w0 d0 where c: "snap_Create lsn 0 \<lparr>files = [], plan = []\<rparr> = (Inr w0, d0)" "plan d0 = []" "swTmp w0 = snap_Name lsn @ ''.tmp''" "swFinal w0 = snap_Name lsn"
    "\<not> swClosed w0" "map_of (files d0) (swTmp w0) \<noteq> None"
    by (simp add: snap_Create_def os_open_trunc_def snap_write_def os_write_def next_outcome_def upd_file_def Let_def)
  obtain f where f: "map_of (files d0) (swTmp w0) = Some f" using c(6) by blast
  have "\<exists>p w1 d1. snap_Commit w0 d0 = (Inr p, w1, d1)"
    using c(2,5) f by (simp add: snap_Commit_def os_write_def os_sync_def os_close_def os_rename_def SyncDir_def next_outcome_def Let_def)
  then obtain p w1 d1 where "snap_Commit w0 d0 = (Inr p, w1, d1)" by blast
  then have "\<exists>q e0. eng_Snapshot 0 0 ?e = (Inr q, e0)" unfolding eng_Snapshot_def d l Let_def c(1) prod.case sum.case r by (simp add: split_beta)
  then show ?thesis by (auto simp: ResetForFullResync_def resetKeyspace_def)
qed


theorem epoch_fencing_witness:
  "\<exists>(n :: Node). ndEpoch n = 1 \<and> replica_run sample_clock 0 0 [(newMsg msgHeartbeat)\<lparr>smEpoch := 5\<rparr>, (newMsg msgHeartbeat)\<lparr>smEpoch := 3\<rparr>] False n
     = (Some (ReplStale 3), False, n\<lparr>ndEpoch := 5, ndRepl := (ndRepl n)\<lparr>rsLastMsgAt := 0, rsPrimaryLSN := 0, rsPeer := peerAlive\<rparr>\<rparr>) \<and> (1 :: u64) \<le> 5"
proof -
  obtain e :: Engine where "eng_reach sample_cfg [] e" by (rule sample_engine) blast
  let ?n = "sample_node e"
  let ?ms = "[(newMsg msgHeartbeat)\<lparr>smEpoch := 5\<rparr>, (newMsg msgHeartbeat)\<lparr>smEpoch := 3\<rparr>]"
  let ?n' = "?n\<lparr>ndEpoch := 5, ndRepl := (ndRepl ?n)\<lparr>rsLastMsgAt := 0, rsPrimaryLSN := 0, rsPeer := peerAlive\<rparr>\<rparr>"
  have e: "ndEpoch ?n = 1" by (simp add: sample_node_def node_New_def)
  have r: "replica_run sample_clock 0 0 ?ms False ?n = (Some (ReplStale 3), False, ?n')"
    by (simp add: on_message_def newMsg_def Let_def e word_less_nat_alt)
  show ?thesis using epoch_fencing [OF r] e r by auto
qed

section \<open>Where replication fails\<close>

text \<open>
  C16. The position from which a replica asks to resume is the number of records in its own log, not an
  LSN of the primary, and the two can differ: a record that arrives twice, in the full resync and from the live feed, which
  the primary allows, is counted twice. In this run a fresh replica asks from position 0, gets a full resync that has the
  primary's record 1, gets the record again from the feed, and loses the
  connection; the primary wrote record 2; the replica resumes from position 2, is sent nothing, and
  keeps the old value.
\<close>

theorem resume_loses_record:
  "\<exists>n n' p r. r = (set_record 1 3)\<lparr>rCreatedAtMs := 0\<rparr> \<and> fst (replicate_hello 0 n) = 0
    \<and> replica_run sample_clock 0 0 [lsn_msg msgFullBegin 1, rec_msg r, lsn_msg msgFullEnd 1, rec_msg r] False n = (None, False, n')
    \<and> log_dir [seg_file (1, 0, [set_record 1 3, set_record 2 4])] (enWalDir p)
    \<and> catchUp 0 (fst (replicate_hello 0 n')) p = (True, False, [])
    \<and> store_abs (enStore (ndEng n')) [] = Some ([3], 0) \<and> fold record_effect [set_record 1 3, set_record 2 4] Map.empty [] = Some ([4], 0)"
proof -
  obtain e :: Engine where e: "enWal e = sample_writer FsyncAlways" "enSnapDir e = bare_dir" "store_room (2 ^ 31 - 1) (enStore e)"
    by (rule sample_engine) blast
  let ?n = "sample_node e" and ?gs = "[(1, 0, [set_record 1 3, set_record 2 4])] :: seglog list"
  obtain r where r: "r = (set_record 1 3)\<lparr>rCreatedAtMs := 0\<rparr>" by blast
  have n: "ndEng ?n = SetReadOnly True e" by (simp add: sample_node_def node_New_def)
  have n0: "enSnapDir (ndEng ?n) = bare_dir" "wf_store (enStore (ndEng ?n))" "log_open (enWal (ndEng ?n))" "eng_LastLSN (ndEng ?n) = 0"
    using e by (simp_all add: n SetReadOnly_def store_room_def log_open_def sample_writer_def eng_LastLSN_def wal_LastLSN_def wal_NextLSN_def)
  have room: "store_room (Suc (Suc 0)) (enStore (ndEng ?n))"
    by (rule store_room_le [of "2 ^ 31 - 1"]) (use e(3) in \<open>simp_all add: n SetReadOnly_def\<close>)
  have sh: "list_all shippable [r]" by (simp add: r shippable_def set_record_def wf_record_def rectype_Valid_def)
  obtain e0 where e0: "ResetForFullResync 0 (ckMs sample_clock) (ndEng ?n) = (None, e0)"
    using sample_reset [OF n0(1,2)] by (auto simp: sample_clock_def)
  note E = Reset_spec [OF e0 n0(2)]
  obtain n1 where n1: "on_message sample_clock 0 0 (lsn_msg msgFullBegin 1) False ?n = (None, True, n1)" "ndEng n1 = e0"
    using on_message_FullBegin [OF _ e0, of "lsn_msg msgFullBegin 1" 0 False] by (auto simp: lsn_msg_def newMsg_def)
  have "store_room (length [r] + 1) (enStore (ndEng n1))" "log_open (enWal (ndEng n1))" "eng_LastLSN (ndEng n1) = 0"
    using E(2) [OF room] E(3) n0(3,4) n1(2) by (simp_all add: eng_LastLSN_def)
  from replica_run_records [OF this(1) sh this(2), of sample_clock 0 0 "[lsn_msg msgFullEnd 1, rec_msg r]" True] this(3) obtain n2 where
    n2: "replica_run sample_clock 0 0 [rec_msg r, lsn_msg msgFullEnd 1, rec_msg r] True n1 = replica_run sample_clock 0 0 [lsn_msg msgFullEnd 1, rec_msg r] True n2"
      "store_room 1 (enStore (ndEng n2))" "log_open (enWal (ndEng n2))" "eng_LastLSN (ndEng n2) = 1" by auto
  obtain n3 where n3: "on_message sample_clock 0 0 (lsn_msg msgFullEnd 1) True n2 = (None, False, n3)" "ndEng n3 = ndEng n2"
    using on_message_FullEnd [of "lsn_msg msgFullEnd 1" sample_clock 0 0 True n2] by (auto simp: lsn_msg_def newMsg_def)
  have "store_room (length [r] + 0) (enStore (ndEng n3))" "log_open (enWal (ndEng n3))" using n2(2,3) n3(2) by simp_all
  from replica_run_records [OF this(1) sh this(2), of sample_clock 0 0 "[]" False] obtain n' where
    n': "replica_run sample_clock 0 0 [rec_msg r] False n3 = (None, False, n')"
      "store_abs (enStore (ndEng n')) = replay_effect (ckMs sample_clock) r (store_abs (enStore (ndEng n3)))" "eng_LastLSN (ndEng n') = 2"
    using n2(4) n3(2) by auto
  have run: "replica_run sample_clock 0 0 [lsn_msg msgFullBegin 1, rec_msg r, lsn_msg msgFullEnd 1, rec_msg r] False ?n = (None, False, n')"
    using n1(1) n2(1) n3(1) n'(1) by simp
  have l: "fst (replicate_hello 0 n') = 2" "fst (replicate_hello 0 ?n) = 0" using n'(3) n0(4) by (simp_all add: replicate_hello_def)
  have d: "log_dir (map seg_file ?gs) (enWalDir (sample_primary e))" by (rule sample_primary_log)
  have "catchUp 0 2 (sample_primary e) = (True, False, concat (map writeRecord (replayed 2 (concat (map seg_recs ?gs)))))"
    by (rule catchUp_log [OF d]) (simp_all add: word_less_nat_alt)
  then have c: "catchUp 0 (fst (replicate_hello 0 n')) (sample_primary e) = (True, False, [])" by (simp add: l word_less_nat_alt)
  have "store_abs (enStore (ndEng n')) [] = Some ([3], 0)" unfolding n'(2) by (simp add: replay_effect_def set_record_def r)
  moreover have "fold record_effect [set_record 1 3, set_record 2 4] Map.empty [] = Some ([4], 0)" by (simp add: record_effect_def set_record_def)
  ultimately show ?thesis using run r c d l(2) by (intro exI [of _ ?n] exI [of _ n'] exI [of _ "sample_primary e"] exI [of _ r]) simp
qed

text \<open>
  C17. Promotion does not stop the replication loop. A promoted node is writable and has a new epoch, but the next
  message that its old primary sends is handled as before: the start of a full resync empties the
  keyspace of the new primary, whatever the epoch of the sender.
\<close>

theorem promoted_node_emptied:
  assumes "wf_store (enStore (ndEng n))" "Promote n = (True, n1)" "on_message ck cr t (lsn_msg msgFullBegin l) b n1 = (x, b', n2)"
  shows "ndEpoch n1 = ndEpoch n + 1 \<and> \<not> enReadOnly (ndEng n1) \<and> store_abs (enStore (ndEng n2)) = Map.empty \<and> \<not> enReadOnly (ndEng n2)"
proof -
  have n1: "ndEpoch n1 = ndEpoch n + 1" "ndEng n1 = SetReadOnly False (ndEng n)" using assms(2) by (auto simp: Promote_def split: if_splits)
  obtain err e where r: "ResetForFullResync cr (ckMs ck) (ndEng n1) = (err, e)" by force
  have w: "wf_store (enStore (ndEng n1))" using assms(1) by (simp add: n1(2) SetReadOnly_def)
  have "ndEng n2 = e" using assms(3) r by (auto simp: on_message_def lsn_msg_def newMsg_def Let_def split: option.splits)
  then show ?thesis using Reset_spec(1,4) [OF r w] n1 by (simp add: SetReadOnly_def)
qed

theorem promoted_node_emptied_witness:
  "\<exists>n n1 x b n2. Promote n = (True, n1) \<and> on_message sample_clock 0 0 (lsn_msg msgFullBegin 7) False n1 = (x, b, n2)
     \<and> store_abs (enStore (ndEng n1)) [] = Some ([3], 0) \<and> store_abs (enStore (ndEng n2)) = Map.empty"
proof -
  obtain e :: Engine where e: "eng_reach sample_cfg [set_record 1 3] e" by (rule sample_set) blast
  have i: "eng_inv sample_cfg [set_record 1 3] e" by (rule eng_reach_inv [OF e sample_unlimited]) simp
  let ?n = "sample_node e"
  have n: "ndEng ?n = SetReadOnly True e" by (simp add: sample_node_def node_New_def)
  obtain n1 where p: "Promote ?n = (True, n1)" "ndEng n1 = SetReadOnly False (SetReadOnly True e)" by (simp add: Promote_def n SetReadOnly_def)
  obtain x b n2 where m: "on_message sample_clock 0 0 (lsn_msg msgFullBegin 7) False n1 = (x, b, n2)" by (metis prod.exhaust)
  have "wf_store (enStore (ndEng ?n))" using inv_wf [OF i] by (simp add: n SetReadOnly_def)
  from promoted_node_emptied [OF this p(1) m] have "store_abs (enStore (ndEng n2)) = Map.empty" by simp
  moreover have "store_abs (enStore (ndEng n1)) [] = Some ([3], 0)"
    using i by (simp add: p(2) SetReadOnly_def eng_inv_def record_effect_def set_record_def)
  ultimately show ?thesis using p(1) m by blast
qed

end
