(* ===== verification/Server.thy ===== *)
theory Server
  imports Wire_Command Engine_Durable
begin

text \<open>
  \<^verbatim>\<open>internal/server\<close>: the dispatcher (\<^verbatim>\<open>dispatch.go\<close>), one client connection (\<^verbatim>\<open>conn.go\<close>) and the
  admission of connections (\<^verbatim>\<open>server.go\<close>). One turn of the read loop and one turn of the writer goroutine are
  functions on the server and the connection; a connection's life is any interleaving of them. The worker
  pool runs the same turn with \<^verbatim>\<open>execute\<close> on another goroutine while the connection waits.
  What a request takes from outside is an argument, the environment.
\<close>

section \<open>The environment of a request\<close>

datatype srv_error = SrvProto proto_error | SrvEngine eng_error | SrvCommit | SrvStats

record ServerConfig =
  scMaxValueLen :: int
  scOutputBufferLimit :: int
  scMaxConns :: nat

text \<open>
  The clock readings; the creation time of a snapshot; what the log writer and the other goroutines did to the engine
  while a write waited for its commit; the STATS document, if it can be rendered; the text of an error; and the
  handler of replication connections, if there is one: given the frame, the unread input and the engine it returns whether it keeps
  the connection, the input it left, the bytes it wrote and the engine.
\<close>

record Env =
  evClock :: Clock
  evCreated :: u64
  evWait :: "Engine \<Rightarrow> Engine"
  evStats :: "Engine \<Rightarrow> bytes option"
  evText :: "srv_error \<Rightarrow> bytes"
  evRepl :: "(Frame \<Rightarrow> bytes list \<Rightarrow> Engine \<Rightarrow> bool \<times> bytes list \<times> bytes \<times> Engine) option"

definition str_bytes :: "string \<Rightarrow> bytes" where
  "str_bytes s = map (\<lambda>c. of_char c) s"

section \<open>Dispatch\<close>

definition respond :: "bytes \<Rightarrow> Frame \<Rightarrow> u8 \<Rightarrow> bytes \<Rightarrow> bytes" where
  "respond dst frame status body =
     WriteFrame dst (zeroHeader\<lparr>hVersion := ProtoVersion, hCode := status, hRequestID := hRequestID (fHeader frame)\<rparr>) body"

definition respondErr :: "bytes \<Rightarrow> Frame \<Rightarrow> u8 \<Rightarrow> bytes \<Rightarrow> bytes" where
  "respondErr dst frame status msg = respond dst frame status (EncodeErrorBody [] msg)"

definition mutationError :: "Env \<Rightarrow> bytes \<Rightarrow> Frame \<Rightarrow> srv_error \<Rightarrow> bytes" where
  "mutationError ev dst frame err =
     (if err = SrvEngine ErrReadOnly then respondErr dst frame StatusReadOnly (str_bytes ''this node is a read-only replica'')
      else if err = SrvEngine ErrOOM then respondErr dst frame StatusOOM (str_bytes ''memory limit reached'')
      else if err = SrvEngine ErrClosed then respondErr dst frame StatusInternal (str_bytes ''server is shutting down'')
      else respondErr dst frame StatusInternal (evText ev err))"

text \<open>
  The return of a write: an error of the engine, or the outcome of the commit after the wait. The value \<open>None\<close> means that
  the commit is still pending and the call has not returned.
\<close>

definition returned :: "Env \<Rightarrow> (eng_error + bool \<times> u64) \<times> Engine \<Rightarrow> ((srv_error + bool) \<times> Engine) option" where
  "returned ev = (\<lambda>(r, e). case r of
       Inl x \<Rightarrow> Some (Inl (SrvEngine x), e)
     | Inr (b, lsn) \<Rightarrow>
         (let e = evWait ev e
          in case commit_Wait lsn e of
               None \<Rightarrow> None
             | Some ok \<Rightarrow> Some (if ok then Inr b else Inl SrvCommit, e)))"

definition exec_Get :: "Env \<Rightarrow> Frame \<Rightarrow> Command \<Rightarrow> bytes \<Rightarrow> Engine \<Rightarrow> bytes \<times> Engine" where
  "exec_Get ev frame cmd dst e =
     (let ((v, ok), e) = eng_Get (cKey cmd) (ckMs (evClock ev)) (ckMono (evClock ev)) e
      in (if \<not> ok then respond dst frame StatusNotFound [] else respond dst frame StatusOK (EncodeValueBody [] v), e))"

definition exec_Set :: "ServerConfig \<Rightarrow> Env \<Rightarrow> Frame \<Rightarrow> Command \<Rightarrow> bytes \<Rightarrow> Engine \<Rightarrow> (bytes \<times> Engine) option" where
  "exec_Set cfg ev frame cmd dst e =
     (if int (length (cValue cmd)) > scMaxValueLen cfg
      then Some (respondErr dst frame StatusTooLarge (str_bytes ''value exceeds max-value-len''), e)
      else case returned ev (eng_Set (evClock ev) (cKey cmd) (cValue cmd) (cTTLMillis cmd) e) of
             None \<Rightarrow> None
           | Some (Inr _, e) \<Rightarrow> Some (respond dst frame StatusOK [], e)
           | Some (Inl err, e) \<Rightarrow>
               Some (if err = SrvEngine ErrOOM
                     then respondErr dst frame StatusOOM (str_bytes ''memory limit reached under the current policy'')
                     else if err = SrvEngine ErrReadOnly
                     then respondErr dst frame StatusReadOnly (str_bytes ''this node is a read-only replica'')
                     else respondErr dst frame StatusInternal (evText ev err), e))"

text \<open>\<^verbatim>\<open>DELETE\<close> and \<^verbatim>\<open>EXPIRE\<close> answer alike.\<close>

definition exec_Existing :: "Env \<Rightarrow> Frame \<Rightarrow> bytes \<Rightarrow> (eng_error + bool \<times> u64) \<times> Engine \<Rightarrow> (bytes \<times> Engine) option" where
  "exec_Existing ev frame dst r =
     (case returned ev r of
        None \<Rightarrow> None
      | Some (Inl err, e) \<Rightarrow> Some (mutationError ev dst frame err, e)
      | Some (Inr ok, e) \<Rightarrow> Some (if \<not> ok then respond dst frame StatusNotFound [] else respond dst frame StatusOK [], e))"

definition exec_Keys :: "Env \<Rightarrow> Frame \<Rightarrow> Command \<Rightarrow> bytes \<Rightarrow> Engine \<Rightarrow> bytes" where
  "exec_Keys ev frame cmd dst e =
     (let limit = int (unat (cLimit cmd));
          limit = (if limit \<le> 0 \<or> limit > 10000 then 10000 else limit)
      in respond dst frame StatusOK (EncodeKeysBody [] (eng_Keys (cKey cmd) limit (ckMs (evClock ev)) e)))"

definition isReplOpcode :: "u8 \<Rightarrow> bool" where
  "isReplOpcode op \<longleftrightarrow> op = OpReplConf \<or> op = OpSync \<or> op = OpReplAck \<or> op = OpPromote"

definition needs_key :: "u8 \<Rightarrow> bool" where
  "needs_key op \<longleftrightarrow> op = OpGet \<or> op = OpSet \<or> op = OpDelete \<or> op = OpExists \<or> op = OpExpire \<or> op = OpTTL"

definition dispatch :: "ServerConfig \<Rightarrow> Env \<Rightarrow> Frame \<Rightarrow> Command \<Rightarrow> bytes \<Rightarrow> Engine \<Rightarrow> (bytes \<times> Engine) option" where
  "dispatch cfg ev frame cmd dst e =
     (let op = hCode (fHeader frame); ck = evClock ev
      in if needs_key op \<and> cKey cmd = [] then Some (respondErr dst frame StatusBadRequest (str_bytes ''empty key''), e)
      else if op = OpPing then Some (respond dst frame StatusOK [], e)
      else if op = OpGet then Some (exec_Get ev frame cmd dst e)
      else if op = OpSet then exec_Set cfg ev frame cmd dst e
      else if op = OpDelete then exec_Existing ev frame dst (eng_Delete ck (cKey cmd) e)
      else if op = OpExists then
        (let (b, e) = eng_Exists (cKey cmd) (ckMs ck) (ckMono ck) e in Some (respond dst frame StatusOK (EncodeBoolBody [] b), e))
      else if op = OpExpire then exec_Existing ev frame dst (eng_Expire ck (cKey cmd) (cTTLMillis cmd) e)
      else if op = OpTTL then
        (let ((ms, ok), e) = eng_TTL (cKey cmd) (ckMs ck) (ckMono ck) e
         in Some (if \<not> ok then respond dst frame StatusNotFound [] else respond dst frame StatusOK (EncodeTTLBody [] ms), e))
      else if op = OpKeys then Some (exec_Keys ev frame cmd dst e, e)
      else if op = OpStats then
        (case evStats ev e of
           None \<Rightarrow> Some (respondErr dst frame StatusInternal (evText ev SrvStats), e)
         | Some b \<Rightarrow> Some (respond dst frame StatusOK (EncodeValueBody [] b), e))
      else if op = OpFlush then
        (case eng_Flush (evCreated ev) (ckMs ck) e of
           (Some x, e) \<Rightarrow> Some (mutationError ev dst frame (SrvEngine x), e)
         | (None, e) \<Rightarrow> Some (respond dst frame StatusOK [], e))
      else if op = OpSnapshot then
        (if enReadOnly e then Some (respondErr dst frame StatusReadOnly (str_bytes ''this node is a read-only replica''), e)
         else case eng_Snapshot (evCreated ev) (ckMs ck) e of
                (Inl x, e) \<Rightarrow> Some (respondErr dst frame StatusInternal (evText ev (SrvEngine x)), e)
              | (Inr res, e) \<Rightarrow> Some (respond dst frame StatusOK (EncodeValueBody [] (str_bytes (srPath res))), e))
      else if isReplOpcode op then
        Some (if evRepl ev = None then respondErr dst frame StatusBadRequest (str_bytes ''replication is not enabled on this node'')
              else respondErr dst frame StatusInternal (str_bytes ''replication frame reached the normal dispatcher''), e)
      else Some (respondErr dst frame StatusBadRequest (str_bytes ''unknown opcode''), e))"

definition execute :: "ServerConfig \<Rightarrow> Env \<Rightarrow> Frame \<Rightarrow> bytes \<Rightarrow> Engine \<Rightarrow> (bytes \<times> Engine) option" where
  "execute cfg ev frame dst e =
     (case DecodeCommand (hCode (fHeader frame)) (fBody frame) of
        Inl err \<Rightarrow>
          Some (if err = ErrUnknownOpcode then respondErr dst frame StatusBadRequest (str_bytes ''unknown opcode'')
                else if err = ErrValueTooLong \<or> err = ErrKeyTooLong then respondErr dst frame StatusTooLarge (evText ev (SrvProto err))
                else respondErr dst frame StatusProtocolError (evText ev (SrvProto err)), e)
      | Inr cmd \<Rightarrow> dispatch cfg ev frame cmd dst e)"

section \<open>Connections\<close>

datatype close_reason =
    ClientClosed | ProtocolClosed proto_error | IdleTimeout | MidFrame | ReadFailed | OutputFull | WriteFailed | ReadLoopExited | ShuttingDown

text \<open>
  \<open>cnIn\<close> is what the client sends until it closes its side, in the pieces in which it arrives; \<open>cnSent\<close> is what was written to
  the socket.
\<close>

record conn =
  cnId :: u64
  cnIn :: "bytes list"
  cnOut :: "bytes list"
  cnOutSize :: int
  cnSent :: bytes
  cnClosed :: "close_reason option"
  cnHijacked :: bool
  cnRequests :: u64

record Server =
  svCfg :: ServerConfig
  svEng :: Engine
  svMaxFrame :: int
  svConns :: "u64 list"
  svNextID :: u64
  svSlots :: nat
  svShutdown :: bool
  svTotalConns :: u64
  svTotalRequests :: u64
  svRejectedConns :: u64
  svProtocolErrors :: u64
  svOutputOverflows :: u64
  svTimeouts :: u64

abbreviation outQueueCap :: nat where "outQueueCap \<equiv> 64"

definition server_New :: "ServerConfig \<Rightarrow> Engine \<Rightarrow> Server" where
  "server_New cfg e =
     (let maxFrame = scMaxValueLen cfg + int MaxKeyLen + 64;
          maxFrame = (if maxFrame > int MaxFrameLen then int MaxFrameLen else maxFrame)
      in \<lparr>svCfg = cfg, svEng = e, svMaxFrame = maxFrame, svConns = [], svNextID = 0, svSlots = 0, svShutdown = False, svTotalConns = 0,
          svTotalRequests = 0, svRejectedConns = 0, svProtocolErrors = 0, svOutputOverflows = 0, svTimeouts = 0\<rparr>)"

definition newConn :: "u64 \<Rightarrow> bytes list \<Rightarrow> conn" where
  "newConn i input = \<lparr>cnId = i, cnIn = input, cnOut = [], cnOutSize = 0, cnSent = [], cnClosed = None, cnHijacked = False, cnRequests = 0\<rparr>"

text \<open>One accepted socket: \<open>None\<close> when the limit on connections is reached and the socket is closed at once.\<close>

definition accept_conn :: "bytes list \<Rightarrow> Server \<Rightarrow> conn option \<times> Server" where
  "accept_conn input s =
     (if svSlots s < scMaxConns (svCfg s)
      then let i = svNextID s + 1
           in (Some (newConn i input),
               s\<lparr>svSlots := svSlots s + 1, svNextID := i, svConns := svConns s @ [i], svTotalConns := svTotalConns s + 1\<rparr>)
      else (None, s\<lparr>svRejectedConns := svRejectedConns s + 1\<rparr>))"

text \<open>The end of a connection's goroutine gives its slot back.\<close>

definition release_slot :: "Server \<Rightarrow> Server" where
  "release_slot s = s\<lparr>svSlots := svSlots s - 1\<rparr>"

definition removeConn :: "conn \<Rightarrow> Server \<Rightarrow> Server" where
  "removeConn c s = s\<lparr>svConns := filter (\<lambda>i. i \<noteq> cnId c) (svConns s)\<rparr>"

definition close_conn :: "close_reason \<Rightarrow> Server \<Rightarrow> conn \<Rightarrow> Server \<times> conn" where
  "close_conn reason s c =
     (if cnClosed c \<noteq> None then (s, c) else (removeConn c s, c\<lparr>cnClosed := Some reason\<rparr>))"

definition handleReadError :: "Env \<Rightarrow> read_error \<Rightarrow> Frame \<Rightarrow> Server \<Rightarrow> conn \<Rightarrow> Server \<times> conn" where
  "handleReadError ev err frame s c =
     (case err of
        IOErr EOF \<Rightarrow> close_conn ClientClosed s c
      | IOErr ErrUnexpectedEOF \<Rightarrow> close_conn MidFrame s c
      | IOErr _ \<Rightarrow> close_conn ReadFailed s c
      | ProtoErr x \<Rightarrow>
          (if is_ErrProtocol x
           then let resp = respondErr [] frame StatusProtocolError (evText ev (SrvProto x))
                in close_conn (ProtocolClosed x) (s\<lparr>svProtocolErrors := svProtocolErrors s + 1\<rparr>) (c\<lparr>cnSent := cnSent c @ resp\<rparr>)
           else close_conn ReadFailed s c))"

definition enqueue :: "bytes \<Rightarrow> Server \<Rightarrow> conn \<Rightarrow> bool \<times> Server \<times> conn" where
  "enqueue resp s c =
     (if cnOutSize c + int (length resp) > scOutputBufferLimit (svCfg s)
      then (False, s\<lparr>svOutputOverflows := svOutputOverflows s + 1\<rparr>, c)
      else if length (cnOut c) < outQueueCap
      then (True, s, c\<lparr>cnOut := cnOut c @ [resp], cnOutSize := cnOutSize c + int (length resp)\<rparr>)
      else if cnClosed c \<noteq> None then (False, s, c)
      else (False, s\<lparr>svOutputOverflows := svOutputOverflows s + 1\<rparr>, c))"

text \<open>One iteration of the read loop; \<open>None\<close> while a write waits for its commit.\<close>

definition serve_turn :: "Env \<Rightarrow> Server \<Rightarrow> conn \<Rightarrow> (Server \<times> conn) option" where
  "serve_turn ev s c =
     (if cnHijacked c then Some (s, c)
      else if cnClosed c \<noteq> None \<or> svShutdown s then Some (close_conn ReadLoopExited s c)
      else case ReadFrame (cnIn c) (word_of_int (svMaxFrame s)) of
             (frame, Some err, rest) \<Rightarrow> Some (handleReadError ev err frame s (c\<lparr>cnIn := rest\<rparr>))
           | (frame, None, rest) \<Rightarrow>
               (let c = c\<lparr>cnIn := rest, cnRequests := cnRequests c + 1\<rparr>;
                    s = s\<lparr>svTotalRequests := svTotalRequests s + 1\<rparr>
                in case (if isReplOpcode (hCode (fHeader frame)) then evRepl ev else None) of
                     Some h \<Rightarrow>
                       (let (taken, rest, out, e) = h frame rest (svEng s);
                            c = c\<lparr>cnIn := rest, cnSent := cnSent c @ out\<rparr>;
                            s = s\<lparr>svEng := e\<rparr>
                        in Some (if taken then (removeConn c s, c\<lparr>cnHijacked := True\<rparr>) else (s, c)))
                   | None \<Rightarrow>
                       (case execute (svCfg s) ev frame [] (svEng s) of
                          None \<Rightarrow> None
                        | Some (resp, e) \<Rightarrow>
                            (let s = s\<lparr>svEng := e\<rparr>
                             in if NoReply frame then Some (s, c)
                                else let (ok, s, c) = enqueue resp s c
                                     in Some (if ok then (s, c) else close_conn OutputFull s c)))))"

text \<open>
  One turn of the writer goroutine: it takes what is queued and flushes it. The first argument is the outcome of the writes:
  \<open>None\<close> for success, \<open>Some n\<close> when the socket failed after \<open>n\<close> bytes.
\<close>

definition write_turn :: "nat option \<Rightarrow> Server \<Rightarrow> conn \<Rightarrow> Server \<times> conn" where
  "write_turn failed s c =
     (if cnHijacked c \<or> cnClosed c \<noteq> None then (s, c)
      else let out = concat (cnOut c); c = c\<lparr>cnOut := [], cnOutSize := 0\<rparr>
           in case failed of
                None \<Rightarrow> (s, c\<lparr>cnSent := cnSent c @ out\<rparr>)
              | Some n \<Rightarrow> close_conn WriteFailed s (c\<lparr>cnSent := cnSent c @ take n out\<rparr>))"

text \<open>The read deadline passed with no request.\<close>

definition timeout_turn :: "Server \<Rightarrow> conn \<Rightarrow> Server \<times> conn" where
  "timeout_turn s c = close_conn IdleTimeout (s\<lparr>svTimeouts := svTimeouts s + 1\<rparr>) c"

text \<open>\<^verbatim>\<open>Shutdown\<close> on the connections that are still registered; a second call does nothing.\<close>

definition server_Shutdown :: "conn list \<Rightarrow> Server \<Rightarrow> Server \<times> conn list" where
  "server_Shutdown conns s =
     (if svShutdown s then (s, conns)
      else fold (\<lambda>c (s, cs). let (s, c) = close_conn ShuttingDown s c in (s, cs @ [c])) conns (s\<lparr>svShutdown := True\<rparr>, []))"

end
