(* ===== verification/Server_Spec.thy ===== *)
theory Server_Spec
  imports Server
begin

text \<open>
  What a client of the server can rely on: every request is answered by one frame with its request id, in the order of
  the requests, and the queue of responses is bounded; a value that was set is read back. And where the code is not what the
  protocol says: a fatal status does not close the connection, and a value that is accepted can be too large to be sent back.
\<close>

section \<open>Every outcome is a response\<close>

definition answers :: "Frame \<Rightarrow> bytes \<Rightarrow> bool" where
  "answers f r \<longleftrightarrow> (\<exists>st body. r = respond [] f st body)"

lemma answers_respond [simp, intro]: "answers f (respond [] f st body)" "answers f (respondErr [] f st msg)" "answers f (mutationError ev [] f err)"
  by (auto simp: answers_def respondErr_def mutationError_def)

lemma exec_answers:
  "answers f (fst (exec_Get ev f cmd [] e))" "exec_Set cfg ev f cmd [] e = Some (r, e') \<Longrightarrow> answers f r"
  "exec_Existing ev f [] q = Some (r, e') \<Longrightarrow> answers f r" "answers f (exec_Keys ev f cmd [] e)"
  by (auto simp: exec_Get_def exec_Set_def exec_Existing_def exec_Keys_def Let_def split_beta split: if_splits option.splits sum.splits prod.splits)

lemma dispatch_answers: "dispatch cfg ev f cmd [] e = Some (r, e') \<Longrightarrow> answers f r"
  using exec_answers(1) [of f ev cmd e] exec_answers(2) [of cfg ev f cmd e r e'] exec_answers(3) [of ev f _ r e'] exec_answers(4) [of f ev cmd e]
  by (auto simp: dispatch_def Let_def split: if_splits option.splits sum.splits prod.splits)

lemma execute_answers: "execute cfg ev f [] e = Some (r, e') \<Longrightarrow> answers f r"
  using dispatch_answers by (auto simp: execute_def split: sum.splits if_splits)

section \<open>A connection\<close>

text \<open>
  The life of a connection that is not handed to replication: turns of its read loop and of its writer, in any order, while other connections
  change the server. The list has the requests that were executed.
\<close>

definition turn_frames :: "Server \<Rightarrow> conn \<Rightarrow> Frame list" where
  "turn_frames s c = (case ReadFrame (cnIn c) (word_of_int (svMaxFrame s)) of (f, None, _) \<Rightarrow> [f] | _ \<Rightarrow> [])"

inductive conn_reach :: "Server \<Rightarrow> conn \<Rightarrow> Frame list \<Rightarrow> Server \<Rightarrow> conn \<Rightarrow> bool" for s0 c0 where
  start: "conn_reach s0 c0 [] s0 c0"
| read: "conn_reach s0 c0 fs s c \<Longrightarrow> cnClosed c = None \<Longrightarrow> \<not> svShutdown s \<Longrightarrow> list_all (\<lambda>f. isReplOpcode (hCode (fHeader f)) \<longrightarrow> evRepl ev = None) (turn_frames s c)
    \<Longrightarrow> serve_turn ev s c = Some (s', c') \<Longrightarrow> conn_reach s0 c0 (fs @ turn_frames s c) s' c'"
| flushed: "conn_reach s0 c0 fs s c \<Longrightarrow> write_turn failed s c = (s', c') \<Longrightarrow> conn_reach s0 c0 fs s' c'"
| other: "conn_reach s0 c0 fs s c \<Longrightarrow> svCfg s' = svCfg s \<Longrightarrow> svMaxFrame s' = svMaxFrame s \<Longrightarrow> conn_reach s0 c0 fs s' c"

definition frame_bytes :: "Frame \<Rightarrow> bytes" where
  "frame_bytes f = EncodeHeader (fHeader f) @ fBody f"

definition conn_inv :: "ServerConfig \<Rightarrow> bytes \<Rightarrow> Frame list \<Rightarrow> conn \<Rightarrow> bool" where
  "conn_inv cfg input fs c \<longleftrightarrow> cnClosed c = None \<longrightarrow> \<not> cnHijacked c \<and> input = concat (map frame_bytes fs) @ concat (cnIn c)
     \<and> (\<exists>rs. cnSent c @ concat (cnOut c) = concat rs \<and> list_all2 answers (filter (\<lambda>f. \<not> NoReply f) fs) rs)
     \<and> length (cnOut c) \<le> outQueueCap \<and> cnOutSize c = int (length (concat (cnOut c))) \<and> cnOutSize c \<le> max 0 (scOutputBufferLimit cfg)"

lemma conn_invD:
  assumes "conn_inv cfg input fs c" "cnClosed c = None"
  obtains rs where "\<not> cnHijacked c" "input = concat (map frame_bytes fs) @ concat (cnIn c)" "cnSent c @ concat (cnOut c) = concat rs"
    "list_all2 answers (filter (\<lambda>f. \<not> NoReply f) fs) rs" "length (cnOut c) \<le> outQueueCap" "cnOutSize c = int (length (concat (cnOut c)))"
    "cnOutSize c \<le> max 0 (scOutputBufferLimit cfg)"
  using assms by (auto simp: conn_inv_def)

lemma conn_invI:
  assumes "cnClosed c = None \<Longrightarrow> \<not> cnHijacked c" "cnClosed c = None \<Longrightarrow> input = concat (map frame_bytes fs) @ concat (cnIn c)"
    "cnClosed c = None \<Longrightarrow> cnSent c @ concat (cnOut c) = concat rs" "cnClosed c = None \<Longrightarrow> list_all2 answers (filter (\<lambda>f. \<not> NoReply f) fs) rs"
    "cnClosed c = None \<Longrightarrow> length (cnOut c) \<le> outQueueCap" "cnClosed c = None \<Longrightarrow> cnOutSize c = int (length (concat (cnOut c)))"
    "cnClosed c = None \<Longrightarrow> cnOutSize c \<le> max 0 (scOutputBufferLimit cfg)"
  shows "conn_inv cfg input fs c"
  using assms unfolding conn_inv_def by blast

lemma close_conn_closed [simp]: "cnClosed (snd (close_conn why s c)) \<noteq> None" "svCfg (fst (close_conn why s c)) = svCfg s"
  "svMaxFrame (fst (close_conn why s c)) = svMaxFrame s"
  by (simp_all add: close_conn_def removeConn_def)

lemma handleReadError_closed: "cnClosed (snd (handleReadError ev err f s c)) \<noteq> None" "svCfg (fst (handleReadError ev err f s c)) = svCfg s"
  by (auto simp: handleReadError_def Let_def simp del: not_None_eq split: read_error.splits io_error.splits)

lemma conn_inv_closed: "cnClosed c \<noteq> None \<Longrightarrow> conn_inv cfg input fs c"
  unfolding conn_inv_def by blast

lemma enqueue_cases:
  assumes "enqueue r s c = (ok, s', c')"
  shows "svCfg s' = svCfg s" "\<not> ok \<Longrightarrow> c' = c"
    "ok \<Longrightarrow> c' = c\<lparr>cnOut := cnOut c @ [r], cnOutSize := cnOutSize c + int (length r)\<rparr> \<and> length (cnOut c) < outQueueCap
      \<and> cnOutSize c + int (length r) \<le> scOutputBufferLimit (svCfg s)"
  using assms by (auto simp: enqueue_def split: if_splits)

text \<open>A turn that reads a request and does not hand it to replication.\<close>

lemma serve_turn_request:
  assumes "\<not> cnHijacked c" "cnClosed c = None" "\<not> svShutdown s" "ReadFrame (cnIn c) (word_of_int (svMaxFrame s)) = (f, None, rest)"
    and "isReplOpcode (hCode (fHeader f)) \<longrightarrow> evRepl ev = None"
  shows "serve_turn ev s c = (case execute (svCfg s) ev f [] (svEng s) of
      None \<Rightarrow> None
    | Some (resp, e) \<Rightarrow>
        (let s1 = s\<lparr>svTotalRequests := svTotalRequests s + 1, svEng := e\<rparr>; c1 = c\<lparr>cnIn := rest, cnRequests := cnRequests c + 1\<rparr>
         in if NoReply f then Some (s1, c1)
            else let (ok, s2, c2) = enqueue resp s1 c1 in Some (if ok then (s2, c2) else close_conn OutputFull s2 c2)))"
  using assms by (auto simp: serve_turn_def Let_def split: option.splits)

lemma serve_turn_inv:
  assumes "conn_inv (svCfg s) input fs c" "cnClosed c = None" "\<not> svShutdown s"
    and "list_all (\<lambda>f. isReplOpcode (hCode (fHeader f)) \<longrightarrow> evRepl ev = None) (turn_frames s c)" "serve_turn ev s c = Some (s', c')"
  shows "conn_inv (svCfg s) input (fs @ turn_frames s c) c' \<and> svCfg s' = svCfg s"
proof -
  obtain rs where i: "\<not> cnHijacked c" "input = concat (map frame_bytes fs) @ concat (cnIn c)" "cnSent c @ concat (cnOut c) = concat rs"
    "list_all2 answers (filter (\<lambda>f. \<not> NoReply f) fs) rs" "length (cnOut c) \<le> outQueueCap" "cnOutSize c = int (length (concat (cnOut c)))"
    "cnOutSize c \<le> max 0 (scOutputBufferLimit (svCfg s))"
    by (rule conn_invD [OF assms(1,2)])
  obtain f err rest where r: "ReadFrame (cnIn c) (word_of_int (svMaxFrame s)) = (f, err, rest)" by (metis prod.exhaust)
  show ?thesis
  proof (cases err)
    case (Some x)
    then have "(s', c') = handleReadError ev x f s (c\<lparr>cnIn := rest\<rparr>)" using assms(2,3,5) i(1) r by (simp add: serve_turn_def)
    then show ?thesis using handleReadError_closed [of ev x f s "c\<lparr>cnIn := rest\<rparr>"] conn_inv_closed by (metis fst_conv snd_conv)
  next
    case None
    note r = r [unfolded None]
    have t: "turn_frames s c = [f]" by (simp add: turn_frames_def r)
    have repl: "isReplOpcode (hCode (fHeader f)) \<longrightarrow> evRepl ev = None" using assms(4) by (simp add: t)
    note T = serve_turn_request [OF i(1) assms(2,3) r repl]
    have input: "input = concat (map frame_bytes (fs @ [f])) @ concat rest" using ReadFrame_exact [OF r] i(2) by (simp add: frame_bytes_def)
    obtain resp e where x: "execute (svCfg s) ev f [] (svEng s) = Some (resp, e)" using T assms(5) by (auto split: option.splits)
    note a = execute_answers [OF x]
    let ?s1 = "s\<lparr>svTotalRequests := svTotalRequests s + 1, svEng := e\<rparr>" and ?c1 = "c\<lparr>cnIn := rest, cnRequests := cnRequests c + 1\<rparr>"
    obtain ok s2 c2 where q: "enqueue resp ?s1 ?c1 = (ok, s2, c2)" by (metis prod.exhaust)
    note E = enqueue_cases [OF q]
    consider "NoReply f" | "\<not> NoReply f" "ok" | "\<not> NoReply f" "\<not> ok" by blast
    then show ?thesis
    proof cases
      case 1
      then have "s' = ?s1" "c' = ?c1" using T assms(5) x by simp_all
      then show ?thesis using i input 1 by (intro conjI conn_invI [of _ _ _ rs]) (simp_all add: t)
    next
      case 2
      then have c: "s' = s2" "c' = ?c1\<lparr>cnOut := cnOut c @ [resp], cnOutSize := cnOutSize c + int (length resp)\<rparr>"
        using T assms(5) x q E(3) by simp_all
      have "list_all2 answers (filter (\<lambda>f. \<not> NoReply f) (fs @ [f])) (rs @ [resp])" using i(4) a 2 by (simp add: list_all2_appendI)
      then show ?thesis using i input c E 2 by (intro conjI conn_invI [of _ _ _ "rs @ [resp]"]) (simp_all add: t)
    next
      case 3
      then have "(s', c') = close_conn OutputFull s2 c2" using T assms(5) x q by simp
      then have "cnClosed c' \<noteq> None" "svCfg s' = svCfg s2" using close_conn_closed [of OutputFull s2 c2] by (metis fst_conv snd_conv)+
      then show ?thesis using E(1) conn_inv_closed by simp
    qed
  qed
qed

lemma write_turn_inv:
  assumes "conn_inv cfg input fs c" "write_turn failed s c = (s', c')"
  shows "conn_inv cfg input fs c'" "svCfg s' = svCfg s"
proof -
  show "svCfg s' = svCfg s"
    using assms(2) by (auto simp: write_turn_def Let_def close_conn_def removeConn_def split: if_splits option.splits)
  show "conn_inv cfg input fs c'"
  proof (cases "cnHijacked c \<or> cnClosed c \<noteq> None")
    case True
    then have "c' = c" using assms(2) by (auto simp: write_turn_def)
    then show ?thesis using assms(1) by simp
  next
    case False
    then have o: "cnClosed c = None" by simp
    show ?thesis
    proof (cases failed)
      case None
      then have "c' = c\<lparr>cnOut := [], cnOutSize := 0, cnSent := cnSent c @ concat (cnOut c)\<rparr>" using assms(2) False by (auto simp: write_turn_def)
      then show ?thesis using assms(1) o by (auto simp: conn_inv_def)
    next
      case (Some n)
      then have "cnClosed c' \<noteq> None" using assms(2) False by (auto simp: write_turn_def Let_def close_conn_def)
      then show ?thesis by (rule conn_inv_closed)
    qed
  qed
qed

lemma conn_reach_inv:
  assumes "conn_reach s0 (newConn i chunks) fs s c"
  shows "conn_inv (svCfg s0) (concat chunks) fs c \<and> svCfg s = svCfg s0"
  using assms
proof induction
  case start
  then show ?case by (auto simp: conn_inv_def newConn_def)
next
  case (read fs s c ev s' c')
  then show ?case using serve_turn_inv [of s "concat chunks" fs c ev s' c'] by simp
next
  case (flushed fs s c failed s' c')
  then show ?case using write_turn_inv [of "svCfg s0" "concat chunks" fs c failed s s' c'] by simp
next
  case (other fs s c s')
  then show ?case by simp
qed

text \<open>
  C25. Take any life of a connection that is not used for replication, with any input in any pieces, any interleaving of the read loop with the
  writer and with other connections, that has not been closed yet. The input so far is exactly the frames that were executed. What was written to the
  socket and what is queued are exactly the responses, one for each request that asked for one, in the order of the requests and each with the
  request id of its request. At most 64 responses and at most the configured number of bytes are queued.
\<close>

theorem conn_responses:
  assumes "conn_reach s0 (newConn i chunks) fs s c" "cnClosed c = None"
  shows "concat chunks = concat (map frame_bytes fs) @ concat (cnIn c)
    \<and> (\<exists>rs. cnSent c @ concat (cnOut c) = concat rs \<and> list_all2 answers (filter (\<lambda>f. \<not> NoReply f) fs) rs)
    \<and> length (cnOut c) \<le> outQueueCap \<and> int (length (concat (cnOut c))) \<le> max 0 (scOutputBufferLimit (svCfg s0))"
proof -
  have "conn_inv (svCfg s0) (concat chunks) fs c" using conn_reach_inv [OF assms(1)] by blast
  then show ?thesis using assms(2) by (elim conn_invD [OF _ assms(2)]) auto
qed

section \<open>Requests of a client\<close>

definition req_header :: "u32 \<Rightarrow> Command \<Rightarrow> Header" where
  "req_header i cmd = zeroHeader\<lparr>hVersion := ProtoVersion, hCode := cOp cmd, hRequestID := i\<rparr>"

definition request :: "u32 \<Rightarrow> Command \<Rightarrow> bytes" where
  "request i cmd = WriteFrame [] (req_header i cmd) (EncodeCommand [] cmd)"

definition req_frame :: "u32 \<Rightarrow> Command \<Rightarrow> Frame" where
  "req_frame i cmd = \<lparr>fHeader = (req_header i cmd)\<lparr>hBodyLen := word_of_nat (length (EncodeCommand [] cmd))\<rparr>, fBody = EncodeCommand [] cmd\<rparr>"

abbreviation set_cmd :: "bytes \<Rightarrow> bytes \<Rightarrow> u64 \<Rightarrow> Command" where
  "set_cmd k v ttl \<equiv> (zeroCommand OpSet)\<lparr>cKey := k, cValue := v, cTTLMillis := ttl\<rparr>"

abbreviation get_cmd :: "bytes \<Rightarrow> Command" where
  "get_cmd k \<equiv> (zeroCommand OpGet)\<lparr>cKey := k\<rparr>"

lemma req_frame_fields [simp]:
  "hCode (fHeader (req_frame i cmd)) = cOp cmd" "hRequestID (fHeader (req_frame i cmd)) = i" "fBody (req_frame i cmd) = EncodeCommand [] cmd"
  "\<not> NoReply (req_frame i cmd)"
  by (simp_all add: req_frame_def req_header_def zeroHeader_def NoReply_def)

lemma read_request:
  assumes "concat chunks = request i cmd @ rest" "length (EncodeCommand [] cmd) \<le> effMaxBody m"
  shows "\<exists>r. ReadFrame chunks m = (req_frame i cmd, None, r) \<and> concat r = rest"
  using ReadFrame_WriteFrame [of "req_header i cmd" "EncodeCommand [] cmd" m chunks rest] assms
  by (simp add: request_def req_frame_def req_header_def zeroHeader_def)

lemma zeroCommand_op [simp]: "cOp (zeroCommand op) = op"
  by (simp add: zeroCommand_def)

lemma request_bodies:
  assumes "length k \<le> MaxKeyLen" "length v \<le> MaxValueLen"
  shows "DecodeCommand OpSet (EncodeCommand [] (set_cmd k v ttl)) = Inr (set_cmd k v ttl)"
    "DecodeCommand OpGet (EncodeCommand [] (get_cmd k)) = Inr (get_cmd k)"
    "length (EncodeCommand [] (set_cmd k v ttl)) = length k + length v + 14" "length (EncodeCommand [] (get_cmd k)) = length k + 2"
  using decode_encode_set [OF assms, of ttl] decode_encode_key [of OpGet k] assms by (simp_all add: EncodeCommand_def)

lemma server_New_limit:
  assumes "0 < scMaxValueLen cfg" "scMaxValueLen cfg \<le> int MaxValueLen"
  shows "effMaxBody (word_of_int (svMaxFrame (server_New cfg e))) = nat (scMaxValueLen cfg) + 65599"
proof -
  obtain m where m: "scMaxValueLen cfg = int m" "0 < m" "m \<le> MaxValueLen" using assms by (metis nat_int_comparison(3) of_nat_0_less_iff pos_int_cases)
  have "svMaxFrame (server_New cfg e) = int (m + 65599)" using m by (simp add: server_New_def Let_def)
  then have "(word_of_int (svMaxFrame (server_New cfg e)) :: u32) = word_of_nat (m + 65599)" by (simp only: of_int_of_nat_eq)
  moreover have "unat (word_of_nat (m + 65599) :: u32) = m + 65599" using m(3) by (simp add: unat_of_nat take_bit_nat_eq_self del: of_nat_add)
  ultimately show ?thesis using m by (simp add: effMaxBody_def flip: unat_eq_zero)
qed

text \<open>One turn on a request whose response fits.\<close>

lemma serve_request:
  assumes "\<not> cnHijacked c" "cnClosed c = None" "\<not> svShutdown s" "concat (cnIn c) = request i cmd @ rest"
    and "length (EncodeCommand [] cmd) \<le> effMaxBody (word_of_int (svMaxFrame s))" "\<not> isReplOpcode (cOp cmd)"
    and "execute (svCfg s) ev (req_frame i cmd) [] (svEng s) = Some (resp, e)"
  shows "\<exists>s1 c1. svCfg s1 = svCfg s \<and> svEng s1 = e \<and> svMaxFrame s1 = svMaxFrame s \<and> svShutdown s1 = svShutdown s
    \<and> concat (cnIn c1) = rest \<and> cnOut c1 = cnOut c \<and> cnOutSize c1 = cnOutSize c \<and> cnSent c1 = cnSent c \<and> cnClosed c1 = None \<and> \<not> cnHijacked c1
    \<and> serve_turn ev s c = (let (ok, s2, c2) = enqueue resp s1 c1 in Some (if ok then (s2, c2) else close_conn OutputFull s2 c2))"
proof -
  obtain r where r: "ReadFrame (cnIn c) (word_of_int (svMaxFrame s)) = (req_frame i cmd, None, r)" "concat r = rest"
    using read_request [OF assms(4,5)] by blast
  let ?s1 = "s\<lparr>svTotalRequests := svTotalRequests s + 1, svEng := e\<rparr>" and ?c1 = "c\<lparr>cnIn := r, cnRequests := cnRequests c + 1\<rparr>"
  show ?thesis
    using assms r(2) serve_turn_request [OF assms(1-3) r(1), of ev] by (intro exI [of _ ?s1] exI [of _ ?c1]) simp
qed

lemma enqueue_fits:
  assumes "cnOutSize c + int (length r) \<le> scOutputBufferLimit (svCfg s)" "length (cnOut c) < outQueueCap"
  shows "enqueue r s c = (True, s, c\<lparr>cnOut := cnOut c @ [r], cnOutSize := cnOutSize c + int (length r)\<rparr>)"
  using assms by (simp add: enqueue_def)

lemma length_respond: "length (respond [] f st body) = 16 + length body"
  by (simp add: respond_def WriteFrame_def)

lemma execute_set:
  assumes "k \<noteq> []" "length k \<le> MaxKeyLen" "int (length v) \<le> scMaxValueLen cfg" "scMaxValueLen cfg \<le> int MaxValueLen"
    and "eng_Set (evClock ev) k v ttl e = (Inr (b, lsn), e1)" "commit_Wait lsn (evWait ev e1) = Some True"
  shows "execute cfg ev (req_frame i (set_cmd k v ttl)) [] e = Some (respond [] (req_frame i (set_cmd k v ttl)) StatusOK [], evWait ev e1)"
  using assms by (simp add: execute_def request_bodies dispatch_def needs_key_def exec_Set_def returned_def Let_def)

lemma execute_get:
  assumes "k \<noteq> []" "length k \<le> MaxKeyLen" "wf_store (enStore e)" "live (ckMs (evClock ev)) (store_abs (enStore e)) k = Some (v, x)"
  shows "\<exists>e'. execute cfg ev (req_frame i (get_cmd k)) [] e = Some (respond [] (req_frame i (get_cmd k)) StatusOK (EncodeValueBody [] v), e')"
proof -
  obtain r s where g: "store_Get k (ckMs (evClock ev)) (ckMono (evClock ev)) (enStore e) = (r, s)" by (metis prod.exhaust)
  have "r = (v, True)" using store_Get_spec(1) [OF assms(3), of k "ckMs (evClock ev)" "ckMono (evClock ev)"] assms(4) g by (simp add: spec_get_def)
  then show ?thesis using assms(1,2) g request_bodies(2) [of k "[]"] by (simp add: execute_def dispatch_def needs_key_def exec_Get_def eng_Get_def Let_def)
qed

section \<open>Set, then get\<close>

text \<open>
  What the write needs of its surroundings: a valid key and value, an engine that accepts writes, a log that is open, and that while the request waits
  the log writer commits the record and nothing else touches the store.
\<close>

definition set_accepted :: "ServerConfig \<Rightarrow> Env \<Rightarrow> bytes \<Rightarrow> bytes \<Rightarrow> u64 \<Rightarrow> Engine \<Rightarrow> bool" where
  "set_accepted cfg ev k v ttl e \<longleftrightarrow> k \<noteq> [] \<and> length k \<le> MaxKeyLen \<and> int (length v) \<le> scMaxValueLen cfg \<and> 0 < scMaxValueLen cfg
     \<and> scMaxValueLen cfg \<le> int MaxValueLen \<and> \<not> enClosed e \<and> \<not> enReadOnly e \<and> store_room 1 (enStore e) \<and> \<not> wwClosed (enWal e) \<and> \<not> wwFatal (enWal e)
     \<and> (let e1 = snd (eng_Set (evClock ev) k v ttl e) in enStore (evWait ev e1) = enStore e1 \<and> commit_Wait (wwNextLSN (enWal e)) (evWait ev e1) = Some True)"

lemma set_turn:
  assumes "set_accepted cfg ev k v ttl e" "concat chunks = request i (set_cmd k v ttl) @ request j (get_cmd k)" "16 \<le> scOutputBufferLimit cfg"
  shows "\<exists>s1 c1. serve_turn ev (server_New cfg e) (newConn n chunks) = Some (s1, c1) \<and> cnOut c1 = [respond [] (req_frame i (set_cmd k v ttl)) StatusOK []]
    \<and> cnOutSize c1 = 16 \<and> cnSent c1 = [] \<and> cnClosed c1 = None \<and> \<not> cnHijacked c1 \<and> \<not> svShutdown s1 \<and> svCfg s1 = cfg
    \<and> concat (cnIn c1) = request j (get_cmd k) \<and> svMaxFrame s1 = svMaxFrame (server_New cfg e) \<and> wf_store (enStore (svEng s1))
    \<and> store_abs (enStore (svEng s1)) k = Some (v, deadline (ckDeadline (evClock ev)) ttl)"
proof -
  let ?s = "server_New cfg e" and ?c = "newConn n chunks" and ?cmd = "set_cmd k v ttl"
  have a: "k \<noteq> []" "length k \<le> MaxKeyLen" "int (length v) \<le> scMaxValueLen cfg" "0 < scMaxValueLen cfg" "scMaxValueLen cfg \<le> int MaxValueLen"
    "\<not> enClosed e" "\<not> enReadOnly e" "store_room (Suc 0) (enStore e)" "\<not> wwClosed (enWal e)" "\<not> wwFatal (enWal e)"
    using assms(1) by (simp_all add: set_accepted_def)
  have lv: "length v \<le> MaxValueLen" using a(3,5) by linarith
  have cost: "cost_fits k v" using a(2) lv by (simp add: cost_fits_def EntryCost_def)
  define e1 where "e1 = snd (eng_Set (evClock ev) k v ttl e)"
  have w: "enStore (evWait ev e1) = enStore e1" "commit_Wait (wwNextLSN (enWal e)) (evWait ev e1) = Some True"
    using assms(1) by (simp_all add: set_accepted_def e1_def Let_def)
  note R = eng_Set_run [OF a(8) cost a(6,7), of "evClock ev" ttl]
  have "fst (Submit (ckWal (evClock ev)) (set_of (evClock ev) k v ttl) (enWal e)) = Inr (wwNextLSN (enWal e))"
    using a(2,9,10) lv by (simp add: Submit_def record_of_def rectype_Valid_def Let_def)
  then have r: "eng_Set (evClock ev) k v ttl e = (Inr (True, wwNextLSN (enWal e)), e1)" using R(1) by (simp add: e1_def prod_eq_iff)
  have x: "execute (svCfg ?s) ev (req_frame i ?cmd) [] (svEng ?s) = Some (respond [] (req_frame i ?cmd) StatusOK [], evWait ev e1)"
    using execute_set [OF a(1-3,5) r w(2), of i] by (simp add: server_New_def)
  have len: "length (EncodeCommand [] ?cmd) \<le> effMaxBody (word_of_int (svMaxFrame ?s))"
    unfolding server_New_limit [OF a(4,5)] request_bodies(3) [OF a(2) lv] using a(2,3) by simp
  obtain s1 c1 where t: "svCfg s1 = cfg" "svEng s1 = evWait ev e1" "svMaxFrame s1 = svMaxFrame ?s" "\<not> svShutdown s1"
    "concat (cnIn c1) = request j (get_cmd k)" "cnOut c1 = []" "cnOutSize c1 = 0" "cnSent c1 = []" "cnClosed c1 = None" "\<not> cnHijacked c1"
    "serve_turn ev ?s ?c = (let (ok, s2, c2) = enqueue (respond [] (req_frame i ?cmd) StatusOK []) s1 c1 in Some (if ok then (s2, c2) else close_conn OutputFull s2 c2))"
    using serve_request [of ?c ?s i ?cmd "request j (get_cmd k)" ev, OF _ _ _ _ len _ x] assms(2) by (auto simp: newConn_def server_New_def isReplOpcode_def)
  have "enqueue (respond [] (req_frame i ?cmd) StatusOK []) s1 c1
      = (True, s1, c1\<lparr>cnOut := [respond [] (req_frame i ?cmd) StatusOK []], cnOutSize := 16\<rparr>)"
    using enqueue_fits [of c1 "respond [] (req_frame i ?cmd) StatusOK []" s1] t assms(3) by (simp add: length_respond)
  then show ?thesis using t w(1) R(3,4) by (simp add: e1_def store_room_def)
qed


section \<open>Where the server departs from the protocol\<close>

text \<open>
  C28. The status \<^verbatim>\<open>PROTOCOL_ERROR\<close> is declared fatal, \<^emph>\<open>the connection must be closed after sending this status\<close>, and that also holds for requests that want no
  reply. But when the body of a well-framed request is malformed the read loop goes on with the next frame: the connection stays open, the error is not counted, and a request
  with the flag that asks for no reply gets no error at all.
\<close>

theorem fatal_status_keeps_connection:
  assumes "\<not> cnHijacked c" "cnClosed c = None" "\<not> svShutdown s" "ReadFrame (cnIn c) (word_of_int (svMaxFrame s)) = (f, None, rest)"
    and "\<not> isReplOpcode (hCode (fHeader f))" "DecodeCommand (hCode (fHeader f)) (fBody f) = Inl err" "err \<notin> {ErrUnknownOpcode, ErrValueTooLong, ErrKeyTooLong}"
    and "length (cnOut c) < outQueueCap" "cnOutSize c + 1040 \<le> scOutputBufferLimit (svCfg s)"
  shows "status_Fatal StatusProtocolError \<and> is_ErrProtocol err \<and> (\<exists>s' c'. serve_turn ev s c = Some (s', c') \<and> cnClosed c' = None \<and> cnIn c' = rest
    \<and> svProtocolErrors s' = svProtocolErrors s \<and> cnSent c' = cnSent c
    \<and> (if NoReply f then cnOut c' = cnOut c else \<exists>body. cnOut c' = cnOut c @ [respond [] f StatusProtocolError body]))"
proof -
  let ?r = "respondErr [] f StatusProtocolError (evText ev (SrvProto err))"
  have x: "execute (svCfg s) ev f [] (svEng s) = Some (?r, svEng s)" using assms(6,7) by (simp add: execute_def)
  have "length ?r \<le> 1040" by (simp add: respondErr_def length_respond EncodeErrorBody_def)
  then have "cnOutSize c + int (length ?r) \<le> scOutputBufferLimit (svCfg s)" using assms(9) by linarith
  then show ?thesis
    using assms(1-8) x serve_turn_request [OF assms(1-4), of ev]
    by (cases "NoReply f") (auto simp: enqueue_fits status_Fatal_def is_ErrProtocol_def respondErr_def)
qed

text \<open>
  C35. A value can be set and then never be read. The limit on values and the limit on a connection's output buffer are independent, and by default the first is 16 MiB and the second 1 MiB.
  A client that sets a value larger than the output buffer is told that it succeeded; when it then gets the value, with nothing else queued,
  the server closes the connection without a response.
\<close>

theorem large_value_unreadable:
  assumes "set_accepted cfg ev k v ttl e" "concat chunks = request i (set_cmd k v ttl) @ request j (get_cmd k)"
    and "16 \<le> scOutputBufferLimit cfg" "scOutputBufferLimit cfg < int (length v) + 20"
    and "\<not> expired_at (deadline (ckDeadline (evClock ev)) ttl) (ckMs (evClock ev2))"
  shows "\<exists>s1 c1 s2 c2. serve_turn ev (server_New cfg e) (newConn n chunks) = Some (s1, c1)
    \<and> serve_turn ev2 s1 (snd (write_turn None s1 c1)) = Some (s2, c2) \<and> cnClosed c2 = Some OutputFull
    \<and> cnSent c2 = respond [] (req_frame i (set_cmd k v ttl)) StatusOK [] \<and> cnOut c2 = []"
proof -
  let ?r1 = "respond [] (req_frame i (set_cmd k v ttl)) StatusOK []" and ?r2 = "respond [] (req_frame j (get_cmd k)) StatusOK (EncodeValueBody [] v)"
  have a: "k \<noteq> []" "length k \<le> MaxKeyLen" "int (length v) \<le> scMaxValueLen cfg" "0 < scMaxValueLen cfg" "scMaxValueLen cfg \<le> int MaxValueLen"
    using assms(1) by (simp_all add: set_accepted_def)
  have lv: "length v \<le> MaxValueLen" using a(3,5) by linarith
  obtain s1 c1 where t: "serve_turn ev (server_New cfg e) (newConn n chunks) = Some (s1, c1)" "cnOut c1 = [?r1]" "cnOutSize c1 = 16" "cnSent c1 = []"
    "cnClosed c1 = None" "\<not> cnHijacked c1" "\<not> svShutdown s1" "svCfg s1 = cfg" "concat (cnIn c1) = request j (get_cmd k)"
    "svMaxFrame s1 = svMaxFrame (server_New cfg e)" "wf_store (enStore (svEng s1))"
    "store_abs (enStore (svEng s1)) k = Some (v, deadline (ckDeadline (evClock ev)) ttl)"
    using set_turn [OF assms(1,2,3), of n] by blast
  define c where "c = snd (write_turn None s1 c1)"
  have c: "cnOut c = []" "cnOutSize c = 0" "cnSent c = ?r1" "cnClosed c = None" "\<not> cnHijacked c" "concat (cnIn c) = request j (get_cmd k)"
    using t by (simp_all add: c_def write_turn_def)
  have "live (ckMs (evClock ev2)) (store_abs (enStore (svEng s1))) k = Some (v, deadline (ckDeadline (evClock ev)) ttl)"
    using t(12) assms(5) by (simp add: live_def)
  then obtain e' where x: "execute (svCfg s1) ev2 (req_frame j (get_cmd k)) [] (svEng s1) = Some (?r2, e')"
    using execute_get [OF a(1,2) t(11)] by blast
  have len: "length (EncodeCommand [] (get_cmd k)) \<le> effMaxBody (word_of_int (svMaxFrame s1))"
    unfolding t(10) server_New_limit [OF a(4,5)] request_bodies(4) [OF a(2) lv] using a(2) by simp
  obtain s d where u: "svCfg s = cfg" "cnOut d = []" "cnOutSize d = 0" "cnSent d = ?r1" "cnClosed d = None"
    "serve_turn ev2 s1 c = (let (ok, s2, c2) = enqueue ?r2 s d in Some (if ok then (s2, c2) else close_conn OutputFull s2 c2))"
    using serve_request [of c s1 j "get_cmd k" "[]" ev2, OF c(5,4) t(7) _ len _ x] c t(8) by (auto simp: isReplOpcode_def)
  have "length ?r2 = length v + 20" by (simp add: length_respond EncodeValueBody_def)
  then have "enqueue ?r2 s d = (False, s\<lparr>svOutputOverflows := svOutputOverflows s + 1\<rparr>, d)" using u assms(4) by (simp add: enqueue_def)
  then have "serve_turn ev2 s1 c = Some (removeConn d (s\<lparr>svOutputOverflows := svOutputOverflows s + 1\<rparr>), d\<lparr>cnClosed := Some OutputFull\<rparr>)"
    using u(5,6) by (simp add: close_conn_def)
  moreover have "cnClosed (d\<lparr>cnClosed := Some OutputFull\<rparr>) = Some OutputFull" "cnSent (d\<lparr>cnClosed := Some OutputFull\<rparr>) = ?r1" "cnOut (d\<lparr>cnClosed := Some OutputFull\<rparr>) = []"
    using u(2,4) by simp_all
  ultimately show ?thesis using t(1) unfolding c_def by blast
qed

section \<open>A server with the default limits\<close>

definition default_limits :: ServerConfig where
  "default_limits = \<lparr>scMaxValueLen = 16777216, scOutputBufferLimit = 1048576, scMaxConns = 10000\<rparr>"

definition sample_env :: Env where
  "sample_env = \<lparr>evClock = sample_clock, evCreated = 0, evWait = eng_flush_turn 0 1, evStats = (\<lambda>_. None), evText = (\<lambda>_. []), evRepl = None\<rparr>"

lemma sample_accepted:
  "\<exists>e. \<forall>v. length v \<le> MaxValueLen \<longrightarrow> set_accepted default_limits sample_env [1] v 0 e"
proof -
  obtain e :: Engine where e: "enWal e = sample_writer FsyncAlways" "enWalDir e = log_of hdr1 hdr1 []" "\<not> enClosed e" "\<not> enReadOnly e" "store_room (2 ^ 31 - 1) (enStore e)"
    by (rule sample_engine) blast
  have room: "store_room (Suc 0) (enStore e)" using e(5) by (auto simp: store_room_def)
  have "set_accepted default_limits sample_env [1] v 0 e" if v: "length v \<le> MaxValueLen" for v
  proof -
    let ?r = "(set_of sample_clock [1] v 0)\<lparr>rLSN := 1, rCreatedAtMs := 5\<rparr>" and ?e1 = "snd (eng_Set sample_clock [1] v 0 e)"
    have c: "cost_fits [1] v" using v by (simp add: cost_fits_def EntryCost_def)
    have sub: "Submit (ckWal sample_clock) (set_of sample_clock [1] v 0) (enWal e) = (Inr 1, (sample_writer FsyncAlways)\<lparr>wwNextLSN := 2, wwQueue := [?r]\<rparr>)"
      using v by (simp add: e(1) Submit_def sample_writer_def rectype_Valid_def record_of_def sample_clock_def)
    note R = eng_Set_run [OF room c e(3,4), of sample_clock 0, unfolded sub]
    have a: "wwQueue (enWal ?e1) = ?r # []" "wwO (enWal ?e1) = sample_opts FsyncAlways" "sgPath (wwSeg (enWal ?e1)) = SegmentName 1 \<and> sgOpen (wwSeg (enWal ?e1))"
      "sgSize (wwSeg (enWal ?e1)) = length hdr1" "length hdr1 < 1000"
      using R(2) by (simp_all add: sample_writer_def hdr1_length)
    note t = turn_ok [OF a(1,2) disjI1 [OF refl] a(3-5), of 0 1 hdr1]
    have "wwCommits (enWal ?e1) = []" "wwNextLSN (enWal e) = 1" using R(2) by (simp_all add: sample_writer_def e(1))
    then have "commit_Wait (wwNextLSN (enWal e)) (eng_flush_turn 0 1 ?e1) = Some True"
      using t(2) R(6) e(2) by (simp add: commit_Wait_def eng_flush_turn_def Let_def split_beta commit_finish_def)
    moreover have "enStore (eng_flush_turn 0 1 ?e1) = enStore ?e1" by (simp add: eng_flush_turn_def Let_def split_beta)
    ultimately show ?thesis using v e(3,4) room by (simp add: set_accepted_def default_limits_def sample_env_def e(1) sample_writer_def)
  qed
  then show ?thesis by blast
qed


theorem large_value_unreadable_witness:
  "\<exists>e v s1 c1 s2 c2. length v = 1048576 \<and> serve_turn sample_env (server_New default_limits e) (newConn 1 [request 7 (set_cmd [1] v 0), request 8 (get_cmd [1])]) = Some (s1, c1)
    \<and> serve_turn sample_env s1 (snd (write_turn None s1 c1)) = Some (s2, c2) \<and> cnClosed c2 = Some OutputFull
    \<and> cnSent c2 = respond [] (req_frame 7 (set_cmd [1] v 0)) StatusOK []"
proof -
  obtain e where e: "\<forall>v. length v \<le> MaxValueLen \<longrightarrow> set_accepted default_limits sample_env [1] v 0 e" using sample_accepted by blast
  obtain v :: bytes where v: "length v = 1048576" using length_replicate [of 1048576 0] by blast
  have a: "set_accepted default_limits sample_env [1] v 0 e" by (rule e [rule_format]) (simp add: v)
  show ?thesis
    using large_value_unreadable [OF a, of "[request 7 (set_cmd [1] v 0), request 8 (get_cmd [1])]" 7 8 sample_env 1] v
    by (simp add: default_limits_def sample_env_def sample_clock_def deadline_def expired_at_def) blast
qed

text \<open>A request of GET with an empty body, and one that asks for no reply.\<close>

definition bad_get :: "u16 \<Rightarrow> bytes" where
  "bad_get flags = WriteFrame [] (zeroHeader\<lparr>hVersion := ProtoVersion, hCode := OpGet, hFlags := flags\<rparr>) []"

lemma read_bad_get:
  "flags AND NOT AllFlags = 0 \<Longrightarrow> \<exists>r. ReadFrame [bad_get flags] 1000 = (\<lparr>fHeader = zeroHeader\<lparr>hVersion := ProtoVersion, hCode := OpGet, hFlags := flags\<rparr>, fBody = []\<rparr>, None, r)"
  using ReadFrame_WriteFrame [of "zeroHeader\<lparr>hVersion := ProtoVersion, hCode := OpGet, hFlags := flags\<rparr>" "[]" 1000 "[bad_get flags]" "[]"]
  by (auto simp: bad_get_def zeroHeader_def)

theorem fatal_status_keeps_connection_witness:
  "\<exists>(s :: Server) s' c'. serve_turn sample_env s (newConn 1 [bad_get FlagNoReply]) = Some (s', c') \<and> cnClosed c' = None \<and> cnOut c' = []"
proof -
  obtain e :: Engine where "eng_reach sample_cfg [] e" by (rule sample_engine) blast
  define s where "s = (server_New default_limits e)\<lparr>svMaxFrame := 1000\<rparr>"
  let ?f = "\<lparr>fHeader = zeroHeader\<lparr>hVersion := ProtoVersion, hCode := OpGet, hFlags := FlagNoReply\<rparr>, fBody = []\<rparr>"
  obtain r where r: "ReadFrame [bad_get FlagNoReply] 1000 = (?f, None, r)" using read_bad_get [of FlagNoReply] by auto
  have d: "DecodeCommand (hCode (fHeader ?f)) (fBody ?f) = Inl ErrTruncated"
    by (simp add: DecodeCommand_def finishCommand_def cur_bytes16_def cur_u16_def cur_remaining_def cur_fail_def new_cursor_def cur_bytes_def cur_done_def zeroHeader_def)
  have n: "NoReply ?f" by (simp add: NoReply_def)
  have "\<exists>s' c'. serve_turn sample_env s (newConn 1 [bad_get FlagNoReply]) = Some (s', c') \<and> cnClosed c' = None \<and> cnOut c' = []"
    using fatal_status_keeps_connection [OF _ _ _ _ _ d, of "newConn 1 [bad_get FlagNoReply]" s r sample_env] n r
    by (auto simp: newConn_def s_def server_New_def default_limits_def isReplOpcode_def)
  then show ?thesis by blast
qed

theorem conn_responses_witness:
  "\<exists>(s :: Server) s' c'. serve_turn sample_env s (newConn 1 [request 9 (zeroCommand OpPing)]) = Some (s', c')
     \<and> (\<exists>rs. cnSent c' @ concat (cnOut c') = concat rs \<and> list_all2 answers [req_frame 9 (zeroCommand OpPing)] rs)"
proof -
  obtain e :: Engine where "eng_reach sample_cfg [] e" by (rule sample_engine) blast
  let ?s = "server_New default_limits e" and ?c = "newConn 1 [request 9 (zeroCommand OpPing)]" and ?f = "req_frame 9 (zeroCommand OpPing)"
  have b: "EncodeCommand [] (zeroCommand OpPing) = []" "DecodeCommand OpPing [] = Inr (zeroCommand OpPing)" by (simp_all add: EncodeCommand_def DecodeCommand_def zeroCommand_def finishCommand_def new_cursor_def cur_done_def cur_remaining_def)
  obtain r where r: "ReadFrame (cnIn ?c) (word_of_int (svMaxFrame ?s)) = (?f, None, r)"
    using read_request [of "cnIn ?c" 9 "zeroCommand OpPing" "[]" "word_of_int (svMaxFrame ?s)"] by (auto simp: b(1) newConn_def)
  have x: "execute (svCfg ?s) sample_env ?f [] (svEng ?s) = Some (respond [] ?f StatusOK [], e)"
    by (simp add: execute_def b dispatch_def needs_key_def server_New_def Let_def)
  obtain s' c' where t: "serve_turn sample_env ?s ?c = Some (s', c')" "cnClosed c' = None"
    using serve_turn_request [OF _ _ _ r, of sample_env] x
    by (auto simp: newConn_def server_New_def default_limits_def isReplOpcode_def enqueue_fits length_respond)
  have f: "turn_frames ?s ?c = [?f]" by (simp add: turn_frames_def r)
  have "conn_reach ?s ?c ([] @ turn_frames ?s ?c) s' c'"
  proof (rule conn_reach.read [OF conn_reach.start _ _ _ t(1)])
    show "list_all (\<lambda>f. isReplOpcode (hCode (fHeader f)) \<longrightarrow> evRepl sample_env = None) (turn_frames ?s ?c)" by (simp add: f isReplOpcode_def)
  qed (simp_all add: newConn_def server_New_def Let_def)
  then have "conn_reach ?s ?c [?f] s' c'" by (simp add: f)
  from conn_responses [OF this t(2)] t(1) show ?thesis by (intro exI [of _ ?s] exI [of _ s'] exI [of _ c']) simp
qed

end
