(* ===== verification/Spec2Isabelle.thy ===== *)
theory Spec2Isabelle
  imports Cluster_Spec Server_Spec
begin

text \<open>
  A verification development for kvstore, a durable in-memory key-value server with expiry, eviction, snapshots and
  replication. All paths are relative to \<^verbatim>\<open>src/\<close>.

  \<^bold>\<open>The program and how its parts interact.\<close>
  A client sends request frames over TCP (\<^verbatim>\<open>internal/protocol\<close>). The server (\<^verbatim>\<open>internal/server\<close>) reads them, executes each on the
  engine and queues the responses. The engine (\<^verbatim>\<open>internal/engine\<close>) applies a write to the sharded store (\<^verbatim>\<open>internal/store\<close>) under the lock of the key's shard,
  submits a record to the group-commit log writer (\<^verbatim>\<open>internal/wal\<close>), hands the record to the replica feeds and waits for the
  commit. The store removes keys by itself, for lack of memory or because they expired; it reports them through a callback and the engine logs
  deletes for them. Snapshots (\<^verbatim>\<open>internal/snapshot\<close>) bound the log. At startup the newest valid snapshot is loaded and the log above it
  is replayed. A primary streams its log and its live feed to replicas (\<^verbatim>\<open>internal/cluster\<close>), which apply the records and log them again.

  \<^bold>\<open>Which theory models what.\<close>
  \<^item> \<^verbatim>\<open>Prelude\<close>: machine words, little-endian fields, results with errors, shared list lemmas.
  \<^item> \<^verbatim>\<open>Wire_Frame\<close>, \<^verbatim>\<open>Wire_Command\<close>: \<^verbatim>\<open>internal/protocol\<close>. A reader is the list of chunks that reads return.
  \<^item> \<^verbatim>\<open>Hash\<close>: \<^verbatim>\<open>store/hash.go\<close> on 64-bit words.
  \<^item> \<^verbatim>\<open>Shard\<close> (definitions), \<^verbatim>\<open>Shard_Lemmas\<close>, \<^verbatim>\<open>Shard_Inv\<close>, \<^verbatim>\<open>Shard_Ops\<close>, \<^verbatim>\<open>Shard_Spec\<close>: \<^verbatim>\<open>store/entry.go\<close> and \<^verbatim>\<open>store/shard.go\<close>.
    Entries live in an explicit heap, because the map, two slices and the LRU list share them by pointer. Every \<^verbatim>\<open>Locked\<close> method is one function on the record \<^verbatim>\<open>shard\<close>.
  \<^item> \<^verbatim>\<open>Reference\<close>, \<^verbatim>\<open>KV_Interface\<close>: \<^verbatim>\<open>store/reference.go\<close> and the contract \<^verbatim>\<open>kv_store\<close>, a locale that the reference store and the sharded store both interpret.
  \<^item> \<^verbatim>\<open>Store\<close> (definitions), \<^verbatim>\<open>Store_Spec\<close>, \<^verbatim>\<open>Store_Scan\<close>, \<^verbatim>\<open>Store_Bulk\<close>: \<^verbatim>\<open>store/store.go\<close>, \<^verbatim>\<open>memory.go\<close> and the purge of \<^verbatim>\<open>expiry.go\<close>.
    One operation is one change of one shard; a read that finds an expired entry is two.
  \<^item> \<^verbatim>\<open>Wheel\<close>, \<^verbatim>\<open>Expiry\<close>: \<^verbatim>\<open>store/wheel.go\<close> and the sweeper of \<^verbatim>\<open>store/expiry.go\<close>.
  \<^item> \<^verbatim>\<open>Crc\<close>, \<^verbatim>\<open>Wal_Record\<close>, \<^verbatim>\<open>Wal_Scan\<close>, \<^verbatim>\<open>Wal_Segment\<close>, \<^verbatim>\<open>Wal_Recover\<close>, \<^verbatim>\<open>Wal_Writer\<close>, \<^verbatim>\<open>Wal_Durable\<close>: \<^verbatim>\<open>internal/wal\<close>. A directory maps names to files
    with current and durable bytes, and a plan of the outcomes of the coming system calls, so that each of them may fail. The writer goroutine is a function that takes
    a batch off the queue; finished commits are a list.
  \<^item> \<^verbatim>\<open>Snapshot\<close>, \<^verbatim>\<open>Snapshot_Load\<close>: \<^verbatim>\<open>internal/snapshot\<close> on the same model of a directory.
  \<^item> \<^verbatim>\<open>Engine\<close> (definitions), \<^verbatim>\<open>Engine_Spec\<close>, \<^verbatim>\<open>Engine_Durable\<close>: \<^verbatim>\<open>internal/engine\<close>. The record \<^verbatim>\<open>Engine\<close> has the store, the log writer, both directories, the queue of evictions
    and the feeds. A write is \<^verbatim>\<open>mutate_locked\<close>, what happens under the shard lock, and \<^verbatim>\<open>mutate_unlocked\<close>, so that two writers can be interleaved. The locale
    \<^verbatim>\<open>record_sink\<close> says what a receiver of a stream of records promises; recovery and the replica interpret it.
  \<^item> \<^verbatim>\<open>Repl_Stream\<close>, \<^verbatim>\<open>Cluster\<close> (definitions), \<^verbatim>\<open>Cluster_Spec\<close>: \<^verbatim>\<open>internal/cluster\<close>. What a side writes is a list of bytes; a function handles one message of the stream.
  \<^item> \<^verbatim>\<open>Server\<close> (definitions), \<^verbatim>\<open>Server_Spec\<close>: \<^verbatim>\<open>internal/server\<close>, from the request frame to the response frame, and a connection as turns of its read loop and its writer.

  Readings of the clock are arguments of the operations. Callbacks are functions on a state, or lists of the calls that were made.

  \<^bold>\<open>What the lemmas show.\<close>
  \<^item> Codecs: requests, frames, log records, snapshots and replication messages are read back as written however the bytes are split, decoders accept only what the encoder writes,
    and a changed byte of a snapshot is detected.
  \<^item> Store: every sequence of operations keeps the indexes of a shard consistent; without a memory limit the store answers as the reference store does; with one the limit holds after
    every command; scans deliver exactly the live entries and purging leaves exactly them; the wheel loses no timer.
  \<^item> Durability: after a crash recovery applies exactly the complete records of the log; under the policy \<^verbatim>\<open>always\<close>, and as long as no system call failed, they include every
    acknowledged write; a committed snapshot is what recovery loads; removing segments below a snapshot changes no later recovery.
  \<^item> Engine: what a write does on each branch, and for runs without a memory limit, a snapshot or a passed deadline, that recovery rebuilds the effect of a prefix of the writes.
  \<^item> Replication: a partial and a full resync bring a replica to the keyspace of the primary; epochs never go back.
  \<^item> Server: every request on a connection gets one response, in order; a value that was set is read back.
  \<^item> Behaviour that is not what the comments and documents say is stated as a theorem of its own: the timer that fires early, the scan that repeats an entry, the durable LSN that is ahead of the
    disk, the acknowledgement behind a torn record, the resumed empty segment, the mixed snapshots, the deadline that is not registered, the delete that overtakes a write, the EXPIRE that is
    replayed too late, the records that overtake each other in a feed, the replica that misses a record, the promoted node that is emptied, the fatal status that does not
    close, and the value that cannot be read.

  \<^bold>\<open>Bounds and fuel.\<close>
  Loops that the source runs until something is done are recursive functions with a measure, or have fuel and the value \<open>None\<close> for running out of it: \<^verbatim>\<open>purge_shard\<close> and \<^verbatim>\<open>sweep_shard\<close>
  get one more than the number of entries with a deadline, and every round that repeats removes one of them, so they return; \<^verbatim>\<open>lru_walk\<close> gets more than the length of the LRU list;
  \<^verbatim>\<open>drain\<close> gets the length of the queue, and every turn takes at least one submission. The slots of a shard are 32-bit numbers, so the results on writes need fewer than \<open>2 ^ 31 - 1\<close> entries in a
  shard. The name of a segment has 16 digits, so LSNs stay below \<open>10 ^ 16\<close>. The wheel is exact for \<open>2 ^ 40\<close> ticks.

  \<^bold>\<open>Not modelled.\<close>
  The scheduling of goroutines, locks and channels beyond the interleavings above; the gate that bounds the writes in flight, which delays calls and changes no state; the
  creation of directories and the directory lock; STATS documents and process memory readings; configuration parsing; the client library; the text interface and the worker pool of the
  server; listening and dialling; the command-line programs; test support. A crash keeps a prefix of the bytes appended since the last sync, and a removed file stays removed.
\<close>

end
